(* ===== verification/Prelude.thy ===== *)
theory Prelude
  imports Main "HOL-Library.Word"
begin

text \<open>
  What the component theories share: the collections of rewrite rules, the
  names of the scalar types of the Rust sources, and generic lemmas on lists,
  options and maps.

  Conventions of the model.  A Rust panic (a failed \<open>expect\<close>, an index out of
  range, an \<open>assert!\<close>) is the value \<open>None\<close> of an \<open>option\<close> result.
  \<open>usize\<close>, \<open>u32\<close> and \<open>u16\<close> are \<open>nat\<close>; the U256 values of the \<open>ethnum\<close>
  crate are \<open>256 word\<close>.  A \<open>BTreeSet\<close> is a set, a \<open>BTreeMap\<close> a map; where
  the code iterates over one in key order, the theory that models the loop
  says so.
\<close>

named_theorems ir_simps \<open>evaluation rules of the traversals of an IR tree\<close>
named_theorems sem_simps \<open>evaluation rules of the reference semantics\<close>
named_theorems refine_intros \<open>introduction rules for the refinement preorder\<close>

type_synonym TempId = string
type_synonym StructID = nat
type_synonym FunctionID = nat
type_synonym U256 = "256 word"

section \<open>Lists and options\<close>

lemma mapM_length_induct_aux:
  "length xs = length ys \<Longrightarrow> (\<forall>i < length xs. xs ! i = ys ! i) \<Longrightarrow> xs = ys"
  by (simp add: list_eq_iff_nth_eq)

text \<open>Evaluation of a list of optional results: the first failure fails the list.\<close>

fun sequence :: "'a option list \<Rightarrow> 'a list option" where
  "sequence [] = Some []"
| "sequence (None # xs) = None"
| "sequence (Some x # xs) = map_option (Cons x) (sequence xs)"

lemma sequence_Some_iff:
  "sequence os = Some vs \<longleftrightarrow> os = map Some vs"
  by (induction os arbitrary: vs rule: sequence.induct) auto

lemma sequence_map_Some [simp]: "sequence (map Some vs) = Some vs"
  by (simp add: sequence_Some_iff)

lemma sequence_map_Some_fun [simp]: "sequence (map (\<lambda>x. Some (f x)) xs) = Some (map f xs)"
  by (induction xs) auto

lemma sequence_map_cong:
  "(\<And>x. x \<in> set xs \<Longrightarrow> f x = Some (g x)) \<Longrightarrow> sequence (map f xs) = Some (map g xs)"
  by (induction xs) auto

lemma sequence_mono:
  assumes "sequence (map f xs) = Some vs"
    and "\<And>x v. x \<in> set xs \<Longrightarrow> f x = Some v \<Longrightarrow> g x = Some v"
  shows "sequence (map g xs) = Some vs"
proof -
  from assms(1) have *: "map f xs = map Some vs" by (simp add: sequence_Some_iff)
  have "map g xs = map Some vs"
  proof (rule nth_equalityI)
    show "length (map g xs) = length (map Some vs)"
      using * by (metis length_map)
    fix i assume "i < length (map g xs)"
    then have i: "i < length xs" by simp
    with * have "f (xs ! i) = Some (vs ! i)" by (metis length_map nth_map)
    then have "g (xs ! i) = Some (vs ! i)" using assms(2) i by simp
    then show "map g xs ! i = map Some vs ! i"
      using i * by (metis length_map nth_map)
  qed
  then show ?thesis by (simp add: sequence_Some_iff)
qed

lemma sequence_length: "sequence os = Some vs \<Longrightarrow> length vs = length os"
  by (auto simp: sequence_Some_iff)

text \<open>The sum of a measure over a list, for the termination of the work stacks.\<close>

lemma sum_list_member_le: "x \<in> set xs \<Longrightarrow> f x \<le> sum_list (map f (xs :: 'a list))"
  for f :: "'a \<Rightarrow> nat"
  by (induction xs) auto

lemma sum_list_rev_map [simp]: "sum_list (map f (rev xs)) = sum_list (map (f :: 'a \<Rightarrow> nat) xs)"
  by (simp add: rev_map [symmetric] sum_list_rev)

lemma fold_insert_set: "fold insert xs S = set xs \<union> S"
  by (induction xs arbitrary: S) auto

lemma fold_remove_set: "fold (\<lambda>x S. S - {x}) xs S = S - set xs"
  by (induction xs arbitrary: S) auto

section \<open>Maps\<close>

definition map_or_self :: "('k \<rightharpoonup> 'k) \<Rightarrow> 'k \<Rightarrow> 'k" where
  "map_or_self m k = (case m k of Some k' \<Rightarrow> k' | None \<Rightarrow> k)"

lemma map_or_self_empty [simp]: "map_or_self Map.empty k = k"
  by (simp add: map_or_self_def)

lemma map_or_self_notin [simp]: "k \<notin> dom m \<Longrightarrow> map_or_self m k = k"
  by (auto simp: map_or_self_def split: option.splits)

end
