(* ===== verification/IRTypes.thy ===== *)
theory IRTypes
  imports Prelude
begin

text \<open>
  The type language of the intermediate representation
  (\<open>intermediate-theorem-format/src/data/types.rs\<close>): the \<open>Type\<close> enum and its
  operations.  A type parameter index is a \<open>u16\<close>, a bit width a \<open>u32\<close>.
\<close>

section \<open>The enum\<close>

datatype Type =
    TyBool
  | TyProp
  | TyUInt nat
  | TyAddress
  | TyStruct StructID "Type list"
  | TyVector Type
  | TyReference Type
  | TyMutableReference Type Type
  | TyTypeParameter nat
  | TyTuple "Type list"
  | TyOption Type
  | TyMoveAbort

section \<open>Operations\<close>

text \<open>
  \<open>collect_struct_ids\<close> pushes on a vector in preorder; the state type of a
  mutable reference is not visited.
\<close>

fun collect_struct_ids :: "Type \<Rightarrow> StructID list \<Rightarrow> StructID list" where
  "collect_struct_ids (TyStruct sid targs) ids =
     fold (\<lambda>t acc. collect_struct_ids t acc) targs (ids @ [sid])"
| "collect_struct_ids (TyVector inner) ids = collect_struct_ids inner ids"
| "collect_struct_ids (TyReference inner) ids = collect_struct_ids inner ids"
| "collect_struct_ids (TyMutableReference inner _) ids = collect_struct_ids inner ids"
| "collect_struct_ids (TyOption inner) ids = collect_struct_ids inner ids"
| "collect_struct_ids (TyTuple tys) ids = fold (\<lambda>t acc. collect_struct_ids t acc) tys ids"
| "collect_struct_ids TyBool ids = ids"
| "collect_struct_ids TyProp ids = ids"
| "collect_struct_ids (TyUInt _) ids = ids"
| "collect_struct_ids TyAddress ids = ids"
| "collect_struct_ids (TyTypeParameter _) ids = ids"
| "collect_struct_ids TyMoveAbort ids = ids"

definition struct_ids :: "Type \<Rightarrow> StructID list" where
  "struct_ids t = collect_struct_ids t []"

fun contains_mutable_ref :: "Type \<Rightarrow> bool" where
  "contains_mutable_ref (TyMutableReference _ _) = True"
| "contains_mutable_ref (TyTuple elems) = list_ex contains_mutable_ref elems"
| "contains_mutable_ref _ = False"

fun strip_mutable_ref :: "Type \<Rightarrow> Type" where
  "strip_mutable_ref (TyMutableReference inner _) = inner"
| "strip_mutable_ref (TyTuple elems) = TyTuple (map strip_mutable_ref elems)"
| "strip_mutable_ref t = t"

fun contains_bool :: "Type \<Rightarrow> bool" where
  "contains_bool TyBool = True"
| "contains_bool (TyTuple tys) = list_ex contains_bool tys"
| "contains_bool (TyVector inner) = contains_bool inner"
| "contains_bool (TyReference inner) = contains_bool inner"
| "contains_bool (TyMutableReference inner _) = contains_bool inner"
| "contains_bool (TyOption inner) = contains_bool inner"
| "contains_bool (TyStruct _ targs) = list_ex contains_bool targs"
| "contains_bool TyProp = False"
| "contains_bool (TyUInt _) = False"
| "contains_bool TyAddress = False"
| "contains_bool (TyTypeParameter _) = False"
| "contains_bool TyMoveAbort = False"

definition is_bool :: "Type \<Rightarrow> bool" where
  "is_bool t = (t = TyBool)"

definition is_prop :: "Type \<Rightarrow> bool" where
  "is_prop t = (t = TyProp)"

fun bool_to_prop_return :: "Type \<Rightarrow> Type" where
  "bool_to_prop_return TyBool = TyProp"
| "bool_to_prop_return t = t"

text \<open>
  \<open>Option<u16>::max\<close> compares with \<open>None\<close> below every \<open>Some\<close>; the maximum of
  an iterator that \<open>filter_map\<close> left empty is \<open>None\<close>.
\<close>

fun opt_max :: "nat option \<Rightarrow> nat option \<Rightarrow> nat option" where
  "opt_max None b = b"
| "opt_max a None = a"
| "opt_max (Some a) (Some b) = Some (max a b)"

fun max_type_param_index :: "Type \<Rightarrow> nat option" where
  "max_type_param_index (TyTypeParameter idx) = Some idx"
| "max_type_param_index (TyStruct _ targs) =
     foldr (\<lambda>t acc. opt_max (max_type_param_index t) acc) targs None"
| "max_type_param_index (TyVector inner) = max_type_param_index inner"
| "max_type_param_index (TyReference inner) = max_type_param_index inner"
| "max_type_param_index (TyOption inner) = max_type_param_index inner"
| "max_type_param_index (TyMutableReference inner state) =
     opt_max (max_type_param_index inner) (max_type_param_index state)"
| "max_type_param_index (TyTuple tys) =
     foldr (\<lambda>t acc. opt_max (max_type_param_index t) acc) tys None"
| "max_type_param_index TyBool = None"
| "max_type_param_index TyProp = None"
| "max_type_param_index (TyUInt _) = None"
| "max_type_param_index TyAddress = None"
| "max_type_param_index TyMoveAbort = None"

fun substitute_type_params :: "Type list \<Rightarrow> Type \<Rightarrow> Type" where
  "substitute_type_params subs (TyTypeParameter idx) =
     (if idx < length subs then subs ! idx else TyTypeParameter idx)"
| "substitute_type_params subs (TyStruct sid targs) =
     TyStruct sid (map (substitute_type_params subs) targs)"
| "substitute_type_params subs (TyVector inner) = TyVector (substitute_type_params subs inner)"
| "substitute_type_params subs (TyReference inner) = TyReference (substitute_type_params subs inner)"
| "substitute_type_params subs (TyMutableReference inner state) =
     TyMutableReference (substitute_type_params subs inner) (substitute_type_params subs state)"
| "substitute_type_params subs (TyTuple tys) = TyTuple (map (substitute_type_params subs) tys)"
| "substitute_type_params subs (TyOption inner) = TyOption (substitute_type_params subs inner)"
| "substitute_type_params subs TyBool = TyBool"
| "substitute_type_params subs TyProp = TyProp"
| "substitute_type_params subs (TyUInt n) = TyUInt n"
| "substitute_type_params subs TyAddress = TyAddress"
| "substitute_type_params subs TyMoveAbort = TyMoveAbort"

section \<open>Facts\<close>

text \<open>The type parameters a type mentions, as a set: what \<open>max_type_param_index\<close> bounds.\<close>

fun type_params :: "Type \<Rightarrow> nat set" where
  "type_params (TyTypeParameter idx) = {idx}"
| "type_params (TyStruct _ targs) = (\<Union>t\<in>set targs. type_params t)"
| "type_params (TyVector inner) = type_params inner"
| "type_params (TyReference inner) = type_params inner"
| "type_params (TyOption inner) = type_params inner"
| "type_params (TyMutableReference inner state) = type_params inner \<union> type_params state"
| "type_params (TyTuple tys) = (\<Union>t\<in>set tys. type_params t)"
| "type_params _ = {}"

lemma finite_type_params [simp]: "finite (type_params t)"
  by (induction t rule: type_params.induct) auto

definition max_of :: "nat set \<Rightarrow> nat option" where
  "max_of S = (if S = {} then None else Some (Max S))"

lemma max_of_Un:
  "finite A \<Longrightarrow> finite B \<Longrightarrow> max_of (A \<union> B) = opt_max (max_of A) (max_of B)"
  by (auto simp: max_of_def Max_Un)

lemma foldr_opt_max:
  "(\<And>t. t \<in> set ts \<Longrightarrow> f t = max_of (g t)) \<Longrightarrow> (\<And>t. t \<in> set ts \<Longrightarrow> finite (g t)) \<Longrightarrow>
   foldr (\<lambda>t acc. opt_max (f t) acc) ts None = max_of (\<Union>t\<in>set ts. g t)"
proof (induction ts)
  case Nil
  then show ?case by (simp add: max_of_def)
next
  case (Cons t ts)
  then show ?case by (simp add: max_of_Un)
qed

lemma max_type_param_index_spec: "max_type_param_index t = max_of (type_params t)"
proof (induction t rule: max_type_param_index.induct)
  case (2 sid targs)
  then show ?case by (simp add: foldr_opt_max)
next
  case (7 tys)
  then show ?case by (simp add: foldr_opt_max)
qed (auto simp: max_of_Un, auto simp: max_of_def)

lemma substitute_type_params_cong:
  "(\<And>i. i \<in> type_params t \<Longrightarrow>
      substitute_type_params r (TyTypeParameter i) = substitute_type_params s (TyTypeParameter i)) \<Longrightarrow>
   substitute_type_params r t = substitute_type_params s t"
  by (induction t rule: type_params.induct) auto

lemma type_params_substitute:
  "type_params (substitute_type_params s t) =
     (\<Union>i\<in>type_params t. type_params (substitute_type_params s (TyTypeParameter i)))"
  by (induction t rule: type_params.induct) auto

lemma substitute_type_params_closed:
  "(\<And>i. i \<in> type_params t \<Longrightarrow> length s \<le> i) \<Longrightarrow> substitute_type_params s t = t"
  by (induction t rule: type_params.induct) (auto intro: map_idI)

lemma substitute_type_params_Nil [simp]: "substitute_type_params [] t = t"
  by (rule substitute_type_params_closed) simp

lemma substitute_type_params_comp:
  "(\<And>i. i \<in> type_params t \<Longrightarrow> i < length r) \<Longrightarrow>
   substitute_type_params s (substitute_type_params r t) =
   substitute_type_params (map (substitute_type_params s) r) t"
  by (induction t rule: type_params.induct) auto

lemma strip_no_mutable_ref: "\<not> contains_mutable_ref t \<Longrightarrow> strip_mutable_ref t = t"
  by (induction t rule: strip_mutable_ref.induct) (auto simp: list_ex_iff map_idI)

text \<open>The identifiers a type names, as a list in preorder.\<close>

fun struct_ids_spec :: "Type \<Rightarrow> StructID list" where
  "struct_ids_spec (TyStruct sid targs) = sid # concat (map struct_ids_spec targs)"
| "struct_ids_spec (TyVector inner) = struct_ids_spec inner"
| "struct_ids_spec (TyReference inner) = struct_ids_spec inner"
| "struct_ids_spec (TyMutableReference inner _) = struct_ids_spec inner"
| "struct_ids_spec (TyOption inner) = struct_ids_spec inner"
| "struct_ids_spec (TyTuple tys) = concat (map struct_ids_spec tys)"
| "struct_ids_spec _ = []"

lemma fold_append_concat:
  "(\<And>t acc. t \<in> set ts \<Longrightarrow> f t acc = acc @ g t) \<Longrightarrow> fold f ts acc = acc @ concat (map g ts)"
  by (induction ts arbitrary: acc) auto

lemma collect_struct_ids_append: "collect_struct_ids t ids = ids @ struct_ids_spec t"
  by (induction t ids rule: collect_struct_ids.induct)
    (simp_all add: fold_append_concat [where g = struct_ids_spec])

lemma struct_ids_eq: "struct_ids t = struct_ids_spec t"
  by (simp add: struct_ids_def collect_struct_ids_append)

section \<open>Properties\<close>

text \<open>Composing two substitutions of type parameters is substituting into the first.\<close>

theorem substitute_composes:
  assumes "\<And>i. i \<in> type_params t \<Longrightarrow> i < length r"
  shows "substitute_type_params s (substitute_type_params r t) =
    substitute_type_params (map (substitute_type_params s) r) t"
  by (rule substitute_type_params_comp) (rule assms)

theorem substitute_composes_witness:
  "substitute_type_params [TyBool] (substitute_type_params [TyVector (TyTypeParameter 0)] (TyOption (TyTypeParameter 0))) =
   substitute_type_params (map (substitute_type_params [TyBool]) [TyVector (TyTypeParameter 0)]) (TyOption (TyTypeParameter 0))"
  by (rule substitute_composes) simp

text \<open>\<open>max_type_param_index\<close> is the largest parameter index in the type, \<open>None\<close> when there is none.\<close>

theorem max_type_param_index_correct: "max_type_param_index t = max_of (type_params t)"
  by (rule max_type_param_index_spec)

end
