(* ===== verification/IR.thy ===== *)
theory IR
  imports IRTypes
begin

text \<open>
  The expression language of the intermediate representation
  (\<open>intermediate-theorem-format/src/data/ir.rs\<close>): the \<open>IRNode\<close> enum, the child
  slots that the macro \<open>traverse_ir!\<close> visits, and the induction over them that
  every later theory uses.  A constructor \<open>IRNode::X\<close> is \<open>IRX\<close> here, a
  \<open>Type::X\<close> is \<open>TyX\<close>, a \<open>Const::X\<close> is \<open>CX\<close>.
\<close>

section \<open>The enums\<close>

datatype Const =
    CBool bool
  | CUInt nat U256
  | CAddress nat
  | CVector Type "Const list"

datatype BinOp =
    OpAdd | OpSub | OpMul | OpDiv | OpMod
  | OpBitAnd | OpBitOr | OpBitXor | OpShl | OpShr
  | OpAnd | OpOr
  | OpEq | OpNeq | OpLt | OpLe | OpGt | OpGe

definition is_comparison :: "BinOp \<Rightarrow> bool" where
  "is_comparison op = (op = OpLt \<or> op = OpLe \<or> op = OpGt \<or> op = OpGe)"

datatype QuantifierKind =
    QForall | QExists | QAny | QAnyRange | QAll | QAllRange
  | QFindIndex | QFindIndexRange | QRangeMap | QMap | QMapRange
  | QFilter | QFilterRange | QCount | QCountRange | QFind | QFindRange
  | QFindIndices | QFindIndicesRange | QSumMap | QSumMapRange
  | QRangeCount | QRangeSumMap

datatype UnOp = OpNot | OpBitNot | OpCast nat

text \<open>\<open>BitOp\<close> holds boxed nodes: its parameter is the node type.\<close>

datatype 'n BitOp =
    BitExtract nat nat 'n
  | BitConcat 'n 'n
  | BitZeroExtend nat 'n
  | BitSignExtend nat 'n

datatype AbortSource = UserAssert | Arithmetic

datatype WriteBackEdge = EdgeDirect | EdgeField StructID nat

definition default_edge :: WriteBackEdge where
  "default_edge = EdgeDirect"

datatype IRNode =
    IRVar TempId
  | IRConst Const
  | IRBinOp BinOp IRNode IRNode
  | IRUnOp UnOp IRNode
  | IRBitOp "IRNode BitOp"
  | IRCall FunctionID "Type list" "IRNode list"
  | IRPack StructID "Type list" "IRNode list" "nat option"
  | IRField StructID nat IRNode
  | IRUnpack StructID IRNode "nat option"
  | IRTuple "IRNode list"
  | IRLet "TempId list" IRNode IRNode
  | IRIf IRNode IRNode IRNode
  | IRMatch IRNode "(nat \<times> TempId list \<times> IRNode) list"
  | IRUpdateField IRNode StructID nat IRNode
  | IRUpdateVec IRNode IRNode IRNode
  | IRMutableBorrow IRNode TempId IRNode Type
  | IRReadRef IRNode
  | IRWriteRef IRNode IRNode
  | IRQuantifier QuantifierKind IRNode TempId Type "IRNode option" "(IRNode \<times> IRNode) option"
  | IRToProp IRNode
  | IRToBool IRNode
  | IROptionSome IRNode
  | IROptionNone
  | IRMatchOption IRNode TempId IRNode IRNode
  | IRInhabited
  | IRAbort "IRNode option"
  | IRWriteBack TempId TempId WriteBackEdge
  | IRMutableCompose TempId TempId
  | IRMoveAbortValue AbortSource IRNode
  | IRArithOverflowCheck BinOp IRNode IRNode

definition unit_node :: IRNode where
  "unit_node = IRTuple []"

fun is_atomic :: "IRNode \<Rightarrow> bool" where
  "is_atomic (IRVar _) = True"
| "is_atomic (IRConst _) = True"
| "is_atomic (IRTuple _) = True"
| "is_atomic _ = False"

section \<open>The child slots\<close>

text \<open>\<open>traverse_ir!\<close> with \<open>as_ir_ref\<close>: the children of a node in the order of the macro.\<close>

fun bitop_children :: "'n BitOp \<Rightarrow> 'n list" where
  "bitop_children (BitExtract _ _ x) = [x]"
| "bitop_children (BitConcat h l) = [h, l]"
| "bitop_children (BitZeroExtend _ x) = [x]"
| "bitop_children (BitSignExtend _ x) = [x]"

fun children :: "IRNode \<Rightarrow> IRNode list" where
  "children (IRVar _) = []"
| "children (IRConst _) = []"
| "children (IRBinOp _ l r) = [l, r]"
| "children (IRUnOp _ x) = [x]"
| "children (IRBitOp b) = bitop_children b"
| "children (IRCall _ _ args) = args"
| "children (IRPack _ _ fields _) = fields"
| "children (IRField _ _ base) = [base]"
| "children (IRUnpack _ v _) = [v]"
| "children (IRTuple elems) = elems"
| "children (IRIf c t e) = [c, t, e]"
| "children (IRMatch s cases) = s # map (\<lambda>c. snd (snd c)) cases"
| "children (IRLet _ v b) = [v, b]"
| "children (IRUpdateField base _ _ v) = [base, v]"
| "children (IRUpdateVec base i v) = [base, i, v]"
| "children (IRMutableBorrow v _ r _) = [v, r]"
| "children (IRReadRef x) = [x]"
| "children (IRWriteRef r v) = [r, v]"
| "children (IRQuantifier _ cb _ _ coll rng) =
     cb # (case coll of None \<Rightarrow> [] | Some c \<Rightarrow> [c])
        @ (case rng of None \<Rightarrow> [] | Some (s, e) \<Rightarrow> [s, e])"
| "children (IRToProp x) = [x]"
| "children (IRToBool x) = [x]"
| "children (IROptionSome x) = [x]"
| "children IROptionNone = []"
| "children IRInhabited = []"
| "children (IRWriteBack _ _ _) = []"
| "children (IRMutableCompose _ _) = []"
| "children (IRAbort code) = (case code of None \<Rightarrow> [] | Some c \<Rightarrow> [c])"
| "children (IRMoveAbortValue _ code) = [code]"
| "children (IRMatchOption s _ sb nb) = [s, sb, nb]"
| "children (IRArithOverflowCheck _ l r) = [l, r]"

text \<open>
  \<open>traverse_ir!\<close> with \<open>as_ir_mut\<close>: the same slots overwritten in the same order
  with the nodes of a list (\<open>mem::take\<close> writes \<open>()\<close> in every slot, the rebuild
  step of \<open>map\<close> the transformed children).
\<close>

fun bitop_set_children :: "'n BitOp \<Rightarrow> 'n list \<Rightarrow> 'n BitOp" where
  "bitop_set_children (BitExtract h l _) cs = BitExtract h l (cs ! 0)"
| "bitop_set_children (BitConcat _ _) cs = BitConcat (cs ! 0) (cs ! 1)"
| "bitop_set_children (BitZeroExtend n _) cs = BitZeroExtend n (cs ! 0)"
| "bitop_set_children (BitSignExtend n _) cs = BitSignExtend n (cs ! 0)"

fun set_children :: "IRNode \<Rightarrow> IRNode list \<Rightarrow> IRNode" where
  "set_children (IRVar x) cs = IRVar x"
| "set_children (IRConst c) cs = IRConst c"
| "set_children (IRBinOp op _ _) cs = IRBinOp op (cs ! 0) (cs ! 1)"
| "set_children (IRUnOp op _) cs = IRUnOp op (cs ! 0)"
| "set_children (IRBitOp b) cs = IRBitOp (bitop_set_children b cs)"
| "set_children (IRCall f ts args) cs = IRCall f ts (take (length args) cs)"
| "set_children (IRPack s ts fields vi) cs = IRPack s ts (take (length fields) cs) vi"
| "set_children (IRField s i _) cs = IRField s i (cs ! 0)"
| "set_children (IRUnpack s _ vi) cs = IRUnpack s (cs ! 0) vi"
| "set_children (IRTuple elems) cs = IRTuple (take (length elems) cs)"
| "set_children (IRIf _ _ _) cs = IRIf (cs ! 0) (cs ! 1) (cs ! 2)"
| "set_children (IRMatch _ cases) cs =
     IRMatch (cs ! 0) (map2 (\<lambda>(tag, bs, _) body. (tag, bs, body)) cases (tl cs))"
| "set_children (IRLet p _ _) cs = IRLet p (cs ! 0) (cs ! 1)"
| "set_children (IRUpdateField _ s i _) cs = IRUpdateField (cs ! 0) s i (cs ! 1)"
| "set_children (IRUpdateVec _ _ _) cs = IRUpdateVec (cs ! 0) (cs ! 1) (cs ! 2)"
| "set_children (IRMutableBorrow _ p _ t) cs = IRMutableBorrow (cs ! 0) p (cs ! 1) t"
| "set_children (IRReadRef _) cs = IRReadRef (cs ! 0)"
| "set_children (IRWriteRef _ _) cs = IRWriteRef (cs ! 0) (cs ! 1)"
| "set_children (IRQuantifier k _ p t coll rng) cs =
     IRQuantifier k (cs ! 0) p t
       (case coll of None \<Rightarrow> None | Some _ \<Rightarrow> Some (cs ! 1))
       (case rng of None \<Rightarrow> None
        | Some _ \<Rightarrow> (case coll of None \<Rightarrow> Some (cs ! 1, cs ! 2) | Some _ \<Rightarrow> Some (cs ! 2, cs ! 3)))"
| "set_children (IRToProp _) cs = IRToProp (cs ! 0)"
| "set_children (IRToBool _) cs = IRToBool (cs ! 0)"
| "set_children (IROptionSome _) cs = IROptionSome (cs ! 0)"
| "set_children IROptionNone cs = IROptionNone"
| "set_children IRInhabited cs = IRInhabited"
| "set_children (IRWriteBack c p e) cs = IRWriteBack c p e"
| "set_children (IRMutableCompose i out) cs = IRMutableCompose i out"
| "set_children (IRAbort code) cs = IRAbort (case code of None \<Rightarrow> None | Some _ \<Rightarrow> Some (cs ! 0))"
| "set_children (IRMoveAbortValue s _) cs = IRMoveAbortValue s (cs ! 0)"
| "set_children (IRMatchOption _ b _ _) cs = IRMatchOption (cs ! 0) b (cs ! 1) (cs ! 2)"
| "set_children (IRArithOverflowCheck op _ _) cs = IRArithOverflowCheck op (cs ! 0) (cs ! 1)"

text \<open>
  The rebuild step takes the children from an iterator and panics
  (\<open>child count mismatch\<close>) when the iterator runs out.
\<close>

definition rebuild :: "IRNode \<Rightarrow> IRNode list \<Rightarrow> IRNode option" where
  "rebuild n cs = (if length cs < length (children n) then None else Some (set_children n cs))"

text \<open>A node with every child taken.\<close>

definition take_children :: "IRNode \<Rightarrow> IRNode" where
  "take_children n = set_children n (replicate (length (children n)) unit_node)"

section \<open>Laws of the slots\<close>

lemma length_1_conv: "length xs = Suc 0 \<longleftrightarrow> (\<exists>a. xs = [a])"
  by (auto simp: length_Suc_conv)

lemma length_2_conv: "length xs = Suc (Suc 0) \<longleftrightarrow> (\<exists>a b. xs = [a, b])"
  by (auto simp: length_Suc_conv)

lemma length_3_conv: "length xs = Suc (Suc (Suc 0)) \<longleftrightarrow> (\<exists>a b c. xs = [a, b, c])"
  by (auto simp: length_Suc_conv)

lemma length_4_conv: "length xs = Suc (Suc (Suc (Suc 0))) \<longleftrightarrow> (\<exists>a b c d. xs = [a, b, c, d])"
  by (auto simp: length_Suc_conv)

lemma map2_cases_snd:
  "length cases = length bs \<Longrightarrow>
   map (\<lambda>c. snd (snd c)) (map2 (\<lambda>(tag, ps, _) body. (tag, ps, body)) cases bs) = bs"
  by (induction cases bs rule: list_induct2) auto

lemma map2_cases_id:
  "map2 (\<lambda>(tag, ps, _) body. (tag, ps, body)) cases (map (\<lambda>c. snd (snd c)) cases) = cases"
  by (induction cases) auto

lemma map2_cases_map2:
  "length cases = length bs \<Longrightarrow> length bs' = length bs \<Longrightarrow>
   map2 (\<lambda>(tag, ps, _) body. (tag, ps, body))
     (map2 (\<lambda>(tag, ps, _) body. (tag, ps, body)) cases bs) bs' =
   map2 (\<lambda>(tag, ps, _) body. (tag, ps, body)) cases bs'"
proof (induction cases bs arbitrary: bs' rule: list_induct2)
  case (Cons c cases b bs)
  then show ?case by (cases bs') (auto split: prod.splits)
qed simp

lemma bitop_set_children_same [simp]: "bitop_set_children b (bitop_children b) = b"
  by (cases b) auto

lemma set_children_same [simp]: "set_children n (children n) = n"
  by (cases n) (auto simp: map2_cases_id split: option.splits)

lemma children_bitop_set [simp]:
  "length cs = length (bitop_children b) \<Longrightarrow> bitop_children (bitop_set_children b cs) = cs"
  by (cases b) (auto simp: length_1_conv length_2_conv)

lemma children_set_children [simp]:
  assumes "length cs = length (children n)"
  shows "children (set_children n cs) = cs"
proof (cases n)
  case (IRMatch s cases)
  with assms obtain c rest where "cs = c # rest" "length rest = length cases"
    by (cases cs) auto
  with IRMatch show ?thesis by (simp add: map2_cases_snd del: map_map)
qed (use assms in \<open>auto simp: length_1_conv length_2_conv length_3_conv length_4_conv
       split: option.splits\<close>)

lemma bitop_set_set [simp]:
  "length cs = length (bitop_children b) \<Longrightarrow>
   bitop_set_children (bitop_set_children b cs) ds = bitop_set_children b ds"
  by (cases b) auto

lemma set_children_set_children [simp]:
  assumes "length cs = length (children n)" "length ds = length (children n)"
  shows "set_children (set_children n cs) ds = set_children n ds"
proof (cases n)
  case (IRMatch s cases)
  with assms obtain c rest d rest' where "cs = c # rest" "length rest = length cases"
    "ds = d # rest'" "length rest' = length cases"
    by (cases cs; cases ds) auto
  with IRMatch show ?thesis by (simp add: map2_cases_map2)
qed (use assms in \<open>auto split: option.splits\<close>)

lemma take_children_same_shape:
  "length cs = length (children n) \<Longrightarrow> take_children (set_children n cs) = take_children n"
  by (simp add: take_children_def)

lemma length_children_take [simp]: "length (children (take_children n)) = length (children n)"
  by (simp add: take_children_def)

lemma rebuild_taken:
  "length cs = length (children n) \<Longrightarrow> rebuild (take_children n) cs = Some (set_children n cs)"
  by (simp add: rebuild_def take_children_def)

lemma size_bitop_children: "c \<in> set (bitop_children b) \<Longrightarrow> size c < Suc (size_BitOp size b)"
  by (cases b) auto

lemma size_match_cases:
  "(tag, bs, body) \<in> set cases \<Longrightarrow>
   size body < size_list (size_prod (\<lambda>_. 0) (size_prod (\<lambda>_. 0) size)) cases"
  by (induction cases) auto

lemma size_children [intro]: "c \<in> set (children n) \<Longrightarrow> size c < size n"
proof (cases n)
  case (IRBitOp b)
  moreover assume "c \<in> set (children n)"
  ultimately show ?thesis using size_bitop_children [of c b] by simp
next
  case (IRMatch s cases)
  moreover assume "c \<in> set (children n)"
  ultimately show ?thesis
    by (fastforce dest: size_match_cases)
qed (auto split: option.splits simp: size_list_estimation' less_Suc_eq_le)

lemma size_case_body [intro]:
  "c \<in> set cases \<Longrightarrow> size (snd (snd c)) < size (IRMatch s cases)"
  by (rule size_children) auto

lemma size_direct [intro]:
  "size v < size (IRLet p v b)" "size b < size (IRLet p v b)"
  "size c < size (IRIf c t e)" "size t < size (IRIf c t e)" "size e < size (IRIf c t e)"
  "size s < size (IRMatch s cases)"
  "size v < size (IRMutableBorrow v x r ty)" "size r < size (IRMutableBorrow v x r ty)"
  "size cb < size (IRQuantifier k cb x ty coll rng)"
  "size s < size (IRMatchOption s x sb nb)" "size sb < size (IRMatchOption s x sb nb)"
  "size nb < size (IRMatchOption s x sb nb)"
  by (auto intro: size_children)

lemma size_quantifier_args [intro]:
  "size x < size (IRQuantifier k cb pn ty (Some x) rng)"
  "size x < size (IRQuantifier k cb pn ty coll (Some (x, y)))"
  "size y < size (IRQuantifier k cb pn ty coll (Some (x, y)))"
  by (rule size_children, simp split: option.splits)+

text \<open>Induction over the children.\<close>

lemma IR_induct [case_names node]:
  assumes "\<And>n. (\<And>c. c \<in> set (children n) \<Longrightarrow> P c) \<Longrightarrow> P n"
  shows "P n"
proof (induction n rule: measure_induct_rule [where f = size])
  case (less n)
  then show ?case using assms size_children by blast
qed

end
