(* ===== verification/IRTraverse.thy ===== *)
theory IRTraverse
  imports IR
begin

text \<open>
  The traversals of \<open>impl IRNode\<close> in \<open>ir.rs\<close>: \<open>iter\<close>, \<open>map\<close>, \<open>map_top_down\<close>
  and what is built on them.  The code drives them with explicit work stacks to
  stay off the call stack; the theory models the stacks and proves that they
  compute the plain recursions, which the passes are then reasoned about with.
  A \<open>Vec\<close> used as a stack is a list whose head is the top.
\<close>

section \<open>Reference recursions\<close>

function nodes :: "IRNode \<Rightarrow> nat" where
  "nodes n = Suc (sum_list (map nodes (children n)))"
  by pat_completeness auto
termination
  by (relation "measure size") (auto intro: size_children)

declare nodes.simps [simp del]

lemma nodes_pos [simp]: "0 < nodes n"
  by (simp add: nodes.simps [of n])

function preorder :: "IRNode \<Rightarrow> IRNode list" where
  "preorder n = n # concat (map preorder (rev (children n)))"
  by pat_completeness auto
termination
  by (relation "measure size") (auto intro: size_children)

declare preorder.simps [simp del]

function map_ir :: "(IRNode \<Rightarrow> IRNode) \<Rightarrow> IRNode \<Rightarrow> IRNode" where
  "map_ir f n = f (set_children n (map (map_ir f) (children n)))"
  by pat_completeness auto
termination
  by (relation "measure (\<lambda>(_, n). size n)") (auto intro: size_children)

declare map_ir.simps [simp del]

section \<open>iter\<close>

text \<open>
  \<open>iter\<close> pops a node, records it and pushes its children: the last child is on
  top.
\<close>

function iter_loop :: "IRNode list \<Rightarrow> IRNode list \<Rightarrow> IRNode list" where
  "iter_loop [] result = result"
| "iter_loop (node # stack) result = iter_loop (rev (children node) @ stack) (result @ [node])"
  by pat_completeness auto
termination
  by (relation "measure (\<lambda>(stack, _). sum_list (map nodes stack))") (auto simp: nodes.simps)

definition iter :: "IRNode \<Rightarrow> IRNode list" where
  "iter n = iter_loop [n] []"

definition iter_children :: "IRNode \<Rightarrow> IRNode list" where
  "iter_children n = children n"

lemma iter_loop_eq: "iter_loop stack result = result @ concat (map preorder stack)"
proof (induction stack result rule: iter_loop.induct)
  case (2 node stack result)
  then show ?case by (simp add: preorder.simps [of node])
qed simp

lemma iter_eq_preorder: "iter n = preorder n"
  by (simp add: iter_def iter_loop_eq)

text \<open>The nodes of a tree, and the same set as \<open>iter\<close> sees it.\<close>

inductive subnode :: "IRNode \<Rightarrow> IRNode \<Rightarrow> bool" where
  subnode_refl: "subnode n n"
| subnode_child: "c \<in> set (children n) \<Longrightarrow> subnode m c \<Longrightarrow> subnode m n"

lemma set_preorder: "set (preorder n) = {m. subnode m n}"
proof (induction n rule: IR_induct)
  case (node n)
  have "set (preorder n) = insert n (\<Union>c\<in>set (children n). set (preorder c))"
    by (simp add: preorder.simps [of n])
  also have "\<dots> = insert n (\<Union>c\<in>set (children n). {m. subnode m c})"
    using node by auto
  also have "\<dots> = {m. subnode m n}"
    by (auto intro: subnode.intros elim: subnode.cases)
  finally show ?case .
qed

lemma set_iter: "set (iter n) = {m. subnode m n}"
  by (simp add: iter_eq_preorder set_preorder)

lemma length_preorder: "length (preorder n) = nodes n"
proof (induction n rule: IR_induct)
  case (node n)
  then have "sum_list (map (length \<circ> preorder) (children n)) = sum_list (map nodes (children n))"
    by (intro arg_cong [where f = sum_list] map_cong) auto
  then show ?case
    by (simp add: preorder.simps [of n] nodes.simps [of n] length_concat rev_map [symmetric] sum_list_rev)
qed

lemma set_iter_unfold: "set (iter n) = insert n (\<Union>c\<in>set (children n). set (iter c))"
  by (simp add: iter_eq_preorder preorder.simps [of n])

lemma iter_self [simp]: "n \<in> set (iter n)"
  by (simp add: set_iter subnode_refl)

text \<open>A property of every node of a tree.\<close>

definition all_nodes :: "(IRNode \<Rightarrow> bool) \<Rightarrow> IRNode \<Rightarrow> bool" where
  "all_nodes P n \<longleftrightarrow> (\<forall>m \<in> set (iter n). P m)"

lemma all_nodes_unfold: "all_nodes P n \<longleftrightarrow> P n \<and> (\<forall>c\<in>set (children n). all_nodes P c)"
  by (auto simp: all_nodes_def set_iter_unfold [of n])

lemma all_nodes_root: "all_nodes P n \<Longrightarrow> P n"
  using all_nodes_unfold by blast

lemma all_nodes_child: "all_nodes P n \<Longrightarrow> c \<in> set (children n) \<Longrightarrow> all_nodes P c"
  using all_nodes_unfold by blast

lemma all_nodes_set:
  "P (set_children n cs) \<Longrightarrow> length cs = length (children n) \<Longrightarrow> (\<forall>c\<in>set cs. all_nodes P c) \<Longrightarrow>
   all_nodes P (set_children n cs)"
  by (subst all_nodes_unfold) simp

section \<open>map\<close>

text \<open>
  The two kinds of work item, the work stack and the result stack of \<open>map\<close>.
  \<open>Process\<close> takes the children out, pushes the rebuild item and then the
  children, first child on top; \<open>Rebuild\<close> drains the last \<open>k\<close> results (an
  underflow of \<open>len - k\<close> panics), puts them back and applies \<open>f\<close>.
\<close>

datatype Work = Process IRNode | Rebuild IRNode nat

fun work_weight :: "Work \<Rightarrow> nat" where
  "work_weight (Process n) = 2 * nodes n"
| "work_weight (Rebuild _ _) = 1"

function map_loop :: "(IRNode \<Rightarrow> IRNode) \<Rightarrow> Work list \<Rightarrow> IRNode list \<Rightarrow> IRNode option" where
  "map_loop f [] results = (case results of [] \<Rightarrow> None | r # _ \<Rightarrow> Some r)"
| "map_loop f (Process node # work) results =
     map_loop f
       (map Process (children node) @ Rebuild (take_children node) (length (children node)) # work)
       results"
| "map_loop f (Rebuild node k # work) results =
     (if length results < k then None
      else case rebuild node (rev (take k results)) of
             None \<Rightarrow> None
           | Some node' \<Rightarrow> map_loop f work (f node' # drop k results))"
  by pat_completeness auto

lemma sum_process: "sum_list (map (work_weight \<circ> Process) ns) = 2 * sum_list (map nodes ns)"
  by (induction ns) auto

termination map_loop
  by (relation "measure (\<lambda>(_, work, _). sum_list (map work_weight work))")
    (auto simp: sum_process nodes.simps)

definition ir_map :: "(IRNode \<Rightarrow> IRNode) \<Rightarrow> IRNode \<Rightarrow> IRNode option" where
  "ir_map f n = map_loop f [Process n] []"

lemma map_loop_processes:
  assumes "\<And>n work results. n \<in> set ns \<Longrightarrow>
    map_loop f (Process n # work) results = map_loop f work (map_ir f n # results)"
  shows "map_loop f (map Process ns @ work) results =
    map_loop f work (rev (map (map_ir f) ns) @ results)"
  using assms
proof (induction ns arbitrary: results)
  case (Cons n ns)
  then show ?case by simp
qed simp

lemma map_loop_process:
  "map_loop f (Process n # work) results = map_loop f work (map_ir f n # results)"
proof (induction n arbitrary: work results rule: IR_induct)
  case (node n)
  let ?rs = "rev (map (map_ir f) (children n))"
  have "map_loop f (Process n # work) results =
      map_loop f (Rebuild (take_children n) (length (children n)) # work) (?rs @ results)"
    using map_loop_processes [of "children n" f, OF node.IH] by simp
  also have "\<dots> = map_loop f work (map_ir f n # results)"
    by (simp add: rebuild_taken map_ir.simps [of f n])
  finally show ?case .
qed

lemma ir_map_eq: "ir_map f n = Some (map_ir f n)"
  unfolding ir_map_def map_loop_process by simp

section \<open>map_direct_children, fold, extract\<close>

definition map_direct_children :: "(IRNode \<Rightarrow> IRNode) \<Rightarrow> IRNode \<Rightarrow> IRNode" where
  "map_direct_children f n = set_children n (map f (children n))"

definition ir_fold :: "'a \<Rightarrow> ('a \<Rightarrow> IRNode \<Rightarrow> 'a) \<Rightarrow> IRNode \<Rightarrow> 'a" where
  "ir_fold init f n = foldl f init (iter n)"

definition ir_extract :: "(IRNode \<Rightarrow> 'a option) \<Rightarrow> IRNode \<Rightarrow> 'a list" where
  "ir_extract g n = List.map_filter g (iter n)"

lemma set_ir_extract: "set (ir_extract g n) = {x. \<exists>m. subnode m n \<and> g m = Some x}"
  by (force simp: ir_extract_def List.map_filter_def set_iter image_iff)

lemma map_ir_direct: "map_ir f n = f (map_direct_children (map_ir f) n)"
  by (simp add: map_direct_children_def map_ir.simps [of f n])

section \<open>map_top_down\<close>

text \<open>
  Top down, \<open>f\<close> runs before the children are taken, so nothing bounds the work
  left: the loop is a partial function.  It returns for every \<open>f\<close> that does not
  grow a tree.
\<close>

partial_function (option) top_down_loop ::
  "(IRNode \<Rightarrow> IRNode) \<Rightarrow> Work list \<Rightarrow> IRNode list \<Rightarrow> IRNode option" where
  "top_down_loop f work results =
     (case work of
        [] \<Rightarrow> (case results of [] \<Rightarrow> None | r # _ \<Rightarrow> Some r)
      | Process node # work' \<Rightarrow>
          (let transformed = f node in
           top_down_loop f
             (map Process (children transformed)
                @ Rebuild (take_children transformed) (length (children transformed)) # work')
             results)
      | Rebuild node k # work' \<Rightarrow>
          (if length results < k then None
           else case rebuild node (rev (take k results)) of
                  None \<Rightarrow> None
                | Some node' \<Rightarrow> top_down_loop f work' (node' # drop k results)))"

definition map_top_down :: "(IRNode \<Rightarrow> IRNode) \<Rightarrow> IRNode \<Rightarrow> IRNode option" where
  "map_top_down f n = top_down_loop f [Process n] []"

definition shrinking :: "(IRNode \<Rightarrow> IRNode) \<Rightarrow> bool" where
  "shrinking f \<longleftrightarrow> (\<forall>n. nodes (f n) \<le> nodes n)"

lemma nodes_child: "c \<in> set (children n) \<Longrightarrow> nodes c < nodes n"
  by (simp add: nodes.simps [of n] less_Suc_eq_le sum_list_member_le)

lemma top_down_processes:
  assumes "\<And>n work results. n \<in> set ns \<Longrightarrow>
    top_down_loop f (Process n # work) results = top_down_loop f work (g n # results)"
  shows "top_down_loop f (map Process ns @ work) results =
    top_down_loop f work (rev (map g ns) @ results)"
  using assms
proof (induction ns arbitrary: results)
  case (Cons n ns)
  then show ?case by simp
qed simp

function top_down :: "(IRNode \<Rightarrow> IRNode) \<Rightarrow> IRNode \<Rightarrow> IRNode" where
  "top_down f n =
     (if nodes (f n) \<le> nodes n
      then set_children (f n) (map (top_down f) (children (f n)))
      else n)"
  by pat_completeness auto
termination
  by (relation "measure (\<lambda>(_, n). nodes n)") (auto dest: nodes_child)

declare top_down.simps [simp del]

lemma top_down_process:
  assumes "shrinking f"
  shows "top_down_loop f (Process n # work) results = top_down_loop f work (top_down f n # results)"
proof (induction n arbitrary: work results rule: measure_induct_rule [where f = nodes])
  case (less n)
  have le: "nodes (f n) \<le> nodes n"
    using assms by (simp add: shrinking_def)
  have child: "nodes c < nodes n" if "c \<in> set (children (f n))" for c
    using nodes_child [OF that] le by simp
  let ?rs = "rev (map (top_down f) (children (f n)))"
  have "top_down_loop f (Process n # work) results =
      top_down_loop f (Rebuild (take_children (f n)) (length (children (f n))) # work) (?rs @ results)"
    using top_down_processes [of "children (f n)" f "top_down f", OF less.IH [OF child]]
    by (subst top_down_loop.simps) (simp add: Let_def)
  also have "\<dots> = top_down_loop f work (top_down f n # results)"
    by (subst top_down_loop.simps) (simp add: rebuild_taken top_down.simps [of f n] le)
  finally show ?case .
qed

lemma map_top_down_eq: "shrinking f \<Longrightarrow> map_top_down f n = Some (top_down f n)"
  by (simp add: map_top_down_def top_down_process) (subst top_down_loop.simps, simp)

section \<open>References to functions, structs and variables\<close>

definition calls :: "IRNode \<Rightarrow> FunctionID list" where
  "calls n = List.map_filter (\<lambda>m. case m of IRCall f _ _ \<Rightarrow> Some f | _ \<Rightarrow> None) (iter n)"

definition iter_struct_references :: "IRNode \<Rightarrow> StructID list" where
  "iter_struct_references n = List.map_filter
     (\<lambda>m. case m of
            IRPack s _ _ _ \<Rightarrow> Some s
          | IRUnpack s _ _ \<Rightarrow> Some s
          | IRField s _ _ \<Rightarrow> Some s
          | IRUpdateField _ s _ _ \<Rightarrow> Some s
          | _ \<Rightarrow> None) (iter n)"

definition iter_type_struct_ids :: "IRNode \<Rightarrow> StructID list" where
  "iter_type_struct_ids n = concat (map struct_ids (concat (List.map_filter
     (\<lambda>m. case m of
            IRPack _ ts _ _ \<Rightarrow> Some ts
          | IRCall _ ts _ \<Rightarrow> Some ts
          | _ \<Rightarrow> None) (iter n))))"

fun extract_top_level_vars :: "IRNode \<Rightarrow> TempId list" where
  "extract_top_level_vars (IRVar x) = [x]"
| "extract_top_level_vars (IRTuple elems) = concat (map extract_top_level_vars elems)"
| "extract_top_level_vars _ = []"

section \<open>Normal forms\<close>

text \<open>
  The contract of a bottom-up pass that leaves nothing to do: on a node whose
  children the step no longer changes, the step yields a tree it no longer
  changes anywhere.  Then one pass reaches the normal form and a second pass is
  the identity.
\<close>

definition normal_form :: "(IRNode \<Rightarrow> IRNode) \<Rightarrow> IRNode \<Rightarrow> bool" where
  "normal_form step n \<longleftrightarrow> all_nodes (\<lambda>m. step m = m) n"

lemma normal_form_unfold:
  "normal_form step n \<longleftrightarrow> step n = n \<and> (\<forall>c\<in>set (children n). normal_form step c)"
  unfolding normal_form_def by (rule all_nodes_unfold)

lemma normal_form_map: "normal_form step n \<Longrightarrow> map_ir step n = n"
proof (induction n rule: IR_induct)
  case (node n)
  have s: "step n = n" and c: "\<forall>c\<in>set (children n). normal_form step c"
    using node.prems normal_form_unfold by blast+
  then have "map (map_ir step) (children n) = children n"
    using node.IH by (simp add: map_idI)
  then show ?case using s by (subst map_ir.simps) simp
qed

locale normalising =
  fixes step :: "IRNode \<Rightarrow> IRNode"
  assumes normal_step: "(\<forall>c\<in>set (children n). normal_form step c) \<Longrightarrow> normal_form step (step n)"
begin

lemma map_ir_normal: "normal_form step (map_ir step n)"
proof (induction n rule: IR_induct)
  case (node n)
  then show ?case by (subst map_ir.simps) (rule normal_step, simp)
qed

lemma map_idem: "ir_map step n = Some m \<Longrightarrow> ir_map step m = Some m"
  using map_ir_normal normal_form_map by (auto simp: ir_map_eq)

end

section \<open>Properties\<close>

text \<open>C13: the work stack of \<open>map\<close> ends without a panic and computes the bottom-up recursion.\<close>

theorem map_stack_correct: "ir_map f n = Some (map_ir f n)"
  by (rule ir_map_eq)

text \<open>C14: \<open>iter\<close> visits exactly the subtrees of the node, each occurrence once.\<close>

theorem iter_visits_subtrees: "set (iter n) = {m. subnode m n} \<and> length (iter n) = nodes n"
  by (simp add: set_preorder iter_eq_preorder length_preorder)

end
