(* ===== verification/IRScope.thy ===== *)
theory IRScope
  imports IRTraverse
begin

text \<open>
  Variables of an IR tree (\<open>ir.rs\<close>): the collectors \<open>used_vars\<close>, \<open>free_vars\<close>,
  \<open>bindings\<close>, \<open>early_bindings\<close> and their kin, the renaming \<open>substitute_vars\<close>
  and the sequencing \<open>assign\<close>.
\<close>

section \<open>Names read and names bound\<close>

text \<open>\<open>used_vars\<close> collects the names of \<open>MutableBorrow\<close> parameters first and skips them.\<close>

definition binder_params :: "IRNode \<Rightarrow> TempId list" where
  "binder_params n = List.map_filter
     (\<lambda>m. case m of IRMutableBorrow _ p _ _ \<Rightarrow> Some p | _ \<Rightarrow> None) (iter n)"

definition used_vars :: "IRNode \<Rightarrow> TempId list" where
  "used_vars n = concat (map
     (\<lambda>m. case m of
            IRVar x \<Rightarrow> (if x \<in> set (binder_params n) then [] else [x])
          | IRWriteBack c p _ \<Rightarrow> [c, p]
          | IRMutableCompose i out \<Rightarrow> [i, out]
          | _ \<Rightarrow> []) (iter n))"

definition defined_vars :: "IRNode \<Rightarrow> TempId list" where
  "defined_vars n = concat (map (\<lambda>m. case m of IRLet p _ _ \<Rightarrow> p | _ \<Rightarrow> []) (iter n))"

text \<open>The loop of \<open>sequential_bindings\<close> walks the \<open>body\<close> spine of a chain of lets.\<close>

fun sequential_loop :: "IRNode \<Rightarrow> TempId set \<Rightarrow> TempId set" where
  "sequential_loop (IRLet p v b) result = sequential_loop b (result \<union> {x \<in> set p. x \<noteq> ''_''})"
| "sequential_loop _ result = result"

definition sequential_bindings :: "IRNode \<Rightarrow> TempId set" where
  "sequential_bindings n = sequential_loop n {}"

function (sequential) collect_all_var_refs :: "IRNode \<Rightarrow> TempId set \<Rightarrow> TempId set" where
  "collect_all_var_refs (IRVar name) refs = insert name refs"
| "collect_all_var_refs n refs = fold (\<lambda>c acc. collect_all_var_refs c acc) (children n) refs"
  by pat_completeness auto
termination
  by (relation "measure (\<lambda>(n, _). size n)")
    (auto simp del: children.simps IRNode.size intro: size_children)

definition all_var_refs :: "IRNode \<Rightarrow> TempId set" where
  "all_var_refs n = collect_all_var_refs n {}"

function (sequential) collect_bindings :: "IRNode \<Rightarrow> TempId set \<Rightarrow> TempId set" where
  "collect_bindings (IRLet p v b) bs =
     collect_bindings b (collect_bindings v (bs \<union> {x \<in> set p. x \<noteq> ''_''}))"
| "collect_bindings (IRMatch s cases) bs =
     fold (\<lambda>c acc. collect_bindings (snd (snd c)) (acc \<union> {x \<in> set (fst (snd c)). x \<noteq> ''_''}))
       cases (collect_bindings s bs)"
| "collect_bindings (IRMutableBorrow v _ r _) bs = collect_bindings r (collect_bindings v bs)"
| "collect_bindings (IRIf c t e) bs = collect_bindings e (collect_bindings t (collect_bindings c bs))"
| "collect_bindings n bs = fold (\<lambda>c acc. collect_bindings c acc) (children n) bs"
  by pat_completeness auto
termination
  by (relation "measure (\<lambda>(n, _). size n)")
    (auto simp del: children.simps IRNode.size intro: size_children size_case_body size_direct)

definition bindings :: "IRNode \<Rightarrow> TempId set" where
  "bindings n = collect_bindings n {}"

section \<open>early_bindings\<close>

text \<open>
  \<open>collect_early_bindings\<close> returns whether the collection goes on, and the set it
  has grown.  It needs \<open>free_vars\<close>, so that comes first.
\<close>

subsection \<open>free_vars\<close>

text \<open>
  \<open>collect_free_vars\<close> threads the two sets \<open>free\<close> and \<open>bound\<close>.  The arms that
  only visit the children in order (\<open>Call\<close>, \<open>BinOp\<close>, \<open>UnOp\<close>, \<open>Tuple\<close>, \<open>Pack\<close>,
  \<open>Field\<close>, \<open>Unpack\<close>, \<open>UpdateField\<close>, \<open>UpdateVec\<close>, \<open>ReadRef\<close>, \<open>WriteRef\<close>, \<open>BitOp\<close>,
  \<open>ToProp\<close>, \<open>ToBool\<close>, \<open>OptionSome\<close>, \<open>Abort\<close>, \<open>MoveAbortValue\<close>,
  \<open>ArithOverflowCheck\<close> and the leaves) are the last equation.
\<close>

type_synonym fv_state = "TempId set \<times> TempId set"

definition read_name :: "TempId \<Rightarrow> fv_state \<Rightarrow> fv_state" where
  "read_name x st = (if x \<in> snd st then fst st else insert x (fst st), snd st)"

text \<open>A binder is in scope for one child and is removed after it unless it was bound before.\<close>

definition bind_name :: "TempId \<Rightarrow> fv_state \<Rightarrow> fv_state" where
  "bind_name p st = (fst st, insert p (snd st))"

definition unbind_name :: "TempId \<Rightarrow> fv_state \<Rightarrow> fv_state \<Rightarrow> fv_state" where
  "unbind_name p before st = (fst st, if p \<in> snd before then snd st else snd st - {p})"

function (sequential) collect_free_vars :: "IRNode \<Rightarrow> fv_state \<Rightarrow> fv_state" where
  "collect_free_vars (IRVar name) st = read_name name st"
| "collect_free_vars (IRLet pattern v b) st =
     (let st1 = collect_free_vars v st
      in collect_free_vars b (fst st1, snd st1 \<union> set pattern))"
| "collect_free_vars (IRMutableBorrow v p r ty) st =
     (let st1 = collect_free_vars v st
      in unbind_name p st1 (collect_free_vars r (bind_name p st1)))"
| "collect_free_vars (IRIf c t e) st =
     (let st1 = collect_free_vars c st;
          st2 = collect_free_vars t st1;
          st3 = collect_free_vars e (fst st2, snd st1)
      in (fst st3, snd st1 \<union> {x \<in> snd st2 \<inter> snd st3. x \<notin> snd st1}))"
| "collect_free_vars (IRMatch s cases) st =
     (let st1 = collect_free_vars s st;
          r = fold (\<lambda>c acc. let st2 = collect_free_vars (snd (snd c))
                                       (fst acc, snd st1 \<union> set (fst (snd c)))
                            in (fst st2, snd acc @ [snd st2 - set (fst (snd c))]))
                cases (fst st1, [])
      in (fst r, case snd r of
                   [] \<Rightarrow> snd st1
                 | cb # cbs \<Rightarrow> snd st1 \<union> {x \<in> fold (\<lambda>c common. common \<inter> c) cbs cb. x \<notin> snd st1}))"
| "collect_free_vars (IRQuantifier k cb p ty coll rng) st =
     fold (\<lambda>c acc. collect_free_vars c acc)
       ((case coll of None \<Rightarrow> [] | Some c \<Rightarrow> [c]) @ (case rng of None \<Rightarrow> [] | Some (s, e) \<Rightarrow> [s, e]))
       (unbind_name p st (collect_free_vars cb (bind_name p st)))"
| "collect_free_vars (IRMatchOption s b sb nb) st =
     (let st1 = collect_free_vars s st
      in collect_free_vars nb (unbind_name b st1 (collect_free_vars sb (bind_name b st1))))"
| "collect_free_vars (IRWriteBack c p e) st = read_name p (read_name c st)"
| "collect_free_vars (IRMutableCompose i out) st = read_name out (read_name i st)"
| "collect_free_vars n st = fold (\<lambda>c acc. collect_free_vars c acc) (children n) st"
  by pat_completeness auto
termination
  by (relation "measure (\<lambda>(n, _). size n)")
    (auto simp del: children.simps IRNode.size intro: size_children size_case_body size_direct
      split: option.splits)

definition free_vars :: "IRNode \<Rightarrow> TempId set" where
  "free_vars n = fst (collect_free_vars n ({}, {}))"

subsection \<open>early_bindings\<close>

fun collect_early_bindings :: "TempId set \<Rightarrow> IRNode \<Rightarrow> TempId set \<Rightarrow> bool \<times> TempId set" where
  "collect_early_bindings params (IRLet pattern v b) early =
     (if pattern \<noteq> [] then
        (if \<exists>x \<in> free_vars v. x \<notin> params \<and> x \<notin> early \<and> x \<notin> set pattern
         then (False, early)
         else collect_early_bindings params b
                (early \<union> {x \<in> set pattern. x \<noteq> ''_'' \<and> x \<notin> params}))
      else
        (let r = collect_early_bindings params v early
         in if fst r then collect_early_bindings params b (snd r) else (False, snd r)))"
| "collect_early_bindings params (IRTuple elems) early = (elems = [], early)"
| "collect_early_bindings params (IRConst _) early = (True, early)"
| "collect_early_bindings params _ early = (False, early)"

definition early_bindings :: "TempId set \<Rightarrow> IRNode \<Rightarrow> TempId set" where
  "early_bindings params n = snd (collect_early_bindings params n {})"

section \<open>substitute_vars\<close>

text \<open>Only \<open>Var\<close> nodes and \<open>Let\<close> patterns are renamed.\<close>

fun substitute_node :: "(TempId \<rightharpoonup> TempId) \<Rightarrow> IRNode \<Rightarrow> IRNode" where
  "substitute_node subs (IRVar x) = IRVar (map_or_self subs x)"
| "substitute_node subs (IRLet p v b) = IRLet (map (map_or_self subs) p) v b"
| "substitute_node subs n = n"

definition substitute_vars :: "(TempId \<rightharpoonup> TempId) \<Rightarrow> IRNode \<Rightarrow> IRNode option" where
  "substitute_vars subs n = ir_map (substitute_node subs) n"

section \<open>assign\<close>

fun append_at_tail :: "IRNode \<Rightarrow> IRNode \<Rightarrow> IRNode" where
  "append_at_tail (IRLet p v b) tail =
     (if b = IRTuple [] then IRLet p v tail else IRLet p v (append_at_tail b tail))"
| "append_at_tail other tail = IRLet [] other tail"

definition assign :: "IRNode \<Rightarrow> IRNode \<Rightarrow> IRNode" where
  "assign first second =
     (if first = IRTuple [] then second
      else if second = IRTuple [] then first
      else append_at_tail first second)"

section \<open>Binders and lexical free variables\<close>

text \<open>
  The reference notion of scope: what a node binds, the names bound anywhere in
  a tree, and the free variables when every binder scopes over exactly the child
  it belongs to.
\<close>

fun local_binders :: "IRNode \<Rightarrow> TempId set" where
  "local_binders (IRLet p _ _) = set p"
| "local_binders (IRMatch _ cases) = (\<Union>c\<in>set cases. set (fst (snd c)))"
| "local_binders (IRMutableBorrow _ p _ _) = {p}"
| "local_binders (IRQuantifier _ _ p _ _ _) = {p}"
| "local_binders (IRMatchOption _ b _ _) = {b}"
| "local_binders _ = {}"

definition all_binders :: "IRNode \<Rightarrow> TempId set" where
  "all_binders n = (\<Union>m\<in>set (iter n). local_binders m)"

lemma all_binders_unfold:
  "all_binders n = local_binders n \<union> (\<Union>c\<in>set (children n). all_binders c)"
  by (auto simp: all_binders_def set_iter_unfold [of n])

function (sequential) lex_free :: "IRNode \<Rightarrow> TempId set" where
  "lex_free (IRVar x) = {x}"
| "lex_free (IRLet p v b) = lex_free v \<union> (lex_free b - set p)"
| "lex_free (IRMutableBorrow v p r _) = lex_free v \<union> (lex_free r - {p})"
| "lex_free (IRMatch s cases) =
     lex_free s \<union> (\<Union>c\<in>set cases. lex_free (snd (snd c)) - set (fst (snd c)))"
| "lex_free (IRQuantifier k cb p ty coll rng) =
     (lex_free cb - {p})
     \<union> (case coll of None \<Rightarrow> {} | Some c \<Rightarrow> lex_free c)
     \<union> (case rng of None \<Rightarrow> {} | Some (s, e) \<Rightarrow> lex_free s \<union> lex_free e)"
| "lex_free (IRMatchOption s b sb nb) = lex_free s \<union> (lex_free sb - {b}) \<union> lex_free nb"
| "lex_free (IRWriteBack c p _) = {c, p}"
| "lex_free (IRMutableCompose i out) = {i, out}"
| "lex_free n = (\<Union>c\<in>set (children n). lex_free c)"
  by pat_completeness auto
termination
  by (relation "measure size")
    (auto simp del: children.simps IRNode.size
      intro: size_children size_case_body size_direct size_quantifier_args)

text \<open>The names a node reads by itself, and those read anywhere in a tree.\<close>

fun node_reads :: "IRNode \<Rightarrow> TempId set" where
  "node_reads (IRVar x) = {x}"
| "node_reads (IRWriteBack c p _) = {c, p}"
| "node_reads (IRMutableCompose i out) = {i, out}"
| "node_reads _ = {}"

lemma node_reads_set [simp]: "node_reads (set_children n cs) = node_reads n"
  by (cases n) auto

definition names_read :: "IRNode \<Rightarrow> TempId set" where
  "names_read n = (\<Union>m\<in>set (iter n). node_reads m)"

lemma names_read_unfold: "names_read n = node_reads n \<union> (\<Union>c\<in>set (children n). names_read c)"
  by (auto simp: names_read_def set_iter_unfold [of n])

lemma lex_free_step: "lex_free n \<subseteq> node_reads n \<union> (\<Union>c\<in>set (children n). lex_free c)"
  by (cases n) (auto split: option.splits)

lemma lex_free_names_read: "lex_free n \<subseteq> names_read n"
proof (induction n rule: IR_induct)
  case (node n)
  then show ?case using lex_free_step [of n] names_read_unfold [of n] by blast
qed

lemma set_used_vars:
  "set (used_vars n) = (\<Union>m\<in>set (iter n). {x \<in> node_reads m. m = IRVar x \<longrightarrow> x \<notin> set (binder_params n)})"
proof -
  have "set (case m of
            IRVar x \<Rightarrow> (if x \<in> set (binder_params n) then [] else [x])
          | IRWriteBack c p _ \<Rightarrow> [c, p]
          | IRMutableCompose i out \<Rightarrow> [i, out]
          | _ \<Rightarrow> []) = {x \<in> node_reads m. m = IRVar x \<longrightarrow> x \<notin> set (binder_params n)}" for m
    by (cases m) auto
  then show ?thesis by (simp add: used_vars_def)
qed

lemma names_read_used: "names_read n \<subseteq> set (used_vars n) \<union> set (binder_params n)"
  by (auto simp: names_read_def set_used_vars)

subsection \<open>free_vars against the lexical notion\<close>

text \<open>
  One invariant of \<open>collect_free_vars\<close> in each direction, each first for a fold
  over a list of nodes that satisfy it.
\<close>

definition fv_sound :: "IRNode \<Rightarrow> bool" where
  "fv_sound n \<longleftrightarrow> (\<forall>st. fst st \<subseteq> fst (collect_free_vars n st)
     \<and> fst (collect_free_vars n st) \<subseteq> fst st \<union> (lex_free n - snd st)
     \<and> snd st \<subseteq> snd (collect_free_vars n st))"

definition fv_exact :: "TempId \<Rightarrow> IRNode \<Rightarrow> bool" where
  "fv_exact x n \<longleftrightarrow> (\<forall>st.
     (x \<in> fst (collect_free_vars n st) \<longleftrightarrow> x \<in> fst st \<or> x \<in> lex_free n \<and> x \<notin> snd st)
     \<and> (x \<in> snd (collect_free_vars n st) \<longleftrightarrow> x \<in> snd st))"

lemma fv_soundD:
  assumes "fv_sound n"
  shows "x \<in> fst st \<Longrightarrow> x \<in> fst (collect_free_vars n st)"
    and "x \<in> fst (collect_free_vars n st) \<Longrightarrow> x \<in> fst st \<or> x \<in> lex_free n \<and> x \<notin> snd st"
    and "x \<in> snd st \<Longrightarrow> x \<in> snd (collect_free_vars n st)"
  using assms unfolding fv_sound_def by blast+

lemma fv_soundI:
  assumes "\<And>st x. x \<in> fst st \<Longrightarrow> x \<in> fst (collect_free_vars n st)"
    and "\<And>st x. x \<in> fst (collect_free_vars n st) \<Longrightarrow> x \<in> fst st \<or> x \<in> lex_free n \<and> x \<notin> snd st"
    and "\<And>st x. x \<in> snd st \<Longrightarrow> x \<in> snd (collect_free_vars n st)"
  shows "fv_sound n"
  unfolding fv_sound_def using assms by blast

lemma fv_exactD:
  assumes "fv_exact x n"
  shows "x \<in> fst (collect_free_vars n st) \<longleftrightarrow> x \<in> fst st \<or> x \<in> lex_free n \<and> x \<notin> snd st"
    and "x \<in> snd (collect_free_vars n st) \<longleftrightarrow> x \<in> snd st"
  using assms unfolding fv_exact_def by blast+

lemma fold_fv_sound:
  assumes "\<And>c. c \<in> set cs \<Longrightarrow> fv_sound c"
  shows "fst st \<subseteq> fst (fold (\<lambda>c acc. collect_free_vars c acc) cs st)
    \<and> fst (fold (\<lambda>c acc. collect_free_vars c acc) cs st) \<subseteq>
       fst st \<union> ((\<Union>c\<in>set cs. lex_free c) - snd st)
    \<and> snd st \<subseteq> snd (fold (\<lambda>c acc. collect_free_vars c acc) cs st)"
  using assms
proof (induction cs arbitrary: st)
  case (Cons c cs)
  have "fv_sound c" by (simp add: Cons.prems)
  note c = fv_soundD [OF this]
  have "\<And>d. d \<in> set cs \<Longrightarrow> fv_sound d" by (simp add: Cons.prems)
  note IH = Cons.IH [OF this, of "collect_free_vars c st"]
  show ?case
  proof (intro conjI subsetI)
    fix x
    show "x \<in> fst st \<Longrightarrow> x \<in> fst (fold collect_free_vars (c # cs) st)"
      using c(1) [of x st] IH by auto
    show "x \<in> snd st \<Longrightarrow> x \<in> snd (fold collect_free_vars (c # cs) st)"
      using c(3) [of x st] IH by auto
    assume "x \<in> fst (fold collect_free_vars (c # cs) st)"
    then have "x \<in> fst (collect_free_vars c st)
        \<or> x \<in> (\<Union>c\<in>set cs. lex_free c) \<and> x \<notin> snd (collect_free_vars c st)"
      using IH by auto
    then show "x \<in> fst st \<union> ((\<Union>c\<in>set (c # cs). lex_free c) - snd st)"
      using c(2) [of x st] c(3) [of x st] by auto
  qed
qed simp

lemma fold_fv_exact:
  assumes "\<And>c. c \<in> set cs \<Longrightarrow> fv_exact x c"
  shows "(x \<in> fst (fold (\<lambda>c acc. collect_free_vars c acc) cs st) \<longleftrightarrow>
      x \<in> fst st \<or> x \<in> (\<Union>c\<in>set cs. lex_free c) \<and> x \<notin> snd st)
    \<and> (x \<in> snd (fold (\<lambda>c acc. collect_free_vars c acc) cs st) \<longleftrightarrow> x \<in> snd st)"
  using assms
proof (induction cs arbitrary: st)
  case (Cons c cs)
  have "fv_exact x c" by (simp add: Cons.prems)
  note c = fv_exactD [OF this]
  have "\<And>d. d \<in> set cs \<Longrightarrow> fv_exact x d" by (simp add: Cons.prems)
  note IH = Cons.IH [OF this, of "collect_free_vars c st"]
  from IH show ?case by (auto simp: c)
qed simp


lemma match_fold_sound:
  assumes "\<And>c. c \<in> set cases \<Longrightarrow> fv_sound (snd (snd c))"
  shows "fst acc \<subseteq> fst (fold (\<lambda>c acc. let st2 = collect_free_vars (snd (snd c))
                                  (fst acc, B \<union> set (fst (snd c)))
                            in (fst st2, snd acc @ [snd st2 - set (fst (snd c))])) cases acc)
    \<and> fst (fold (\<lambda>c acc. let st2 = collect_free_vars (snd (snd c))
                                  (fst acc, B \<union> set (fst (snd c)))
                            in (fst st2, snd acc @ [snd st2 - set (fst (snd c))])) cases acc)
      \<subseteq> fst acc \<union> ((\<Union>c\<in>set cases. lex_free (snd (snd c)) - set (fst (snd c))) - B)"
  using assms
proof (induction cases arbitrary: acc)
  case (Cons c cases)
  obtain tag bs body where c: "c = (tag, bs, body)" by (cases c)
  let ?st = "(fst acc, B \<union> set bs)"
  have "fv_sound body" using Cons.prems [of c] by (simp add: c)
  note body = fv_soundD [OF this, of _ ?st]
  have "\<And>d. d \<in> set cases \<Longrightarrow> fv_sound (snd (snd d))" by (simp add: Cons.prems)
  note IH = Cons.IH [OF this,
    of "(fst (collect_free_vars body ?st), snd acc @ [snd (collect_free_vars body ?st) - set bs])"]
  show ?case
  proof (intro conjI subsetI, goal_cases)
    case (1 x)
    then show ?case using IH body(1) [of x] by (auto simp: c Let_def)
  next
    case (2 x)
    then have "x \<in> fst (collect_free_vars body ?st)
      \<or> x \<in> (\<Union>c\<in>set cases. lex_free (snd (snd c)) - set (fst (snd c))) \<and> x \<notin> B"
      using IH by (auto simp: c Let_def)
    then show ?case using body(2) [of x] by (auto simp: c)
  qed
qed simp

lemma match_fold_exact:
  assumes "\<And>c. c \<in> set cases \<Longrightarrow> fv_exact x (snd (snd c)) \<and> x \<notin> set (fst (snd c))"
  shows "(x \<in> fst (fold (\<lambda>c acc. let st2 = collect_free_vars (snd (snd c))
                                  (fst acc, B \<union> set (fst (snd c)))
                            in (fst st2, snd acc @ [snd st2 - set (fst (snd c))])) cases acc)
      \<longleftrightarrow> x \<in> fst acc \<or> x \<in> (\<Union>c\<in>set cases. lex_free (snd (snd c)) - set (fst (snd c))) \<and> x \<notin> B)
    \<and> (\<exists>cbs. snd (fold (\<lambda>c acc. let st2 = collect_free_vars (snd (snd c))
                                  (fst acc, B \<union> set (fst (snd c)))
                            in (fst st2, snd acc @ [snd st2 - set (fst (snd c))])) cases acc)
          = snd acc @ cbs \<and> (\<forall>cb\<in>set cbs. x \<in> cb \<longleftrightarrow> x \<in> B))"
  using assms
proof (induction cases arbitrary: acc)
  case (Cons c cases)
  obtain tag bs body where c: "c = (tag, bs, body)" by (cases c)
  let ?st = "(fst acc, B \<union> set bs)"
  have body: "fv_exact x body" and xbs: "x \<notin> set bs"
    using Cons.prems [of c] by (auto simp: c)
  note body = fv_exactD [OF body, of ?st]
  have "\<And>d. d \<in> set cases \<Longrightarrow> fv_exact x (snd (snd d)) \<and> x \<notin> set (fst (snd d))"
    by (simp add: Cons.prems)
  note IH = Cons.IH [OF this,
    of "(fst (collect_free_vars body ?st), snd acc @ [snd (collect_free_vars body ?st) - set bs])"]
  show ?case
  proof (rule conjI, goal_cases)
    case 1
    show ?case using IH body(1) xbs by (auto simp: c Let_def)
  next
    case 2
    from IH obtain cbs where
      "snd (fold (\<lambda>c acc. let st2 = collect_free_vars (snd (snd c))
                                  (fst acc, B \<union> set (fst (snd c)))
                            in (fst st2, snd acc @ [snd st2 - set (fst (snd c))])) (c # cases) acc)
          = snd acc @ (snd (collect_free_vars body ?st) - set bs) # cbs"
      "\<forall>cb\<in>set cbs. x \<in> cb \<longleftrightarrow> x \<in> B"
      by (auto simp: c Let_def)
    then show ?case using body(2) xbs
      by (intro exI [of _ "(snd (collect_free_vars body ?st) - set bs) # cbs"]) auto
  qed
qed simp

lemma fold_inter_mem: "x \<in> fold (\<lambda>c common. common \<inter> c) cbs cb \<longleftrightarrow> x \<in> cb \<and> (\<forall>c\<in>set cbs. x \<in> c)"
  by (induction cbs arbitrary: cb) auto

lemma read_name_simps [simp]:
  "fst (read_name x st) = (if x \<in> snd st then fst st else insert x (fst st))"
  "snd (read_name x st) = snd st"
  by (auto simp: read_name_def)

lemma bind_name_simps [simp]:
  "fst (bind_name x st) = fst st" "snd (bind_name x st) = insert x (snd st)"
  by (auto simp: bind_name_def)

lemma unbind_name_simps [simp]:
  "fst (unbind_name x b st) = fst st"
  "snd (unbind_name x b st) = (if x \<in> snd b then snd st else snd st - {x})"
  by (auto simp: unbind_name_def)


text \<open>The nodes whose arm of \<open>collect_free_vars\<close> is not the visit of the children in order.\<close>

fun scoping :: "IRNode \<Rightarrow> bool" where
  "scoping (IRVar _) = True"
| "scoping (IRLet _ _ _) = True"
| "scoping (IRMutableBorrow _ _ _ _) = True"
| "scoping (IRIf _ _ _) = True"
| "scoping (IRMatch _ _) = True"
| "scoping (IRQuantifier _ _ _ _ _ _) = True"
| "scoping (IRMatchOption _ _ _ _) = True"
| "scoping (IRWriteBack _ _ _) = True"
| "scoping (IRMutableCompose _ _) = True"
| "scoping _ = False"

lemma not_scoping:
  assumes "\<not> scoping n"
  shows "collect_free_vars n st = fold (\<lambda>c acc. collect_free_vars c acc) (children n) st"
    and "lex_free n = (\<Union>c\<in>set (children n). lex_free c)"
    and "local_binders n = {}"
  using assms by (cases n; simp)+

lemma fv_soundS:
  "fv_sound n \<Longrightarrow> fst st \<subseteq> fst (collect_free_vars n st)
     \<and> fst (collect_free_vars n st) \<subseteq> fst st \<union> (lex_free n - snd st)
     \<and> snd st \<subseteq> snd (collect_free_vars n st)"
  by (simp only: fv_sound_def)

lemma all_fv_sound: "fv_sound n"
proof (induction n rule: IR_induct)
  case (node n)
  show ?case
  proof (cases "scoping n")
    case False
    then show ?thesis
      unfolding fv_sound_def not_scoping [OF False]
      using fold_fv_sound [of "children n"] node by blast
  next
    case True
    show ?thesis unfolding fv_sound_def
    proof (intro allI)
      fix st :: fv_state
      let ?S = "\<lambda>n. fst st \<subseteq> fst (collect_free_vars n st)
        \<and> fst (collect_free_vars n st) \<subseteq> fst st \<union> (lex_free n - snd st)
        \<and> snd st \<subseteq> snd (collect_free_vars n st)"
      show "?S n"
      proof (cases n)
        case (IRLet p v b)
        let ?s1 = "collect_free_vars v st"
        have "fv_sound v" "fv_sound b" using node IRLet by auto
        note v = fv_soundS [OF this(1), of st]
          and b = fv_soundS [OF this(2), of "(fst ?s1, snd ?s1 \<union> set p)"]
        show ?thesis unfolding IRLet using v b by (simp add: Let_def) blast
      next
        case (IRMutableBorrow v p r ty)
        let ?s1 = "collect_free_vars v st"
        have "fv_sound v" "fv_sound r" using node IRMutableBorrow by auto
        note v = fv_soundS [OF this(1), of st] and r = fv_soundS [OF this(2), of "bind_name p ?s1"]
        show ?thesis unfolding IRMutableBorrow using v r by (simp add: Let_def) blast
      next
        case (IRIf c t e)
        let ?s1 = "collect_free_vars c st"
        let ?s2 = "collect_free_vars t ?s1"
        have "fv_sound c" "fv_sound t" "fv_sound e" using node IRIf by auto
        note c = fv_soundS [OF this(1), of st] and t = fv_soundS [OF this(2), of ?s1]
          and e = fv_soundS [OF this(3), of "(fst ?s2, snd ?s1)"]
        show ?thesis unfolding IRIf using c t e by (simp add: Let_def) blast
      next
        case (IRMatch s cases)
        let ?s1 = "collect_free_vars s st"
        have "fv_sound s" using node IRMatch by auto
        note s = fv_soundS [OF this, of st]
        have cs: "fv_sound (snd (snd c))" if "c \<in> set cases" for c
          using that by (intro node) (simp add: IRMatch)
        note m = match_fold_sound [OF cs, of cases "(fst ?s1, [])" "snd ?s1"]
        show ?thesis unfolding IRMatch using s m by (simp add: Let_def split: list.split) blast
      next
        case (IRQuantifier k cb p ty coll rng)
        let ?cs = "(case coll of None \<Rightarrow> [] | Some c \<Rightarrow> [c]) @ (case rng of None \<Rightarrow> [] | Some (s, e) \<Rightarrow> [s, e])"
        let ?s1 = "unbind_name p st (collect_free_vars cb (bind_name p st))"
        have "fv_sound cb" using node IRQuantifier by auto
        note cb = fv_soundS [OF this, of "bind_name p st"]
        have "\<And>c. c \<in> set ?cs \<Longrightarrow> fv_sound c" using node IRQuantifier by force
        note m = fold_fv_sound [OF this, of ?cs ?s1]
        have lf: "lex_free n = (lex_free cb - {p}) \<union> (\<Union>c\<in>set ?cs. lex_free c)"
          unfolding IRQuantifier by (auto split: option.splits)
        have cf: "collect_free_vars n st = fold (\<lambda>c acc. collect_free_vars c acc) ?cs ?s1"
          unfolding IRQuantifier by simp
        have u: "fst ?s1 = fst (collect_free_vars cb (bind_name p st))" "snd st \<subseteq> snd ?s1"
          using cb by auto
        show ?thesis unfolding lf cf using cb m u by (simp only: bind_name_simps) blast
      next
        case (IRMatchOption s b sb nb)
        let ?s1 = "collect_free_vars s st"
        let ?s2 = "collect_free_vars sb (bind_name b ?s1)"
        have "fv_sound s" "fv_sound sb" "fv_sound nb" using node IRMatchOption by auto
        note s = fv_soundS [OF this(1), of st] and sb = fv_soundS [OF this(2), of "bind_name b ?s1"]
          and nb = fv_soundS [OF this(3), of "unbind_name b ?s1 ?s2"]
        show ?thesis unfolding IRMatchOption using s sb nb
          by (simp add: Let_def split: if_splits) blast+
      qed (use True in auto)
    qed
  qed
qed

lemma fv_exactS:
  "fv_exact x n \<Longrightarrow> (x \<in> fst (collect_free_vars n st) \<longleftrightarrow> x \<in> fst st \<or> x \<in> lex_free n \<and> x \<notin> snd st)
     \<and> (x \<in> snd (collect_free_vars n st) \<longleftrightarrow> x \<in> snd st)"
  by (simp only: fv_exact_def)

lemma all_fv_exact: "x \<notin> all_binders n \<Longrightarrow> fv_exact x n"
proof (induction n rule: IR_induct)
  case (node n)
  from node.prems have loc: "x \<notin> local_binders n"
    and IH: "c \<in> set (children n) \<Longrightarrow> fv_exact x c" for c
    using node.IH by (auto simp: all_binders_unfold [of n])
  show ?case unfolding fv_exact_def
  proof (intro allI)
    fix st :: fv_state
    show "(x \<in> fst (collect_free_vars n st) \<longleftrightarrow> x \<in> fst st \<or> x \<in> lex_free n \<and> x \<notin> snd st)
        \<and> (x \<in> snd (collect_free_vars n st) \<longleftrightarrow> x \<in> snd st)"
    proof (cases "scoping n")
      case False
      show ?thesis
        unfolding not_scoping [OF False] by (rule fold_fv_exact) (rule IH)
    next
      case True
      then show ?thesis
      proof (cases n)
        case (IRMatch s cases)
        let ?s1 = "collect_free_vars s st"
        have "fv_exact x s" using IH IRMatch by auto
        note s = fv_exactS [OF this, of st]
        have cs: "fv_exact x (snd (snd c)) \<and> x \<notin> set (fst (snd c))" if "c \<in> set cases" for c
        proof
          show "fv_exact x (snd (snd c))" using that by (intro IH) (simp add: IRMatch)
          show "x \<notin> set (fst (snd c))" using loc that IRMatch by auto
        qed
        note m = match_fold_exact [OF cs, of cases "snd ?s1" "(fst ?s1, [])"]
        show ?thesis unfolding IRMatch using s m
          by (auto simp: Let_def fold_inter_mem split: list.split)
      next
        case (IRQuantifier k cb p ty coll rng)
        let ?cs = "(case coll of None \<Rightarrow> [] | Some c \<Rightarrow> [c]) @ (case rng of None \<Rightarrow> [] | Some (s, e) \<Rightarrow> [s, e])"
        let ?s1 = "unbind_name p st (collect_free_vars cb (bind_name p st))"
        have "fv_exact x cb" using IH IRQuantifier by auto
        note cb = fv_exactS [OF this, of "bind_name p st"]
        have "fv_exact x c" if "c \<in> set ?cs" for c
          using that by (intro IH) (auto simp: IRQuantifier)
        note m = fold_fv_exact [OF this, of ?cs ?s1]
        have lf: "lex_free n = (lex_free cb - {p}) \<union> (\<Union>c\<in>set ?cs. lex_free c)"
          unfolding IRQuantifier by (auto split: option.splits)
        have cf: "collect_free_vars n st = fold (\<lambda>c acc. collect_free_vars c acc) ?cs ?s1"
          unfolding IRQuantifier by simp
        have "x \<noteq> p" using loc IRQuantifier by simp
        then show ?thesis unfolding lf cf using cb m by auto
      qed (use loc in \<open>auto simp: Let_def fv_exactS [OF IH]\<close>)
    qed
  qed
qed

lemma free_vars_subset: "free_vars n \<subseteq> lex_free n"
  using fv_soundS [OF all_fv_sound, of "({}, {})" n] by (simp add: free_vars_def)

lemma free_vars_exact:
  assumes "x \<notin> all_binders n"
  shows "x \<in> free_vars n \<longleftrightarrow> x \<in> lex_free n"
  using all_fv_exact [OF assms] unfolding fv_exact_def free_vars_def
  by (metis fst_conv snd_conv empty_iff)

section \<open>Sequencing\<close>

lemma sequential_loop_acc: "sequential_loop n R = R \<union> sequential_loop n {}"
proof (induction n arbitrary: R rule: IR_induct)
  case (node n)
  show ?case
  proof (cases n)
    case (IRLet p v b)
    then have "b \<in> set (children n)" by simp
    then have b: "sequential_loop b R = R \<union> sequential_loop b {}" for R by (rule node)
    let ?P = "{x \<in> set p. x \<noteq> ''_''}"
    have A: "sequential_loop n R = (R \<union> ?P) \<union> sequential_loop b {}"
      unfolding IRLet sequential_loop.simps by (rule b)
    have B: "sequential_loop n {} = ({} \<union> ?P) \<union> sequential_loop b {}"
      unfolding IRLet sequential_loop.simps by (rule b)
    show ?thesis unfolding A B by blast
  qed auto
qed

lemma sequential_bindings_Let:
  "sequential_bindings (IRLet p v b) = {x \<in> set p. x \<noteq> ''_''} \<union> sequential_bindings b"
  unfolding sequential_bindings_def sequential_loop.simps
  by (subst sequential_loop_acc) simp

lemma sequential_bindings_not_Let:
  "(\<And>p v b. n \<noteq> IRLet p v b) \<Longrightarrow> sequential_bindings n = {}"
  by (cases n) (fastforce simp: sequential_bindings_def)+

lemma append_at_tail_not_Let:
  "(\<And>p v b. n \<noteq> IRLet p v b) \<Longrightarrow> append_at_tail n t = IRLet [] n t"
  by (cases n) auto

lemma append_at_tail_is_Let: "\<exists>p v b. append_at_tail n t = IRLet p v b"
  by (cases n) auto

lemma append_at_tail_assoc:
  assumes "t \<noteq> IRTuple []"
  shows "append_at_tail (append_at_tail n t) u = append_at_tail n (append_at_tail t u)"
proof (induction n rule: IR_induct)
  case (node n)
  show ?case
  proof (cases "\<exists>p v b. n = IRLet p v b")
    case True
    then obtain p v b where n: "n = IRLet p v b" by blast
    with node have IH: "append_at_tail (append_at_tail b t) u = append_at_tail b (append_at_tail t u)"
      by simp
    obtain p' v' b' where "append_at_tail b t = IRLet p' v' b'"
      using append_at_tail_is_Let by blast
    then have "append_at_tail b t \<noteq> IRTuple []" by simp
    then show ?thesis using assms IH by (simp add: n)
  next
    case False
    then have "append_at_tail n t = IRLet [] n t" "append_at_tail n (append_at_tail t u) = IRLet [] n (append_at_tail t u)"
      by (auto intro: append_at_tail_not_Let)
    then show ?thesis using assms by simp
  qed
qed

lemma append_at_tail_bindings:
  "sequential_bindings (append_at_tail n t) = sequential_bindings n \<union> sequential_bindings t"
proof (induction n rule: IR_induct)
  case (node n)
  show ?case
  proof (cases "\<exists>p v b. n = IRLet p v b")
    case True
    then obtain p v b where n: "n = IRLet p v b" by blast
    with node have "sequential_bindings (append_at_tail b t) = sequential_bindings b \<union> sequential_bindings t"
      by simp
    moreover have "sequential_bindings (IRTuple []) = {}"
      by (simp add: sequential_bindings_def)
    ultimately show ?thesis by (auto simp: n sequential_bindings_Let)
  next
    case False
    then have "append_at_tail n t = IRLet [] n t" "sequential_bindings n = {}"
      using append_at_tail_not_Let sequential_bindings_not_Let by blast+
    then show ?thesis by (simp add: sequential_bindings_Let)
  qed
qed

lemma assign_unit [simp]: "assign (IRTuple []) n = n" "assign n (IRTuple []) = n"
  by (auto simp: assign_def)

lemma assign_not_unit: "m \<noteq> IRTuple [] \<Longrightarrow> assign m n \<noteq> IRTuple []"
  using append_at_tail_is_Let [of m n] by (auto simp: assign_def)

lemma assign_assoc: "assign (assign a b) c = assign a (assign b c)"
proof (cases "a = IRTuple [] \<or> b = IRTuple [] \<or> c = IRTuple []")
  case True
  then show ?thesis by auto
next
  case False
  have "append_at_tail a b \<noteq> IRTuple []" "append_at_tail b c \<noteq> IRTuple []"
    using append_at_tail_is_Let [of a b] append_at_tail_is_Let [of b c] by auto
  with False show ?thesis by (simp add: assign_def append_at_tail_assoc)
qed

lemma assign_bindings:
  "sequential_bindings (assign a b) = sequential_bindings a \<union> sequential_bindings b"
proof -
  have "sequential_bindings (IRTuple []) = {}" by (simp add: sequential_bindings_def)
  then show ?thesis by (auto simp: assign_def append_at_tail_bindings)
qed

section \<open>Early bindings\<close>

lemma early_grows: "early \<subseteq> snd (collect_early_bindings params n early)"
proof (induction params n early rule: collect_early_bindings.induct)
  case (1 params pattern v b early)
  show ?case
  proof (cases "pattern = []")
    case True
    then show ?thesis
      using "1.IH"(2,3) by (simp add: Let_def) blast
  next
    case False
    then show ?thesis using "1.IH"(1) by auto
  qed
qed auto

lemma early_not_params:
  "early \<inter> params = {} \<Longrightarrow> snd (collect_early_bindings params n early) \<inter> params = {}"
proof (induction params n early rule: collect_early_bindings.induct)
  case (1 params pattern v b early)
  show ?case
  proof (cases "pattern = []")
    case True
    then show ?thesis using 1(2,3) "1.prems" by (simp add: Let_def)
  next
    case False
    have "(early \<union> {x \<in> set pattern. x \<noteq> ''_'' \<and> x \<notin> params}) \<inter> params = {}"
      using "1.prems" by auto
    then show ?thesis using False 1(1) "1.prems" by auto
  qed
qed auto

section \<open>Properties\<close>

text \<open>
  C15: \<open>free_vars\<close> reports only lexically free names, and reports exactly them among
  the names that no binder of the tree binds.
\<close>

theorem free_vars_correct:
  "free_vars n \<subseteq> lex_free n \<and> free_vars n - all_binders n = lex_free n - all_binders n"
  using free_vars_subset [of n] free_vars_exact [of _ n] by blast


end
