(* ===== verification/IRSemantics.thy ===== *)
theory IRSemantics
  imports IRScope
begin

text \<open>
  A reference semantics for IR trees, the specification the rewriting passes are
  proved against.  It has no counterpart function in the code: it fixes what a
  tree computes, so that "the pass preserves the program" is a statement.

  A tree evaluates in an environment to a value or to nothing.  Nothing stands
  for an abort of the Move program (an overflow, a division by zero, an
  \<open>Abort\<close> node) and for a tree that is not well typed.  Binders scope lexically.
  What the tree calls is a parameter, the record \<open>interp\<close>: the value of a
  strict node from those of its children (function calls, references, vector
  updates), of a quantifier and of a mutable borrow.  Write-backs have no value
  here, so a theorem stated over \<open>eval\<close> speaks about trees without them.

  A pass \<^emph>\<open>refines\<close> a tree when every value the tree has is the value of the result:
  it may make a tree defined where it was not, and never changes a value.
\<close>

section \<open>Values\<close>

datatype val =
    VBool bool
  | VUInt nat U256
  | VAddress nat
  | VVector "val list"
  | VTuple "val list"
  | VPack StructID "nat option" "val list"
  | VSome val
  | VNone

type_synonym env = "TempId \<rightharpoonup> val"

fun const_val :: "Const \<Rightarrow> val" where
  "const_val (CBool b) = VBool b"
| "const_val (CUInt bits v) = VUInt bits v"
| "const_val (CAddress a) = VAddress a"
| "const_val (CVector _ cs) = VVector (map const_val cs)"

record interp =
  prim :: "IRNode \<Rightarrow> val list \<Rightarrow> val option"
  quant :: "QuantifierKind \<Rightarrow> (val \<Rightarrow> val option) \<Rightarrow> val option \<Rightarrow> (val \<times> val) option \<Rightarrow> val option"
  borrow :: "val \<Rightarrow> (val \<Rightarrow> val option) \<Rightarrow> val option"

definition mono_interp :: "interp \<Rightarrow> bool" where
  "mono_interp I \<longleftrightarrow>
     (\<forall>k f g coll rng v. (\<forall>x y. f x = Some y \<longrightarrow> g x = Some y) \<longrightarrow>
        quant I k f coll rng = Some v \<longrightarrow> quant I k g coll rng = Some v)
   \<and> (\<forall>u f g v. (\<forall>x y. f x = Some y \<longrightarrow> g x = Some y) \<longrightarrow>
        borrow I u f = Some v \<longrightarrow> borrow I u g = Some v)"

section \<open>Operators\<close>

text \<open>Integer operators act on two values of one width and abort as Move does.\<close>

definition uint_result :: "nat \<Rightarrow> nat \<Rightarrow> val option" where
  "uint_result bits n = (if bits \<le> 256 \<and> n < 2 ^ bits then Some (VUInt bits (of_nat n)) else None)"

fun arith_op :: "BinOp \<Rightarrow> nat \<Rightarrow> U256 \<Rightarrow> U256 \<Rightarrow> val option" where
  "arith_op OpAdd b v w = uint_result b (unat v + unat w)"
| "arith_op OpSub b v w = (if unat w \<le> unat v then uint_result b (unat v - unat w) else None)"
| "arith_op OpMul b v w = uint_result b (unat v * unat w)"
| "arith_op OpDiv b v w = (if w = 0 then None else Some (VUInt b (v div w)))"
| "arith_op OpMod b v w = (if w = 0 then None else Some (VUInt b (v mod w)))"
| "arith_op OpBitAnd b v w = Some (VUInt b (and v w))"
| "arith_op OpBitOr b v w = Some (VUInt b (or v w))"
| "arith_op OpBitXor b v w = Some (VUInt b (xor v w))"
| "arith_op OpLt b v w = Some (VBool (v < w))"
| "arith_op OpLe b v w = Some (VBool (v \<le> w))"
| "arith_op OpGt b v w = Some (VBool (v > w))"
| "arith_op OpGe b v w = Some (VBool (v \<ge> w))"
| "arith_op OpEq b v w = Some (VBool (v = w))"
| "arith_op OpNeq b v w = Some (VBool (v \<noteq> w))"
| "arith_op _ b v w = None"

definition shift_op :: "BinOp \<Rightarrow> nat \<Rightarrow> U256 \<Rightarrow> U256 \<Rightarrow> val option" where
  "shift_op op b v s =
     (if unat s < b \<and> b \<le> 256
      then Some (VUInt b (if op = OpShl then take_bit b (push_bit (unat s) v) else drop_bit (unat s) v))
      else None)"

text \<open>Equality of two values that are no integers.\<close>

fun eq_op :: "BinOp \<Rightarrow> val \<Rightarrow> val \<Rightarrow> val option" where
  "eq_op OpEq x y = Some (VBool (x = y))"
| "eq_op OpNeq x y = Some (VBool (x \<noteq> y))"
| "eq_op _ x y = None"

fun bool_op :: "BinOp \<Rightarrow> bool \<Rightarrow> bool \<Rightarrow> val option" where
  "bool_op OpAnd a b = Some (VBool (a \<and> b))"
| "bool_op OpOr a b = Some (VBool (a \<or> b))"
| "bool_op op a b = eq_op op (VBool a) (VBool b)"

fun bin_val :: "BinOp \<Rightarrow> val \<Rightarrow> val \<Rightarrow> val option" where
  "bin_val op (VBool a) (VBool b) = bool_op op a b"
| "bin_val op (VUInt b1 v) (VUInt b2 w) =
     (if op = OpShl \<or> op = OpShr then shift_op op b1 v w
      else if b1 = b2 then arith_op op b1 v w else None)"
| "bin_val op x y = eq_op op x y"

fun un_val :: "UnOp \<Rightarrow> val \<Rightarrow> val option" where
  "un_val OpNot (VBool b) = Some (VBool (\<not> b))"
| "un_val OpBitNot (VUInt b v) = Some (VUInt b (take_bit b (not v)))"
| "un_val (OpCast t) (VUInt b v) =
     (if t < 256 \<and> 2 ^ t \<le> unat v then None else Some (VUInt t v))"
| "un_val (OpCast t) (VBool b) = Some (VUInt t (if b then 1 else 0))"
| "un_val _ _ = None"

fun bit_val :: "val BitOp \<Rightarrow> val option" where
  "bit_val (BitExtract h l (VUInt b v)) =
     (if l \<le> h \<and> h < b \<and> b \<le> 256 then Some (VUInt (h - l + 1) (take_bit (h - l + 1) (drop_bit l v))) else None)"
| "bit_val (BitConcat (VUInt b1 v) (VUInt b2 w)) =
     (if 0 < b1 \<and> b1 + b2 \<le> 256 then Some (VUInt (b1 + b2) (or (push_bit b2 v) w)) else None)"
| "bit_val (BitZeroExtend n (VUInt b v)) =
     (if b + n \<le> 256 then Some (VUInt (b + n) v) else None)"
| "bit_val (BitSignExtend n (VUInt b v)) =
     (if 0 < b \<and> 0 < n \<and> b + n \<le> 256
      then Some (VUInt (b + n) (if bit v (b - 1) then or v (push_bit b (mask n)) else v)) else None)"
| "bit_val _ = None"

section \<open>Binding\<close>

text \<open>The wildcard \<open>_\<close> binds nothing.\<close>

definition bind_var :: "TempId \<Rightarrow> val \<Rightarrow> env \<Rightarrow> env" where
  "bind_var x v env = (if x = ''_'' then env else env(x \<mapsto> v))"

fun bind_all :: "TempId list \<Rightarrow> val list \<Rightarrow> env \<Rightarrow> env option" where
  "bind_all [] [] env = Some env"
| "bind_all (x # xs) (v # vs) env = bind_all xs vs (bind_var x v env)"
| "bind_all _ _ env = None"

fun bind_pattern :: "TempId list \<Rightarrow> val \<Rightarrow> env \<Rightarrow> env option" where
  "bind_pattern [] v env = Some env"
| "bind_pattern [x] v env = Some (bind_var x v env)"
| "bind_pattern p (VTuple vs) env = bind_all p vs env"
| "bind_pattern p v env = None"

section \<open>Evaluation\<close>

text \<open>Nodes whose value is a function of the values of their children.\<close>

fun strict_val :: "interp \<Rightarrow> IRNode \<Rightarrow> val list \<Rightarrow> val option" where
  "strict_val I (IRBinOp op _ _) vs = bin_val op (vs ! 0) (vs ! 1)"
| "strict_val I (IRUnOp op _) vs = un_val op (vs ! 0)"
| "strict_val I (IRBitOp b) vs =
     bit_val (case b of
        BitExtract h l _ \<Rightarrow> BitExtract h l (vs ! 0)
      | BitConcat _ _ \<Rightarrow> BitConcat (vs ! 0) (vs ! 1)
      | BitZeroExtend n _ \<Rightarrow> BitZeroExtend n (vs ! 0)
      | BitSignExtend n _ \<Rightarrow> BitSignExtend n (vs ! 0))"
| "strict_val I (IRTuple _) vs = Some (VTuple vs)"
| "strict_val I (IRPack s _ _ vi) vs = Some (VPack s vi vs)"
| "strict_val I (IRUnpack s _ vi) vs =
     (case vs ! 0 of VPack s' vi' fs \<Rightarrow> if s = s' \<and> vi = vi' then Some (VTuple fs) else None | _ \<Rightarrow> None)"
| "strict_val I (IRField s i _) vs =
     (case vs ! 0 of VPack s' None fs \<Rightarrow> if s = s' \<and> i < length fs then Some (fs ! i) else None | _ \<Rightarrow> None)"
| "strict_val I (IRUpdateField _ s i _) vs =
     (case vs ! 0 of VPack s' None fs \<Rightarrow>
        if s = s' \<and> i < length fs then Some (VPack s' None (fs[i := vs ! 1])) else None | _ \<Rightarrow> None)"
| "strict_val I (IRToProp _) vs = (case vs ! 0 of VBool b \<Rightarrow> Some (VBool b) | _ \<Rightarrow> None)"
| "strict_val I (IRToBool _) vs = (case vs ! 0 of VBool b \<Rightarrow> Some (VBool b) | _ \<Rightarrow> None)"
| "strict_val I (IROptionSome _) vs = Some (VSome (vs ! 0))"
| "strict_val I IROptionNone vs = Some VNone"
| "strict_val I (IRAbort _) vs = None"
| "strict_val I (IRWriteBack _ _ _) vs = None"
| "strict_val I n vs = prim I (take_children n) vs"

function (sequential) eval :: "interp \<Rightarrow> env \<Rightarrow> IRNode \<Rightarrow> val option" where
  "eval I env (IRVar x) = env x"
| "eval I env (IRConst c) = Some (const_val c)"
| "eval I env (IRIf c t e) =
     (case eval I env c of
        Some (VBool b) \<Rightarrow> if b then eval I env t else eval I env e
      | _ \<Rightarrow> None)"
| "eval I env (IRLet p v b) =
     (case eval I env v of
        None \<Rightarrow> None
      | Some w \<Rightarrow> (case bind_pattern p w env of None \<Rightarrow> None | Some env' \<Rightarrow> eval I env' b))"
| "eval I env (IRMatch s cases) =
     (case eval I env s of
        Some (VPack _ (Some tag) fs) \<Rightarrow>
          (case find (\<lambda>c. fst c = tag) cases of
             None \<Rightarrow> None
           | Some c \<Rightarrow>
               (case bind_all (fst (snd c)) fs env of
                  None \<Rightarrow> None
                | Some env' \<Rightarrow> eval I env' (snd (snd c))))
      | _ \<Rightarrow> None)"
| "eval I env (IRMatchOption s x sb nb) =
     (case eval I env s of
        Some (VSome v) \<Rightarrow> eval I (bind_var x v env) sb
      | Some VNone \<Rightarrow> eval I env nb
      | _ \<Rightarrow> None)"
| "eval I env (IRMutableBorrow v p r ty) =
     (case eval I env v of
        None \<Rightarrow> None
      | Some w \<Rightarrow> borrow I w (\<lambda>x. eval I (bind_var p x env) r))"
| "eval I env (IRQuantifier k cb p ty coll rng) =
     (case sequence (map (eval I env) ((case coll of None \<Rightarrow> [] | Some c \<Rightarrow> [c])
         @ (case rng of None \<Rightarrow> [] | Some (s, e) \<Rightarrow> [s, e]))) of
        None \<Rightarrow> None
      | Some vs \<Rightarrow>
          quant I k (\<lambda>x. eval I (bind_var p x env) cb)
            (if coll = None then None else Some (vs ! 0))
            (if rng = None then None
             else if coll = None then Some (vs ! 0, vs ! 1) else Some (vs ! 1, vs ! 2)))"
| "eval I env (IRMutableCompose i out) =
     (case env i of None \<Rightarrow> None
      | Some v \<Rightarrow> (case env out of None \<Rightarrow> None | Some w \<Rightarrow> prim I (IRMutableCompose i out) [v, w]))"
| "eval I env n =
     (case sequence (map (eval I env) (children n)) of
        None \<Rightarrow> None
      | Some vs \<Rightarrow> strict_val I n vs)"
  by pat_completeness auto
termination
  by (relation "measure (\<lambda>(_, _, n). size n)")
    (auto simp del: children.simps IRNode.size simp: find_Some_iff
      intro: size_children size_case_body size_direct size_quantifier_args
      split: option.splits)

section \<open>Refinement\<close>

text \<open>\<open>refines I n m\<close>: every value of \<open>n\<close> is the value of \<open>m\<close>.\<close>

definition refines :: "interp \<Rightarrow> IRNode \<Rightarrow> IRNode \<Rightarrow> bool" where
  "refines I n m \<longleftrightarrow> (\<forall>env v. eval I env n = Some v \<longrightarrow> eval I env m = Some v)"

lemma refinesI [refine_intros]:
  "(\<And>env v. eval I env n = Some v \<Longrightarrow> eval I env m = Some v) \<Longrightarrow> refines I n m"
  by (simp add: refines_def)

lemma refinesD: "refines I n m \<Longrightarrow> eval I env n = Some v \<Longrightarrow> eval I env m = Some v"
  by (simp add: refines_def)

lemma refines_refl [simp]: "refines I n n"
  by (simp add: refines_def)

lemma refines_trans: "refines I n m \<Longrightarrow> refines I m k \<Longrightarrow> refines I n k"
  by (simp add: refines_def)

text \<open>The nodes whose evaluation is strict in all their children.\<close>

fun strict_node :: "IRNode \<Rightarrow> bool" where
  "strict_node (IRVar _) = False"
| "strict_node (IRConst _) = False"
| "strict_node (IRIf _ _ _) = False"
| "strict_node (IRLet _ _ _) = False"
| "strict_node (IRMatch _ _) = False"
| "strict_node (IRMatchOption _ _ _ _) = False"
| "strict_node (IRMutableBorrow _ _ _ _) = False"
| "strict_node (IRQuantifier _ _ _ _ _ _) = False"
| "strict_node (IRMutableCompose _ _) = False"
| "strict_node _ = True"

lemma eval_strict:
  "strict_node n \<Longrightarrow> eval I env n =
     (case sequence (map (eval I env) (children n)) of None \<Rightarrow> None | Some vs \<Rightarrow> strict_val I n vs)"
  by (cases n; hypsubst; simp del: children.simps strict_val.simps)

lemma strict_node_set [simp]: "strict_node (set_children n cs) = strict_node n"
  by (cases n) auto

lemma strict_val_set [simp]:
  assumes "length cs = length (children n)"
  shows "strict_val I (set_children n cs) = strict_val I n"
proof (cases n)
  case (IRBitOp b)
  then show ?thesis using assms by (cases b) (auto intro!: ext)
qed (use assms take_children_same_shape [OF assms] in \<open>auto intro!: ext simp: take_children_def\<close>)

lemma sequence_refines:
  assumes "sequence (map (eval I env) ns) = Some vs" "list_all2 (refines I) ns ms"
  shows "sequence (map (eval I env) ms) = Some vs"
proof -
  have "map (eval I env) ms = map Some vs"
    using assms(2) assms(1)[unfolded sequence_Some_iff]
  proof (induction arbitrary: vs rule: list_all2_induct)
    case (Cons n ns m ms)
    then show ?case by (cases vs) (auto dest: refinesD)
  qed simp
  then show ?thesis by (simp add: sequence_Some_iff)
qed

lemma strict_cong:
  assumes "strict_node n" "list_all2 (refines I) (children n) cs"
  shows "refines I n (set_children n cs)"
proof (rule refinesI)
  fix env v assume "eval I env n = Some v"
  then obtain vs where vs: "sequence (map (eval I env) (children n)) = Some vs" "strict_val I n vs = Some v"
    using assms(1) by (auto simp: eval_strict split: option.splits)
  have l: "length cs = length (children n)" using assms(2) by (simp add: list_all2_lengthD)
  show "eval I env (set_children n cs) = Some v"
    using sequence_refines [OF vs(1) assms(2)] vs(2) assms(1) l by (simp add: eval_strict)
qed

lemma find_case_refines:
  assumes "find (\<lambda>c. fst c = tag) cases = Some c"
    and "list_all2 (refines I) (map (\<lambda>c. snd (snd c)) cases) bs"
  shows "\<exists>b. find (\<lambda>c. fst c = tag) (map2 (\<lambda>(tag, ps, _) body. (tag, ps, body)) cases bs)
           = Some (fst c, fst (snd c), b) \<and> refines I (snd (snd c)) b"
  using assms
proof (induction cases arbitrary: bs)
  case (Cons a cases)
  obtain b bs' where bs: "bs = b # bs'" using Cons.prems(2) by (cases bs) auto
  show ?case
  proof (cases "fst a = tag")
    case True
    then show ?thesis using Cons.prems bs by (cases a) auto
  next
    case False
    then show ?thesis using Cons.IH [of bs'] Cons.prems bs by (cases a) auto
  qed
qed simp

lemma list_all2_1: "list_all2 P [a] ys \<longleftrightarrow> (\<exists>b. ys = [b] \<and> P a b)"
  by (auto simp: list_all2_Cons1)

lemma list_all2_2: "list_all2 P [a, b] ys \<longleftrightarrow> (\<exists>c d. ys = [c, d] \<and> P a c \<and> P b d)"
  by (auto simp: list_all2_Cons1)

lemma list_all2_3:
  "list_all2 P [a, b, c] ys \<longleftrightarrow> (\<exists>x y z. ys = [x, y, z] \<and> P a x \<and> P b y \<and> P c z)"
  by (auto simp: list_all2_Cons1)

lemma mono_quant:
  "mono_interp I \<Longrightarrow> quant I k f coll rng = Some v \<Longrightarrow> (\<And>x y. f x = Some y \<Longrightarrow> g x = Some y) \<Longrightarrow>
   quant I k g coll rng = Some v"
  unfolding mono_interp_def by presburger

lemma mono_borrow:
  "mono_interp I \<Longrightarrow> borrow I u f = Some v \<Longrightarrow> (\<And>x y. f x = Some y \<Longrightarrow> g x = Some y) \<Longrightarrow>
   borrow I u g = Some v"
  unfolding mono_interp_def by presburger

lemma eval_Let_Some:
  "eval I env (IRLet p v b) = Some r \<longleftrightarrow>
   (\<exists>w env'. eval I env v = Some w \<and> bind_pattern p w env = Some env' \<and> eval I env' b = Some r)"
  by (auto split: option.splits)

lemma eval_If_Some:
  "eval I env (IRIf c t e) = Some r \<longleftrightarrow>
   (\<exists>b. eval I env c = Some (VBool b) \<and> eval I env (if b then t else e) = Some r)"
  by (auto split: option.splits val.splits)

lemma eval_MatchOption_Some:
  "eval I env (IRMatchOption s x sb nb) = Some r \<longleftrightarrow>
   (\<exists>v. eval I env s = Some (VSome v) \<and> eval I (bind_var x v env) sb = Some r)
   \<or> eval I env s = Some VNone \<and> eval I env nb = Some r"
  by (auto split: option.splits val.splits)

lemma if_cong_refines:
  "list_all2 (refines I) [c, t, e] cs \<Longrightarrow> refines I (IRIf c t e) (set_children (IRIf c t e) cs)"
  by (auto intro!: refinesI simp: list_all2_3 eval_If_Some simp del: eval.simps)
    (metis (full_types) refinesD)

lemma let_cong_refines:
  "list_all2 (refines I) [v, b] cs \<Longrightarrow> refines I (IRLet p v b) (set_children (IRLet p v b) cs)"
  by (auto intro!: refinesI simp: list_all2_2 eval_Let_Some simp del: eval.simps) (blast dest: refinesD)

lemma match_option_cong_refines:
  "list_all2 (refines I) [s, sb, nb] cs \<Longrightarrow>
   refines I (IRMatchOption s x sb nb) (set_children (IRMatchOption s x sb nb) cs)"
  by (auto intro!: refinesI simp: list_all2_3 eval_MatchOption_Some simp del: eval.simps)
    (blast dest: refinesD)+

lemma match_cong_refines:
  assumes "list_all2 (refines I) (s # map (\<lambda>c. snd (snd c)) cases) cs"
  shows "refines I (IRMatch s cases) (set_children (IRMatch s cases) cs)"
proof (rule refinesI)
  fix env v assume e: "eval I env (IRMatch s cases) = Some v"
  obtain s' bs where cs: "cs = s' # bs" "refines I s s'"
    "list_all2 (refines I) (map (\<lambda>c. snd (snd c)) cases) bs"
    using assms by (auto simp: list_all2_Cons1)
  obtain k tag fs c env' where p: "eval I env s = Some (VPack k (Some tag) fs)"
    "find (\<lambda>c. fst c = tag) cases = Some c" "bind_all (fst (snd c)) fs env = Some env'"
    "eval I env' (snd (snd c)) = Some v"
    using e by (auto split: option.splits val.splits)
  obtain b where b: "find (\<lambda>c. fst c = tag) (map2 (\<lambda>(tag, ps, _) body. (tag, ps, body)) cases bs)
           = Some (fst c, fst (snd c), b)" "refines I (snd (snd c)) b"
    using find_case_refines [OF p(2) cs(3)] by blast
  show "eval I env (set_children (IRMatch s cases) cs) = Some v"
    using p b cs refinesD [OF cs(2)] refinesD [OF b(2) p(4)] by simp
qed

lemma borrow_cong_refines:
  assumes "mono_interp I" "list_all2 (refines I) [u, r] cs"
  shows "refines I (IRMutableBorrow u p r t) (set_children (IRMutableBorrow u p r t) cs)"
proof (rule refinesI)
  fix env v assume e: "eval I env (IRMutableBorrow u p r t) = Some v"
  obtain u' r' where cs: "cs = [u', r']" "refines I u u'" "refines I r r'"
    using assms(2) by (auto simp: list_all2_2)
  obtain w where w: "eval I env u = Some w"
    "borrow I w (\<lambda>x. eval I (bind_var p x env) r) = Some v"
    using e by (auto split: option.splits)
  have "borrow I w (\<lambda>x. eval I (bind_var p x env) r') = Some v"
    by (rule mono_borrow [OF assms(1) w(2)]) (rule refinesD [OF cs(3)])
  then show "eval I env (set_children (IRMutableBorrow u p r t) cs) = Some v"
    using refinesD [OF cs(2) w(1)] cs(1) by simp
qed

lemma quantifier_cong_refines:
  assumes "mono_interp I" "list_all2 (refines I) (children (IRQuantifier k cb p t coll rng)) cs"
  shows "refines I (IRQuantifier k cb p t coll rng) (set_children (IRQuantifier k cb p t coll rng) cs)"
proof (rule refinesI)
  let ?args = "\<lambda>coll rng. (case coll of None \<Rightarrow> [] | Some c \<Rightarrow> [c])
         @ (case rng of None \<Rightarrow> [] | Some (s, e) \<Rightarrow> [s, e])"
  fix env v assume e: "eval I env (IRQuantifier k cb p t coll rng) = Some v"
  obtain cb' as where cs: "cs = cb' # as" "refines I cb cb'" "list_all2 (refines I) (?args coll rng) as"
    using assms(2) by (auto simp: list_all2_Cons1)
  obtain vs where vs: "sequence (map (eval I env) (?args coll rng)) = Some vs"
    "quant I k (\<lambda>x. eval I (bind_var p x env) cb)
            (if coll = None then None else Some (vs ! 0))
            (if rng = None then None
             else if coll = None then Some (vs ! 0, vs ! 1) else Some (vs ! 1, vs ! 2)) = Some v"
    using e by (auto simp del: map_append split: option.splits)
  have q: "quant I k (\<lambda>x. eval I (bind_var p x env) cb')
            (if coll = None then None else Some (vs ! 0))
            (if rng = None then None
             else if coll = None then Some (vs ! 0, vs ! 1) else Some (vs ! 1, vs ! 2)) = Some v"
    by (rule mono_quant [OF assms(1) vs(2)]) (rule refinesD [OF cs(2)])
  have s: "sequence (map (eval I env) as) = Some vs"
    by (rule sequence_refines [OF vs(1) cs(3)])
  obtain coll' rng' where sh: "set_children (IRQuantifier k cb p t coll rng) cs = IRQuantifier k cb' p t coll' rng'"
    "?args coll' rng' = as" "coll' = None \<longleftrightarrow> coll = None" "rng' = None \<longleftrightarrow> rng = None"
    using cs by (cases coll; cases rng) (auto simp: list_all2_1 list_all2_2 list_all2_3)
  show "eval I env (set_children (IRQuantifier k cb p t coll rng) cs) = Some v"
    unfolding sh(1) eval.simps sh(2) s option.case sh(3,4) by (rule q)
qed

text \<open>Refining the children of a node refines the node.\<close>

theorem children_cong_refines:
  assumes "mono_interp I" "list_all2 (refines I) (children n) cs"
  shows "refines I n (set_children n cs)"
proof (cases "strict_node n")
  case True
  then show ?thesis using assms by (rule_tac strict_cong)
next
  case False
  then show ?thesis
  proof (cases n)
    case (IRIf c t e)
    then show ?thesis using if_cong_refines assms by simp
  next
    case (IRLet p v b)
    then show ?thesis using let_cong_refines assms by simp
  next
    case (IRMatch s cases)
    then show ?thesis using match_cong_refines [of I s cases cs] assms by simp
  next
    case (IRMatchOption s x sb nb)
    then show ?thesis using match_option_cong_refines assms by simp
  next
    case (IRMutableBorrow u p r t)
    then show ?thesis using borrow_cong_refines assms by simp
  next
    case (IRQuantifier k cb p t coll rng)
    then show ?thesis using quantifier_cong_refines assms by simp
  qed auto
qed

section \<open>Free names\<close>

text \<open>
  The value of a tree depends on the environment only through the names it reads
  and the wildcard, which no binder ever rebinds.
\<close>

definition agree_on :: "TempId set \<Rightarrow> env \<Rightarrow> env \<Rightarrow> bool" where
  "agree_on A e f \<longleftrightarrow> (\<forall>x \<in> insert ''_'' A. e x = f x)"

lemma agree_onD: "agree_on A e f \<Longrightarrow> x \<in> A \<Longrightarrow> e x = f x"
  by (simp add: agree_on_def)

lemma agree_on_mono: "agree_on A e f \<Longrightarrow> B \<subseteq> A \<Longrightarrow> agree_on B e f"
  by (auto simp: agree_on_def)

lemma agree_on_sym: "agree_on A e f \<Longrightarrow> agree_on A f e"
  by (simp add: agree_on_def)

lemma agree_on_refl [simp]: "agree_on A e e"
  by (simp add: agree_on_def)

lemma agree_bind_var: "agree_on (A - {x}) e f \<Longrightarrow> agree_on A (bind_var x v e) (bind_var x v f)"
  by (auto simp: agree_on_def bind_var_def)

lemma bind_all_agree:
  assumes "agree_on (A - set p) e f"
  shows "case bind_all p vs e of
      None \<Rightarrow> bind_all p vs f = None
    | Some e' \<Rightarrow> (\<exists>f'. bind_all p vs f = Some f' \<and> agree_on A e' f')"
  using assms
proof (induction p vs e arbitrary: f rule: bind_all.induct)
  case (2 x xs v vs env)
  have "agree_on (A - set xs) (bind_var x v env) (bind_var x v f)"
    by (rule agree_bind_var) (use "2.prems" in \<open>simp add: set_diff_eq agree_on_def\<close>)
  then show ?case using "2.IH" by (simp cong: option.case_cong)
qed auto

lemma bind_pattern_agree:
  assumes "agree_on (A - set p) e f"
  shows "case bind_pattern p v e of
      None \<Rightarrow> bind_pattern p v f = None
    | Some e' \<Rightarrow> (\<exists>f'. bind_pattern p v f = Some f' \<and> agree_on A e' f')"
proof (cases "(p, v, e)" rule: bind_pattern.cases)
  case (3 x y zs vs env)
  then show ?thesis using bind_all_agree [of A p e f vs] assms by (simp cong: option.case_cong)
qed (use assms in \<open>auto intro: agree_bind_var\<close>)

lemma bind_all_other: "bind_all p vs e = Some e' \<Longrightarrow> x \<notin> set p \<Longrightarrow> e' x = e x"
  by (induction p vs e rule: bind_all.induct) (auto simp: bind_var_def split: if_splits)

lemma bind_all_wildcard: "bind_all p vs e = Some e' \<Longrightarrow> e' ''_'' = e ''_''"
  by (induction p vs e rule: bind_all.induct) (auto simp: bind_var_def)

lemma bind_pattern_other:
  assumes "bind_pattern p v e = Some e'" "x \<notin> set p \<or> x = ''_''"
  shows "e' x = e x"
proof (cases "(p, v, e)" rule: bind_pattern.cases)
  case (3 x y zs vs env)
  then show ?thesis using bind_all_other bind_all_wildcard assms by fastforce
qed (use assms in \<open>auto simp: bind_var_def split: if_splits\<close>)

lemma bind_pattern_agrees:
  "bind_pattern p v e = Some e' \<Longrightarrow> A \<inter> (set p - {''_''}) = {} \<Longrightarrow> agree_on A e' e"
  unfolding agree_on_def using bind_pattern_other [of p v e e'] by auto

lemma lex_free_strict:
  "strict_node n \<Longrightarrow> (\<nexists>c p e. n = IRWriteBack c p e) \<Longrightarrow> lex_free n = (\<Union>c\<in>set (children n). lex_free c)"
  by (cases n; hypsubst; simp del: children.simps)

theorem eval_agree:
  "agree_on (lex_free n) e f \<Longrightarrow> eval I e n = eval I f n"
proof (induction n arbitrary: e f rule: IR_induct)
  case (node n)
  have bnd: "eval I (bind_var x v e) c = eval I (bind_var x v f) c"
    if "c \<in> set (children n)" "lex_free c - {x} \<subseteq> lex_free n" for c x v
    by (rule node.IH [OF that(1)]) (use node.prems that(2) in \<open>blast intro: agree_bind_var agree_on_mono\<close>)
  have sub: "eval I e c = eval I f c" if "c \<in> set (children n)" "lex_free c \<subseteq> lex_free n" for c
    using node.IH [OF that(1)] agree_on_mono [OF node.prems that(2)] .
  show ?case
  proof (cases "strict_node n")
    case True
    show ?thesis
    proof (cases "\<exists>c p e. n = IRWriteBack c p e")
      case False
      then have "lex_free n = (\<Union>c\<in>set (children n). lex_free c)" by (rule lex_free_strict [OF True])
      then have "eval I e c = eval I f c" if "c \<in> set (children n)" for c
        using that by (intro sub) auto
      then have "map (eval I e) (children n) = map (eval I f) (children n)" by simp
      then show ?thesis unfolding eval_strict [OF True] by (rule arg_cong)
    qed auto
  next
    case False
    then show ?thesis
    proof (cases n)
      case (IRLet p v b)
      have "eval I e v = eval I f v" by (rule sub) (simp_all add: IRLet)
      moreover have "(case bind_pattern p w e of None \<Rightarrow> None | Some e' \<Rightarrow> eval I e' b) =
        (case bind_pattern p w f of None \<Rightarrow> None | Some e' \<Rightarrow> eval I e' b)" for w
      proof -
        have "agree_on (lex_free b - set p) e f"
          by (rule agree_on_mono [OF node.prems]) (auto simp: IRLet)
        from bind_pattern_agree [OF this, of w] show ?thesis
          using node.IH [of b] IRLet by (cases "bind_pattern p w e") auto
      qed
      ultimately show ?thesis unfolding IRLet eval.simps by presburger
    next
      case (IRMatch s cases)
      have s: "eval I e s = eval I f s" by (rule sub) (simp_all add: IRMatch)
      have "(case bind_all (fst (snd c)) fs e of None \<Rightarrow> None | Some e' \<Rightarrow> eval I e' (snd (snd c))) =
        (case bind_all (fst (snd c)) fs f of None \<Rightarrow> None | Some e' \<Rightarrow> eval I e' (snd (snd c)))"
        if "find (\<lambda>c. fst c = tag) cases = Some c" for tag c fs
      proof -
        have c: "c \<in> set cases" using that by (auto simp: find_Some_iff)
        then have "agree_on (lex_free (snd (snd c)) - set (fst (snd c))) e f"
          by (intro agree_on_mono [OF node.prems]) (auto simp: IRMatch)
        from bind_all_agree [OF this, of fs] show ?thesis
          using c node.IH [of "snd (snd c)"] IRMatch by (cases "bind_all (fst (snd c)) fs e") auto
      qed
      then show ?thesis unfolding IRMatch eval.simps s
        by (auto split: option.splits val.splits)
    next
      case (IRMatchOption s x sb nb)
      have "eval I e s = eval I f s" "eval I e nb = eval I f nb"
        by (rule sub; auto simp: IRMatchOption)+
      moreover have "eval I (bind_var x v e) sb = eval I (bind_var x v f) sb" for v
        by (rule bnd) (auto simp: IRMatchOption)
      ultimately show ?thesis unfolding IRMatchOption eval.simps by presburger
    next
      case (IRMutableBorrow u p r t)
      have "eval I e u = eval I f u" by (rule sub) (auto simp: IRMutableBorrow)
      moreover have "eval I (bind_var p v e) r = eval I (bind_var p v f) r" for v
        by (rule bnd) (auto simp: IRMutableBorrow)
      ultimately show ?thesis unfolding IRMutableBorrow eval.simps by presburger
    next
      case (IRQuantifier k cb p t coll rng)
      let ?args = "(case coll of None \<Rightarrow> [] | Some c \<Rightarrow> [c])
         @ (case rng of None \<Rightarrow> [] | Some (s, e) \<Rightarrow> [s, e])"
      have "map (eval I e) ?args = map (eval I f) ?args"
        by (rule map_cong [OF refl], rule sub) (auto simp: IRQuantifier split: option.splits)
      moreover have "(\<lambda>v. eval I (bind_var p v e) cb) = (\<lambda>v. eval I (bind_var p v f) cb)"
        by (rule ext, rule bnd) (auto simp: IRQuantifier)
      ultimately show ?thesis unfolding IRQuantifier eval.simps by (simp only:)
    next
      case (IRIf c t el)
      have "eval I e c = eval I f c" "eval I e t = eval I f t" "eval I e el = eval I f el"
        by (rule sub; auto simp: IRIf)+
      then show ?thesis unfolding IRIf eval.simps by presburger
    next
      case (IRMutableCompose i out)
      have "e i = f i" "e out = f out"
        by (rule agree_onD [OF node.prems]; simp add: IRMutableCompose)+
      then show ?thesis unfolding IRMutableCompose eval.simps by presburger
    qed (use node.prems in \<open>auto dest: agree_onD\<close>)
  qed
qed

section \<open>Simulation\<close>

text \<open>
  The value of a rewritten tree in a related environment.  A relation between two
  environments on a set of names, kept when both bind the same value, lifts from
  the children of a node to the node.  The relation of a substitution is one
  instance, equality of environments another.
\<close>

definition binding_closed :: "(TempId set \<Rightarrow> env \<Rightarrow> env \<Rightarrow> bool) \<Rightarrow> TempId set \<Rightarrow> bool" where
  "binding_closed R X \<longleftrightarrow>
     (\<forall>A B e f. R A e f \<longrightarrow> B \<subseteq> A \<longrightarrow> R B e f)
   \<and> (\<forall>A x v e f. x \<in> X \<longrightarrow> R (A - {x}) e f \<longrightarrow> R A (bind_var x v e) (bind_var x v f))"

lemma binding_closed_mono: "binding_closed R X \<Longrightarrow> R A e f \<Longrightarrow> B \<subseteq> A \<Longrightarrow> R B e f"
  by (simp add: binding_closed_def)

lemma binding_closed_bind:
  "binding_closed R X \<Longrightarrow> x \<in> X \<Longrightarrow> R (A - {x}) e f \<Longrightarrow> R A (bind_var x v e) (bind_var x v f)"
  by (simp add: binding_closed_def)

lemma binding_closed_all:
  assumes "binding_closed R X"
  shows "bind_all p vs e = Some e' \<Longrightarrow> set p \<subseteq> X \<Longrightarrow> R (A - set p) e f \<Longrightarrow>
    \<exists>f'. bind_all p vs f = Some f' \<and> R A e' f'"
proof (induction p vs e arbitrary: f rule: bind_all.induct)
  case (2 x xs v vs env)
  have "R (A - set xs) (bind_var x v env) (bind_var x v f)"
    by (rule binding_closed_bind [OF assms])
      (use "2.prems" in \<open>auto simp: Diff_insert [symmetric] Diff_insert2 [symmetric]\<close>)
  then show ?case using "2.IH" "2.prems" by simp
qed auto

lemma binding_closed_pattern:
  assumes "binding_closed R X" "bind_pattern p v e = Some e'" "set p \<subseteq> X" "R (A - set p) e f"
  shows "\<exists>f'. bind_pattern p v f = Some f' \<and> R A e' f'"
proof (cases "(p, v, e)" rule: bind_pattern.cases)
  case (3 x y zs vs env)
  then show ?thesis using binding_closed_all [OF assms(1), of p vs e e' A f] assms by simp
qed (use assms binding_closed_bind [OF assms(1)] in auto)

lemma strict_sim:
  assumes "strict_node n" "eval I e n = Some v"
    and "\<And>c v. c \<in> set (children n) \<Longrightarrow> eval I e c = Some v \<Longrightarrow> eval I f (g c) = Some v"
  shows "eval I f (set_children n (map g (children n))) = Some v"
proof -
  obtain vs where vs: "sequence (map (eval I e) (children n)) = Some vs" "strict_val I n vs = Some v"
    using assms(1,2) by (auto simp: eval_strict split: option.splits)
  have "sequence (map (\<lambda>c. eval I f (g c)) (children n)) = Some vs"
    by (rule sequence_mono [OF vs(1)]) (rule assms(3))
  then show ?thesis using vs(2) assms(1) by (simp add: eval_strict comp_def)
qed

lemma find_map_case:
  "find (\<lambda>c. fst c = tag) (map (\<lambda>(t, ps, b). (t, ps, g b)) cases) =
   map_option (\<lambda>(t, ps, b). (t, ps, g b)) (find (\<lambda>c. fst c = tag) cases)"
  by (induction cases) auto

lemma set_children_match:
  "set_children (IRMatch s cases) (map g (children (IRMatch s cases))) =
   IRMatch (g s) (map (\<lambda>(t, ps, b). (t, ps, g b)) cases)"
  by (induction cases) auto

theorem eval_sim:
  assumes mono: "mono_interp I" and R: "binding_closed R (local_binders n)"
    and leaf: "\<And>x. n \<noteq> IRVar x" "\<And>i out. n \<noteq> IRMutableCompose i out"
    and sub: "\<And>c e f v. c \<in> set (children n) \<Longrightarrow> R (lex_free c) e f \<Longrightarrow> eval I e c = Some v \<Longrightarrow>
        eval I f (g c) = Some v"
    and ef: "R (lex_free n) e f" and v: "eval I e n = Some v"
  shows "eval I f (set_children n (map g (children n))) = Some v"
proof (cases "strict_node n")
  case True
  show ?thesis
  proof (cases "\<exists>c p e. n = IRWriteBack c p e")
    case False
    then have lf: "lex_free n = (\<Union>c\<in>set (children n). lex_free c)" by (rule lex_free_strict [OF True])
    show ?thesis
    proof (rule strict_sim [OF True v])
      fix c v assume "c \<in> set (children n)" "eval I e c = Some v"
      then show "eval I f (g c) = Some v"
        using binding_closed_mono [OF R ef, of "lex_free c"] lf by (intro sub) auto
    qed
  qed (use v in auto)
next
  case False
  have bnd: "eval I (bind_var x w f) (g c) = Some u"
    if "c \<in> set (children n)" "lex_free c - {x} \<subseteq> lex_free n" "x \<in> local_binders n"
      "eval I (bind_var x w e) c = Some u" for c x w u
    using that binding_closed_bind [OF R that(3) binding_closed_mono [OF R ef that(2)]] by (intro sub)
  have here: "eval I f (g c) = Some u"
    if "c \<in> set (children n)" "lex_free c \<subseteq> lex_free n" "eval I e c = Some u" for c u
    using that binding_closed_mono [OF R ef that(2)] by (intro sub)
  from False show ?thesis
  proof (cases n)
    case (IRIf c t el)
    obtain b where b: "eval I e c = Some (VBool b)" "eval I e (if b then t else el) = Some v"
      using v unfolding IRIf eval_If_Some by blast
    have "eval I f (g c) = Some (VBool b)" by (rule here [OF _ _ b(1)]) (auto simp: IRIf)
    moreover have "eval I f (g (if b then t else el)) = Some v"
      by (rule here [OF _ _ b(2)]) (auto simp: IRIf)
    ultimately show ?thesis by (cases b) (simp_all add: IRIf)
  next
    case (IRLet p u b)
    obtain w e' where w: "eval I e u = Some w" "bind_pattern p w e = Some e'" "eval I e' b = Some v"
      using v unfolding IRLet eval_Let_Some by blast
    have "R (lex_free b - set p) e f" by (rule binding_closed_mono [OF R ef]) (auto simp: IRLet)
    then obtain f' where f': "bind_pattern p w f = Some f'" "R (lex_free b) e' f'"
      using binding_closed_pattern [OF R w(2)] by (auto simp: IRLet)
    have "eval I f (g u) = Some w" by (rule here [OF _ _ w(1)]) (auto simp: IRLet)
    moreover have "eval I f' (g b) = Some v" by (rule sub [OF _ f'(2) w(3)]) (simp add: IRLet)
    ultimately show ?thesis using f'(1) by (simp add: IRLet)
  next
    case (IRMatch s cases)
    obtain k tag fs c e' where p: "eval I e s = Some (VPack k (Some tag) fs)"
      "find (\<lambda>c. fst c = tag) cases = Some c" "bind_all (fst (snd c)) fs e = Some e'"
      "eval I e' (snd (snd c)) = Some v"
      using v by (auto simp: IRMatch split: option.splits val.splits)
    have c: "c \<in> set cases" using p(2) by (auto simp: find_Some_iff)
    then have "R (lex_free (snd (snd c)) - set (fst (snd c))) e f"
      by (intro binding_closed_mono [OF R ef]) (auto simp: IRMatch)
    moreover have "set (fst (snd c)) \<subseteq> local_binders n" using c by (auto simp: IRMatch)
    ultimately obtain f' where f': "bind_all (fst (snd c)) fs f = Some f'" "R (lex_free (snd (snd c))) e' f'"
      using binding_closed_all [OF R p(3)] by blast
    have "eval I f (g s) = Some (VPack k (Some tag) fs)" by (rule here [OF _ _ p(1)]) (auto simp: IRMatch)
    moreover have "eval I f' (g (snd (snd c))) = Some v"
      by (rule sub [OF _ f'(2) p(4)]) (use c in \<open>simp add: IRMatch\<close>)
    ultimately show ?thesis using p(2) f'(1)
      by (cases c) (simp add: IRMatch set_children_match find_map_case del: set_children.simps children.simps)
  next
    case (IRMatchOption s x sb nb)
    consider w where "eval I e s = Some (VSome w)" "eval I (bind_var x w e) sb = Some v"
      | "eval I e s = Some VNone" "eval I e nb = Some v"
      using v unfolding IRMatchOption eval_MatchOption_Some by blast
    then show ?thesis
    proof cases
      case (1 w)
      have "eval I f (g s) = Some (VSome w)" by (rule here [OF _ _ 1(1)]) (auto simp: IRMatchOption)
      moreover have "eval I (bind_var x w f) (g sb) = Some v"
        by (rule bnd [OF _ _ _ 1(2)]) (auto simp: IRMatchOption)
      ultimately show ?thesis by (simp add: IRMatchOption)
    next
      case 2
      have "eval I f (g s) = Some VNone" by (rule here [OF _ _ 2(1)]) (auto simp: IRMatchOption)
      moreover have "eval I f (g nb) = Some v" by (rule here [OF _ _ 2(2)]) (auto simp: IRMatchOption)
      ultimately show ?thesis by (simp add: IRMatchOption)
    qed
  next
    case (IRMutableBorrow u p r t)
    obtain w where w: "eval I e u = Some w" "borrow I w (\<lambda>x. eval I (bind_var p x e) r) = Some v"
      using v by (auto simp: IRMutableBorrow split: option.splits)
    have "eval I f (g u) = Some w" by (rule here [OF _ _ w(1)]) (auto simp: IRMutableBorrow)
    moreover have "borrow I w (\<lambda>x. eval I (bind_var p x f) (g r)) = Some v"
      by (rule mono_borrow [OF mono w(2)], rule bnd) (auto simp: IRMutableBorrow)
    ultimately show ?thesis by (simp add: IRMutableBorrow)
  next
    case (IRQuantifier k cb p t coll rng)
    let ?args = "\<lambda>coll rng. (case coll of None \<Rightarrow> [] | Some c \<Rightarrow> [c])
         @ (case rng of None \<Rightarrow> [] | Some (s, e) \<Rightarrow> [s, e])"
    obtain vs where vs: "sequence (map (eval I e) (?args coll rng)) = Some vs"
      "quant I k (\<lambda>x. eval I (bind_var p x e) cb)
            (if coll = None then None else Some (vs ! 0))
            (if rng = None then None
             else if coll = None then Some (vs ! 0, vs ! 1) else Some (vs ! 1, vs ! 2)) = Some v"
      using v unfolding IRQuantifier by (auto simp del: map_append split: option.splits)
    let ?coll = "map_option g coll" and ?rng = "map_option (map_prod g g) rng"
    have n: "set_children n (map g (children n)) = IRQuantifier k (g cb) p t ?coll ?rng"
      by (cases coll; cases rng) (auto simp: IRQuantifier)
    have args: "?args ?coll ?rng = map g (?args coll rng)" by (cases coll; cases rng) auto
    have "sequence (map (\<lambda>c. eval I f (g c)) (?args coll rng)) = Some vs"
      by (rule sequence_mono [OF vs(1)], rule here) (auto simp: IRQuantifier split: option.splits)
    then have s: "sequence (map (eval I f) (?args ?coll ?rng)) = Some vs"
      unfolding args by (simp add: comp_def)
    have q: "quant I k (\<lambda>x. eval I (bind_var p x f) (g cb))
            (if coll = None then None else Some (vs ! 0))
            (if rng = None then None
             else if coll = None then Some (vs ! 0, vs ! 1) else Some (vs ! 1, vs ! 2)) = Some v"
      by (rule mono_quant [OF mono vs(2)], rule bnd) (auto simp: IRQuantifier)
    show ?thesis unfolding n eval.simps s option.case option.map_disc_iff by (rule q)
  qed (use v leaf in auto)
qed

section \<open>Bottom-up rewriting\<close>

text \<open>
  The contract of a pass that is \<open>node.map(step)\<close>: on trees with a property that
  subtrees inherit, that replacing children keeps and that the step keeps, the
  step refines the node it is applied to.  Then the pass refines the tree.
\<close>

locale node_rewrite =
  fixes step :: "IRNode \<Rightarrow> IRNode"
    and ok :: "IRNode \<Rightarrow> bool"
  assumes ok_child: "ok n \<Longrightarrow> c \<in> set (children n) \<Longrightarrow> ok c"
    and ok_set: "ok n \<Longrightarrow> length cs = length (children n) \<Longrightarrow> (\<forall>c\<in>set cs. ok c) \<Longrightarrow> ok (set_children n cs)"
    and ok_step: "ok n \<Longrightarrow> ok (step n)"
    and step_refines: "ok n \<Longrightarrow> refines I n (step n)"
begin

lemma map_ir_refines_ok:
  assumes mono: "mono_interp I"
  shows "ok n \<Longrightarrow> refines I n (map_ir step n) \<and> ok (map_ir step n)"
proof (induction n rule: IR_induct)
  case (node n)
  let ?m = "set_children n (map (map_ir step) (children n))"
  have c: "refines I c (map_ir step c) \<and> ok (map_ir step c)" if "c \<in> set (children n)" for c
    using node that ok_child by blast
  then have "list_all2 (refines I) (children n) (map (map_ir step) (children n))"
    by (simp add: list_all2_conv_all_nth)
  then have "refines I n ?m" by (rule children_cong_refines [OF mono])
  moreover have "ok ?m" using node.prems c by (intro ok_set) auto
  ultimately show ?case
    using ok_step step_refines refines_trans by (subst (1 2) map_ir.simps) blast
qed

lemma map_refines: "mono_interp I \<Longrightarrow> ok n \<Longrightarrow> \<exists>m. ir_map step n = Some m \<and> refines I n m \<and> ok m"
  using map_ir_refines_ok by (simp add: ir_map_eq)

end

text \<open>An interpretation under which no call returns, for concrete runs.\<close>

definition empty_interp :: interp where
  "empty_interp = \<lparr>prim = (\<lambda>_ _. None), quant = (\<lambda>_ _ _ _. None), borrow = (\<lambda>_ _. None)\<rparr>"

lemma mono_empty_interp [simp]: "mono_interp empty_interp"
  by (simp add: mono_interp_def empty_interp_def)

end
