(* ===== verification/ConstantFolding.thy ===== *)
theory ConstantFolding
  imports IRSemantics
begin

text \<open>
  The constant folding pass (\<open>intermediate-theorem-format/src/analysis/constant_folding.rs\<close>).
  \<open>U256\<close> is \<open>256 word\<close>: \<open>wrapping_add\<close> and its siblings are the word operations, and
  the \<open>-\<close> of \<open>(1 << n) - 1\<close> never borrows while the shift is in range.  What the
  \<open>ethnum\<close> crate answers for a shift by 256 or more depends on its build profile and
  is a parameter, \<open>shifts\<close>.  A bit width is \<open>u32\<close> inside a \<open>BitOp\<close> and \<open>usize\<close> inside a
  constant; their wrap-around is written out.
\<close>

section \<open>Shifts of the U256 crate\<close>

record shifts =
  shl_over :: "U256 \<Rightarrow> nat \<Rightarrow> U256"
  shr_over :: "U256 \<Rightarrow> nat \<Rightarrow> U256"

definition shl :: "shifts \<Rightarrow> U256 \<Rightarrow> nat \<Rightarrow> U256" where
  "shl S v n = (if n < 256 then push_bit n v else shl_over S v n)"

definition shr :: "shifts \<Rightarrow> U256 \<Rightarrow> nat \<Rightarrow> U256" where
  "shr S v n = (if n < 256 then drop_bit n v else shr_over S v n)"

section \<open>The folding functions\<close>

definition mask_to_bits :: "shifts \<Rightarrow> U256 \<Rightarrow> nat \<Rightarrow> U256" where
  "mask_to_bits S value bits = (if bits \<ge> 256 then value else and value (shl S 1 bits - 1))"

definition fold_binop :: "shifts \<Rightarrow> BinOp \<Rightarrow> Const \<Rightarrow> Const \<Rightarrow> Const option" where
  "fold_binop S op lhs rhs = (case (op, lhs, rhs) of
       (OpAnd, CBool a, CBool b) \<Rightarrow> Some (CBool (a \<and> b))
     | (OpOr, CBool a, CBool b) \<Rightarrow> Some (CBool (a \<or> b))
     | (OpEq, CBool a, CBool b) \<Rightarrow> Some (CBool (a = b))
     | (OpNeq, CBool a, CBool b) \<Rightarrow> Some (CBool (a \<noteq> b))
     | (OpGt, CUInt _ v1, CUInt _ v2) \<Rightarrow> Some (CBool (v1 > v2))
     | (OpGe, CUInt _ v1, CUInt _ v2) \<Rightarrow> Some (CBool (v1 \<ge> v2))
     | (OpLt, CUInt _ v1, CUInt _ v2) \<Rightarrow> Some (CBool (v1 < v2))
     | (OpLe, CUInt _ v1, CUInt _ v2) \<Rightarrow> Some (CBool (v1 \<le> v2))
     | (OpEq, CUInt _ v1, CUInt _ v2) \<Rightarrow> Some (CBool (v1 = v2))
     | (OpNeq, CUInt _ v1, CUInt _ v2) \<Rightarrow> Some (CBool (v1 \<noteq> v2))
     | (OpAdd, CUInt b1 v1, CUInt b2 v2) \<Rightarrow>
         (let bits = max b1 b2 in Some (CUInt bits (mask_to_bits S (v1 + v2) bits)))
     | (OpSub, CUInt b1 v1, CUInt b2 v2) \<Rightarrow>
         (let bits = max b1 b2 in Some (CUInt bits (mask_to_bits S (v1 - v2) bits)))
     | (OpMul, CUInt b1 v1, CUInt b2 v2) \<Rightarrow>
         (let bits = max b1 b2 in Some (CUInt bits (mask_to_bits S (v1 * v2) bits)))
     | (OpDiv, CUInt b1 v1, CUInt b2 v2) \<Rightarrow>
         (if v2 = 0 then None else let bits = max b1 b2 in Some (CUInt bits (v1 div v2)))
     | (OpMod, CUInt b1 v1, CUInt b2 v2) \<Rightarrow>
         (if v2 = 0 then None else let bits = max b1 b2 in Some (CUInt bits (v1 mod v2)))
     | (OpBitAnd, CUInt b1 v1, CUInt b2 v2) \<Rightarrow>
         (let bits = max b1 b2 in Some (CUInt bits (and v1 v2)))
     | (OpBitOr, CUInt b1 v1, CUInt b2 v2) \<Rightarrow>
         (let bits = max b1 b2 in Some (CUInt bits (or v1 v2)))
     | (OpBitXor, CUInt b1 v1, CUInt b2 v2) \<Rightarrow>
         (let bits = max b1 b2 in Some (CUInt bits (xor v1 v2)))
     | (OpShl, CUInt bits value, CUInt _ shift) \<Rightarrow>
         (let shift_amount = min shift 255
      in Some (CUInt bits (mask_to_bits S (shl S value (unat shift_amount)) bits)))
     | (OpShr, CUInt bits value, CUInt _ shift) \<Rightarrow>
         (let shift_amount = min shift 255
      in Some (CUInt bits (shr S value (unat shift_amount))))
     | _ \<Rightarrow> None)"

fun fold_unop :: "shifts \<Rightarrow> UnOp \<Rightarrow> Const \<Rightarrow> Const option" where
  "fold_unop S OpNot (CBool b) = Some (CBool (\<not> b))"
| "fold_unop S OpBitNot (CUInt bits value) = Some (CUInt bits (mask_to_bits S (not value) bits))"
| "fold_unop S (OpCast target_bits) (CUInt _ value) =
     Some (CUInt target_bits
       (if target_bits = 256 then value else mask_to_bits S value target_bits))"
| "fold_unop S (OpCast target_bits) (CBool b) = Some (CUInt target_bits (if b then 1 else 0))"
| "fold_unop S _ _ = None"

text \<open>\<open>high - low + 1\<close> is a \<open>u32\<close> expression.\<close>

definition extract_width :: "nat \<Rightarrow> nat \<Rightarrow> nat" where
  "extract_width high low = nat ((int high - int low + 1) mod 2 ^ 32)"

definition usize_pred :: "nat \<Rightarrow> nat" where
  "usize_pred n = nat ((int n - 1) mod 2 ^ 64)"

definition fold_bitop :: "shifts \<Rightarrow> IRNode BitOp \<Rightarrow> Const option" where
  "fold_bitop S bit_op = (case bit_op of
     BitExtract high low operand \<Rightarrow>
       (case operand of
          IRConst (CUInt _ value) \<Rightarrow>
            (let width = extract_width high low;
                 shifted = shr S value low;
                 mask = shl S 1 width - 1
             in Some (CUInt width (and shifted mask)))
        | _ \<Rightarrow> None)
   | BitConcat high low \<Rightarrow>
       (case (high, low) of
          (IRConst (CUInt high_bits high_val), IRConst (CUInt low_bits low_val)) \<Rightarrow>
            (let result = or (shl S high_val low_bits) low_val
             in Some (CUInt ((high_bits + low_bits) mod 2 ^ 64) result))
        | _ \<Rightarrow> None)
   | BitZeroExtend bits operand \<Rightarrow>
       (case operand of
          IRConst (CUInt orig_bits value) \<Rightarrow> Some (CUInt ((orig_bits + bits) mod 2 ^ 64) value)
        | _ \<Rightarrow> None)
   | BitSignExtend bits operand \<Rightarrow>
       (case operand of
          IRConst (CUInt orig_bits value) \<Rightarrow>
            (let new_bits = (orig_bits + bits) mod 2 ^ 64;
                 sign_bit = shl S 1 (usize_pred orig_bits)
             in if and value sign_bit \<noteq> 0
                then let extension_mask = shl S (shl S 1 bits - 1) orig_bits
                     in Some (CUInt new_bits (or value extension_mask))
                else Some (CUInt new_bits value))
        | _ \<Rightarrow> None))"

definition fold_node :: "shifts \<Rightarrow> IRNode \<Rightarrow> IRNode" where
  "fold_node S node = (case node of
     IRBinOp op lhs rhs \<Rightarrow>
       (case (lhs, rhs) of
          (IRConst c1, IRConst c2) \<Rightarrow>
            (case fold_binop S op c1 c2 of Some result \<Rightarrow> IRConst result | None \<Rightarrow> IRBinOp op lhs rhs)
        | _ \<Rightarrow> IRBinOp op lhs rhs)
   | IRUnOp op operand \<Rightarrow>
       (case operand of
          IRConst c \<Rightarrow>
            (case fold_unop S op c of Some result \<Rightarrow> IRConst result | None \<Rightarrow> IRUnOp op operand)
        | _ \<Rightarrow> IRUnOp op operand)
   | IRBitOp bit_op \<Rightarrow>
       (case fold_bitop S bit_op of Some result \<Rightarrow> IRConst result | None \<Rightarrow> IRBitOp bit_op)
   | IRIf cond then_branch else_branch \<Rightarrow>
       (case cond of
          IRConst (CBool b) \<Rightarrow> if b then then_branch else else_branch
        | _ \<Rightarrow> IRIf cond then_branch else_branch)
   | other \<Rightarrow> other)"

definition fold_constants :: "shifts \<Rightarrow> IRNode \<Rightarrow> IRNode option" where
  "fold_constants S n = ir_map (fold_node S) n"

section \<open>Each fold computes what the operator does\<close>


lemma mask_to_bits_take: "mask_to_bits S v b = (if b \<ge> 256 then v else take_bit b v)"
  by (simp add: mask_to_bits_def shl_def take_bit_eq_mask mask_eq_decr_exp push_bit_eq_mult)

lemma mask_to_bits_256: "mask_to_bits S v b = take_bit b v"
  by (auto simp: mask_to_bits_take take_bit_word_eq_self)

lemma take_bit_word_small: "unat v < 2 ^ t \<Longrightarrow> take_bit t v = (v :: U256)"
  by (metis take_bit_nat_eq_self unsigned_take_bit_eq unsigned_word_eqI)

lemma uint_result_Some:
  "uint_result b n = Some v \<longleftrightarrow> b \<le> 256 \<and> n < 2 ^ b \<and> v = VUInt b (of_nat n)"
  by (auto simp: uint_result_def)

lemma take_bit_of_nat_small: "b \<le> 256 \<Longrightarrow> n < 2 ^ b \<Longrightarrow> take_bit b (of_nat n :: U256) = of_nat n"
  by (metis take_bit_nat_eq_self take_bit_of_nat)

lemma fold_arith:
  assumes "op \<noteq> OpShl" "op \<noteq> OpShr" "arith_op op b v w = Some r"
  shows "\<exists>c. fold_binop S op (CUInt b v) (CUInt b w) = Some c \<and> const_val c = r"
proof (cases op)
  case OpAdd
  with assms show ?thesis
    by (auto simp: fold_binop_def uint_result_Some mask_to_bits_256 dest: take_bit_of_nat_small)
next
  case OpSub
  with assms show ?thesis
    by (auto simp: fold_binop_def uint_result_Some mask_to_bits_256 word_le_nat_alt of_nat_diff
        dest: take_bit_of_nat_small split: if_splits)
next
  case OpMul
  with assms show ?thesis
    by (auto simp: fold_binop_def uint_result_Some mask_to_bits_256 dest: take_bit_of_nat_small)
qed (use assms in \<open>auto simp: fold_binop_def split: if_splits\<close>)

lemma min_255:
  "unat (s :: U256) < 256 \<Longrightarrow> min s 255 = s"
  by (simp add: min_def word_le_nat_alt)

lemma fold_shift:
  assumes "op = OpShl \<or> op = OpShr" "shift_op op b v s = Some r"
  shows "\<exists>c. fold_binop S op (CUInt b v) (CUInt b' s) = Some c \<and> const_val c = r"
proof -
  have "unat s < 256" using assms(2) by (auto simp: shift_op_def split: if_splits)
  then show ?thesis using assms
    by (auto simp: fold_binop_def shift_op_def mask_to_bits_256 min_255 shl_def shr_def split: if_splits)
qed

lemma fold_binop_value:
  assumes "bin_val op (const_val c1) (const_val c2) = Some r" "fold_binop S op c1 c2 = Some c"
  shows "const_val c = r"
proof (cases c1; cases c2)
  fix b1 v b2 w assume c: "c1 = CUInt b1 v" "c2 = CUInt b2 w"
  show ?thesis
  proof (cases "op = OpShl \<or> op = OpShr")
    case True
    then show ?thesis using assms c fold_shift [of op b1 v w r S b2] by auto
  next
    case False
    then show ?thesis using assms c fold_arith [of op b1 v w r S] by (auto split: if_splits)
  qed
next
  fix a b assume c: "c1 = CBool a" "c2 = CBool b"
  then show ?thesis using assms by (cases op) (auto simp: fold_binop_def)
qed (use assms in \<open>cases op; auto simp: fold_binop_def\<close>)+

lemma fold_unop_value:
  assumes "un_val op (const_val c) = Some r" "fold_unop S op c = Some d"
  shows "const_val d = r"
proof (cases op; cases c)
  fix t b v assume c: "op = OpCast t" "c = CUInt b v"
  show ?thesis
  proof (cases "t < 256")
    case True
    with assms c have "unat v < 2 ^ t" by (auto split: if_splits)
    then have "take_bit t v = v" by (simp add: take_bit_word_small)
    then show ?thesis using assms c True by (auto simp: mask_to_bits_256 split: if_splits)
  next
    case False
    then show ?thesis using assms c by (auto simp: mask_to_bits_take)
  qed
qed (use assms in \<open>auto simp: mask_to_bits_256\<close>)

lemma extract_width_small: "l \<le> h \<Longrightarrow> h < 256 \<Longrightarrow> extract_width h l = h - l + 1"
  by (simp add: extract_width_def nat_diff_distrib' of_nat_diff)

lemma usize_pred_small: "0 < n \<Longrightarrow> n \<le> 256 \<Longrightarrow> usize_pred n = n - 1"
  by (simp add: usize_pred_def nat_diff_distrib' of_nat_diff)

definition full_extract :: "IRNode \<Rightarrow> bool" where
  "full_extract n = (case n of IRBitOp (BitExtract h l _) \<Rightarrow> h - l = 255 | _ \<Rightarrow> False)"

lemma full_extract_set [simp]: "full_extract (set_children n cs) = full_extract n"
  by (cases n) (auto simp: full_extract_def split: BitOp.splits intro: bitop_set_children.elims)

lemma fold_extract:
  assumes "bit_val (BitExtract h l (const_val c)) = Some r" "h - l \<noteq> 255"
    "fold_bitop S (BitExtract h l (IRConst c)) = Some d"
  shows "const_val d = r"
proof (cases c)
  case (CUInt b v)
  with assms have "l \<le> h" "h < b" "b \<le> 256" by (auto split: if_splits)
  then have "extract_width h l = h - l + 1" "h - l + 1 < 256" "l < 256"
    using assms(2) extract_width_small by auto
  then show ?thesis using CUInt assms
    by (auto simp: fold_bitop_def shl_def shr_def take_bit_eq_mask mask_eq_decr_exp
        push_bit_eq_mult Let_def split: if_splits)
qed (use assms in \<open>auto\<close>)

lemma fold_concat:
  assumes "bit_val (BitConcat (const_val c1) (const_val c2)) = Some r"
    "fold_bitop S (BitConcat (IRConst c1) (IRConst c2)) = Some d"
  shows "const_val d = r"
  using assms
  by (cases c1; cases c2) (auto simp: fold_bitop_def shl_def split: if_splits)

lemma fold_sign_extend:
  assumes "bit_val (BitSignExtend n (const_val c)) = Some r"
    "fold_bitop S (BitSignExtend n (IRConst c)) = Some d"
  shows "const_val d = r"
proof (cases c)
  case (CUInt b v)
  with assms have b: "0 < b" "0 < n" "b + n \<le> 256" by (auto split: if_splits)
  then have "usize_pred b = b - 1" "b < 256" "n < 256" by (auto simp: usize_pred_small)
  moreover have "and v (push_bit (b - 1) 1) \<noteq> 0 \<longleftrightarrow> bit v (b - 1)"
    by (simp add: bit_iff_and_push_bit_not_eq_0)
  ultimately show ?thesis using CUInt assms b
    by (auto simp: fold_bitop_def shl_def mask_eq_decr_exp push_bit_eq_mult Let_def split: if_splits)
qed (use assms in \<open>auto\<close>)

lemma fold_zero_extend:
  assumes "bit_val (BitZeroExtend n (const_val c)) = Some r"
    "fold_bitop S (BitZeroExtend n (IRConst c)) = Some d"
  shows "const_val d = r"
  using assms by (cases c) (auto simp: fold_bitop_def split: if_splits)

text \<open>A bit operation is folded only when its operands are constants.\<close>

lemma fold_bitop_consts:
  assumes "fold_bitop S b = Some d"
  obtains (extr) h l c where "b = BitExtract h l (IRConst c)"
    | (concat) c1 c2 where "b = BitConcat (IRConst c1) (IRConst c2)"
    | (zero_ext) n c where "b = BitZeroExtend n (IRConst c)"
    | (sign_ext) n c where "b = BitSignExtend n (IRConst c)"
  using assms unfolding fold_bitop_def
  by (auto split: BitOp.splits IRNode.splits Const.splits prod.splits)

lemma fold_bitop_value:
  assumes "eval I env (IRBitOp b) = Some r" "fold_bitop S b = Some d" "\<not> full_extract (IRBitOp b)"
  shows "const_val d = r"
  using assms(2)
proof (cases rule: fold_bitop_consts)
  case (extr h l c)
  then show ?thesis using assms fold_extract [of h l c r S d] by (simp add: full_extract_def)
next
  case (concat c1 c2)
  then show ?thesis using assms fold_concat [of c1 c2 r S d] by simp
next
  case (zero_ext n c)
  then show ?thesis using assms fold_zero_extend [of n c r S d] by simp
next
  case (sign_ext n c)
  then show ?thesis using assms fold_sign_extend [of n c r S d] by simp
qed

section \<open>The pass\<close>

lemma fold_node_refines:
  assumes "\<not> full_extract n"
  shows "refines I n (fold_node S n)"
proof (cases n)
  case (IRBinOp op l r)
  then show ?thesis
    by (auto simp: fold_node_def split: IRNode.splits option.splits
        intro!: refinesI dest: fold_binop_value)
next
  case (IRUnOp op x)
  then show ?thesis
    by (auto simp: fold_node_def split: IRNode.splits option.splits
        intro!: refinesI dest: fold_unop_value)
next
  case (IRBitOp b)
  then show ?thesis using assms
    by (auto simp: fold_node_def simp del: eval.simps split: option.splits intro!: refinesI)
     (simp add: fold_bitop_value)
next
  case (IRIf c t e)
  then show ?thesis
    by (auto simp: fold_node_def split: IRNode.splits Const.splits intro!: refinesI)
qed (auto simp: fold_node_def)

lemma fold_node_ok: "all_nodes P n \<Longrightarrow> (\<And>c. P (IRConst c)) \<Longrightarrow> all_nodes P (fold_node S n)"
  unfolding fold_node_def
  by (auto split: IRNode.splits option.splits Const.splits simp: all_nodes_unfold [of P "IRConst _"]
      dest: all_nodes_child)

lemma fold_node_cases:
  "fold_node S n = n \<or> (\<exists>c. fold_node S n = IRConst c) \<or> fold_node S n \<in> set (children n)"
  unfolding fold_node_def by (auto split: IRNode.splits option.splits Const.splits)

interpretation fold_pass: node_rewrite "fold_node S" "all_nodes (\<lambda>m. \<not> full_extract m)" for S
proof
  fix n c I and cs :: "IRNode list"
  let ?ok = "all_nodes (\<lambda>m. \<not> full_extract m)"
  assume ok: "?ok n"
  show "c \<in> set (children n) \<Longrightarrow> ?ok c" using ok by (rule all_nodes_child)
  show "length cs = length (children n) \<Longrightarrow> \<forall>c\<in>set cs. ?ok c \<Longrightarrow> ?ok (set_children n cs)"
    using all_nodes_root [OF ok] by (intro all_nodes_set) auto
  show "?ok (fold_node S n)" using ok by (rule fold_node_ok) (simp add: full_extract_def)
  show "refines I n (fold_node S n)" using all_nodes_root [OF ok] by (rule fold_node_refines)
qed

interpretation fold_normal: normalising "fold_node S" for S
proof
  fix n assume c: "\<forall>c\<in>set (children n). normal_form (fold_node S) c"
  show "normal_form (fold_node S) (fold_node S n)"
    using fold_node_cases [of S n] c
    by (elim disjE) (auto simp: normal_form_unfold [of _ n] normal_form_unfold [of _ "IRConst _"]
       fold_node_def)
qed

lemmas fold_constants_refine = fold_pass.map_refines [folded fold_constants_def]
lemmas fold_constants_idem = fold_normal.map_idem [folded fold_constants_def]

section \<open>Constants stay in range\<close>

fun in_range :: "Const \<Rightarrow> bool" where
  "in_range (CUInt bits v) = (bits \<le> 256 \<and> (bits < 256 \<longrightarrow> unat v < 2 ^ bits))"
| "in_range _ = True"

lemma unat_take_bit_less: "unat (take_bit b (v :: U256)) < 2 ^ b"
  by (simp add: unsigned_take_bit_eq)

lemma in_range_masked: "bits \<le> 256 \<Longrightarrow> in_range (CUInt bits (mask_to_bits S v bits))"
  by (simp add: mask_to_bits_256 unat_take_bit_less)

lemma in_range_256: "in_range (CUInt b v) \<longleftrightarrow> b \<le> 256 \<and> take_bit b v = v"
proof
  assume r: "in_range (CUInt b v)"
  show "b \<le> 256 \<and> take_bit b v = v"
  proof (cases "b < 256")
    case True
    then show ?thesis using r take_bit_word_small by simp
  next
    case False
    then show ?thesis using r by (simp add: take_bit_word_eq_self)
  qed
next
  assume t: "b \<le> 256 \<and> take_bit b v = v"
  have "unat (take_bit b v) < 2 ^ b" by (rule unat_take_bit_less)
  then show "in_range (CUInt b v)" using t by simp
qed

lemma in_range_le: "in_range (CUInt b v) \<Longrightarrow> unat w \<le> unat v \<Longrightarrow> in_range (CUInt b w)"
  by auto

lemma in_range_widen: "in_range (CUInt b v) \<Longrightarrow> b \<le> c \<Longrightarrow> c \<le> 256 \<Longrightarrow> in_range (CUInt c v)"
proof -
  assume a: "in_range (CUInt b v)" "b \<le> c" "c \<le> 256"
  then have "take_bit c v = v" by (metis in_range_256 take_bit_take_bit min.absorb2)
  then show ?thesis using a by (simp only: in_range_256)
qed

lemma in_range_bitwise:
  assumes "in_range (CUInt b v)" "in_range (CUInt b w)"
  shows "in_range (CUInt b (and v w))" "in_range (CUInt b (or v w))" "in_range (CUInt b (xor v w))"
  using assms unfolding in_range_256 by (simp_all add: take_bit_and take_bit_or take_bit_xor)

lemma fold_binop_in_range:
  assumes "in_range c1" "in_range c2" "fold_binop S op c1 c2 = Some c"
  shows "in_range c"
proof (cases c1; cases c2)
  fix b1 v b2 w assume c: "c1 = CUInt b1 v" "c2 = CUInt b2 w"
  let ?b = "max b1 b2"
  have b: "?b \<le> 256" "b1 \<le> 256" using assms(1,2) c by (auto simp: in_range_256 simp del: in_range.simps(1))
  have w: "in_range (CUInt ?b v)" "in_range (CUInt ?b w)"
    using assms(1,2) in_range_widen b c by (metis max.cobounded1, metis max.cobounded2)
  have "unat (min w 255) \<le> 255" by (simp add: min_def word_le_nat_alt)
  then have sh: "unat (min w 255) < 256" by simp
  have d: "in_range (CUInt ?b (v div w))" "in_range (CUInt ?b (v mod w))"
    "in_range (CUInt b1 (drop_bit k v))" for k
    using in_range_le [OF w(1), of "v div w"] in_range_le [OF w(1), of "v mod w"]
      in_range_le [of b1 v "drop_bit k v"] assms(1) c
    by (simp_all add: unat_div unat_mod drop_bit_eq_div unsigned_drop_bit_eq div_le_dividend del: in_range.simps(1))
  show ?thesis
    using assms(3) c w d b sh in_range_bitwise [OF w] in_range_masked
    by (cases op) (auto simp: fold_binop_def shr_def Let_def split: if_splits simp del: in_range.simps(1))
qed (use assms in \<open>cases op; auto simp: fold_binop_def\<close>)+

section \<open>Properties\<close>

text \<open>
  C10: constant folding never fails and refines the tree: every value the tree
  has is kept, in every environment and under every interpretation of calls.
  Excluded are trees with a full-width \<open>Extract\<close> of 256 bits.
\<close>

theorem fold_constants_preserves:
  assumes "mono_interp I" "all_nodes (\<lambda>m. \<not> full_extract m) n"
  shows "\<exists>m. fold_constants S n = Some m \<and> refines I n m"
  using fold_constants_refine [OF assms] by blast

theorem fold_constants_preserves_witness:
  "\<exists>m. fold_constants \<lparr>shl_over = (\<lambda>_ _. 0), shr_over = (\<lambda>_ _. 0)\<rparr>
      (IRBinOp OpMul (IRVar ''x'') (IRBinOp OpAdd (IRConst (CUInt 8 2)) (IRConst (CUInt 8 3)))) = Some m
    \<and> refines empty_interp
        (IRBinOp OpMul (IRVar ''x'') (IRBinOp OpAdd (IRConst (CUInt 8 2)) (IRConst (CUInt 8 3)))) m"
  by (rule fold_constants_preserves) (simp_all add: all_nodes_def iter_def full_extract_def)

text \<open>A second run of constant folding changes nothing.\<close>

theorem fold_constants_idempotent:
  assumes "fold_constants S n = Some m"
  shows "fold_constants S m = Some m"
  using assms by (rule fold_constants_idem)

theorem fold_constants_idempotent_witness:
  "fold_constants \<lparr>shl_over = (\<lambda>_ _. 0), shr_over = (\<lambda>_ _. 0)\<rparr> (IRConst (CBool True)) = Some (IRConst (CBool True))"
proof (rule fold_constants_idempotent)
  show "fold_constants \<lparr>shl_over = (\<lambda>_ _. 0), shr_over = (\<lambda>_ _. 0)\<rparr>
    (IRIf (IRConst (CBool True)) (IRConst (CBool True)) (IRVar ''x'')) = Some (IRConst (CBool True))"
    by (simp add: fold_constants_def ir_map_eq map_ir.simps fold_node_def)
qed

text \<open>C20: a binary fold of two constants that fit their widths fits its own.\<close>

theorem fold_binop_range:
  assumes "in_range c1" "in_range c2" "fold_binop S op c1 c2 = Some c"
  shows "in_range c"
  using assms by (rule fold_binop_in_range)

theorem fold_binop_range_witness: "in_range (CUInt 8 44)"
proof (rule fold_binop_range)
  show "fold_binop \<lparr>shl_over = (\<lambda>_ _. 0), shr_over = (\<lambda>_ _. 0)\<rparr> OpAdd (CUInt 8 200) (CUInt 8 100) = Some (CUInt 8 44)"
    by (simp add: fold_binop_def mask_to_bits_256 take_bit_eq_mod unsigned_of_nat)
qed simp_all

text \<open>
  C21: an addition that overflows its width is folded to the sum modulo the width,
  where Move aborts.
\<close>

theorem fold_add_wraps:
  assumes "bits < 256" "unat v + unat w < 2 ^ 256" "2 ^ bits \<le> unat v + unat w"
  shows "fold_binop S OpAdd (CUInt bits v) (CUInt bits w) = Some (CUInt bits (of_nat ((unat v + unat w) mod 2 ^ bits)))
    \<and> eval I env (IRBinOp OpAdd (IRConst (CUInt bits v)) (IRConst (CUInt bits w))) = None"
proof -
  have "v + w = of_nat (unat v + unat w)" by simp
  then have "take_bit bits (v + w) = of_nat ((unat v + unat w) mod 2 ^ bits)"
    by (metis take_bit_of_nat take_bit_eq_mod)
  then show ?thesis using assms by (simp add: fold_binop_def mask_to_bits_256 uint_result_def)
qed

theorem fold_add_wraps_witness:
  "fold_binop \<lparr>shl_over = (\<lambda>_ _. 0), shr_over = (\<lambda>_ _. 0)\<rparr> OpAdd (CUInt 8 255) (CUInt 8 1) =
      Some (CUInt 8 (of_nat ((unat (255 :: U256) + unat (1 :: U256)) mod 2 ^ 8)))
   \<and> eval empty_interp Map.empty (IRBinOp OpAdd (IRConst (CUInt 8 255)) (IRConst (CUInt 8 1))) = None"
  by (rule fold_add_wraps) simp_all

end
