(* ===== verification/LogicalSimplification.thy ===== *)
theory LogicalSimplification
  imports IRSemantics
begin

text \<open>
  The logical simplification pass
  (\<open>intermediate-theorem-format/src/analysis/logical_simplification.rs\<close>): negations
  pushed into comparisons, boolean identities, conditionals with constant or equal
  branches.  \<open>is_pure_expr\<close> decides which \<open>let\<close> values \<open>evaluates_to_bool\<close> looks
  through.  The theory shows that the answer of \<open>evaluates_to_bool\<close> is the value of
  the tree, and that the pass refines the tree it is given.
\<close>

section \<open>The rules\<close>

definition simplify_not :: "IRNode \<Rightarrow> IRNode" where
  "simplify_not inner = (case inner of
     IRUnOp OpNot operand \<Rightarrow> operand
   | IRBinOp OpNeq lhs rhs \<Rightarrow> IRBinOp OpEq lhs rhs
   | IRBinOp OpEq lhs rhs \<Rightarrow> IRBinOp OpNeq lhs rhs
   | IRBinOp OpLt lhs rhs \<Rightarrow> IRBinOp OpGe lhs rhs
   | IRBinOp OpLe lhs rhs \<Rightarrow> IRBinOp OpGt lhs rhs
   | IRBinOp OpGt lhs rhs \<Rightarrow> IRBinOp OpLe lhs rhs
   | IRBinOp OpGe lhs rhs \<Rightarrow> IRBinOp OpLt lhs rhs
   | other \<Rightarrow> IRUnOp OpNot other)"

fun is_pure_expr :: "IRNode \<Rightarrow> bool" where
  "is_pure_expr (IRConst _) = True"
| "is_pure_expr (IRVar _) = True"
| "is_pure_expr (IRTuple elems) = list_all is_pure_expr elems"
| "is_pure_expr (IRBinOp _ lhs rhs) = (is_pure_expr lhs \<and> is_pure_expr rhs)"
| "is_pure_expr (IRUnOp _ operand) = is_pure_expr operand"
| "is_pure_expr (IRLet _ v body) = (is_pure_expr v \<and> is_pure_expr body)"
| "is_pure_expr (IRIf c t e) = (is_pure_expr c \<and> is_pure_expr t \<and> is_pure_expr e)"
| "is_pure_expr _ = False"

fun and_bool :: "bool option \<Rightarrow> bool option \<Rightarrow> bool option" where
  "and_bool (Some False) _ = Some False"
| "and_bool _ (Some False) = Some False"
| "and_bool (Some True) (Some True) = Some True"
| "and_bool _ _ = None"

fun or_bool :: "bool option \<Rightarrow> bool option \<Rightarrow> bool option" where
  "or_bool (Some True) _ = Some True"
| "or_bool _ (Some True) = Some True"
| "or_bool (Some False) (Some False) = Some False"
| "or_bool _ _ = None"

fun evaluates_to_bool :: "IRNode \<Rightarrow> bool option" where
  "evaluates_to_bool (IRConst (CBool b)) = Some b"
| "evaluates_to_bool (IRLet pattern v body) =
     (if pattern = [] \<and> \<not> is_pure_expr v then None else evaluates_to_bool body)"
| "evaluates_to_bool (IRIf _ t e) =
     (case (evaluates_to_bool t, evaluates_to_bool e) of
        (Some x, Some y) \<Rightarrow> if x = y then Some x else None
      | _ \<Rightarrow> None)"
| "evaluates_to_bool (IRUnOp OpNot operand) = map_option Not (evaluates_to_bool operand)"
| "evaluates_to_bool (IRBinOp OpAnd lhs rhs) =
     and_bool (evaluates_to_bool lhs) (evaluates_to_bool rhs)"
| "evaluates_to_bool (IRBinOp OpOr lhs rhs) =
     or_bool (evaluates_to_bool lhs) (evaluates_to_bool rhs)"
| "evaluates_to_bool _ = None"

definition simplify_binop :: "BinOp \<Rightarrow> IRNode \<Rightarrow> IRNode \<Rightarrow> IRNode" where
  "simplify_binop op lhs rhs =
     (case (op, evaluates_to_bool lhs, evaluates_to_bool rhs) of
        (OpAnd, Some True, _) \<Rightarrow> rhs
      | (OpAnd, _, Some True) \<Rightarrow> lhs
      | (OpAnd, Some False, _) \<Rightarrow> IRConst (CBool False)
      | (OpAnd, _, Some False) \<Rightarrow> IRConst (CBool False)
      | (OpOr, Some True, _) \<Rightarrow> IRConst (CBool True)
      | (OpOr, _, Some True) \<Rightarrow> IRConst (CBool True)
      | (OpOr, Some False, _) \<Rightarrow> rhs
      | (OpOr, _, Some False) \<Rightarrow> lhs
      | _ \<Rightarrow> IRBinOp op lhs rhs)"

definition simplify_if :: "IRNode \<Rightarrow> IRNode \<Rightarrow> IRNode \<Rightarrow> IRNode" where
  "simplify_if cond then_branch else_branch =
     (if then_branch = IRConst (CBool True) \<and> else_branch = IRConst (CBool False) then cond
      else if then_branch = IRConst (CBool False) \<and> else_branch = IRConst (CBool True)
      then IRUnOp OpNot cond
      else if then_branch = else_branch then then_branch
      else IRIf cond then_branch else_branch)"

definition simplify_node :: "IRNode \<Rightarrow> IRNode" where
  "simplify_node node = (case node of
     IRUnOp OpNot operand \<Rightarrow> simplify_not operand
   | IRBinOp op lhs rhs \<Rightarrow> simplify_binop op lhs rhs
   | IRIf cond then_branch else_branch \<Rightarrow> simplify_if cond then_branch else_branch
   | other \<Rightarrow> other)"

definition simplify :: "IRNode \<Rightarrow> IRNode option" where
  "simplify n = ir_map simplify_node n"

section \<open>The boolean analysis\<close>

lemma bool_op_Some:
  "bin_val OpAnd x y = Some v \<longleftrightarrow> (\<exists>a b. x = VBool a \<and> y = VBool b \<and> v = VBool (a \<and> b))"
  "bin_val OpOr x y = Some v \<longleftrightarrow> (\<exists>a b. x = VBool a \<and> y = VBool b \<and> v = VBool (a \<or> b))"
  by (cases x; cases y; auto)+

lemma eval_BinOp_Some:
  "eval I env (IRBinOp op l r) = Some v \<longleftrightarrow>
   (\<exists>x y. eval I env l = Some x \<and> eval I env r = Some y \<and> bin_val op x y = Some v)"
  by (cases "eval I env l"; cases "eval I env r") auto

lemma eval_UnOp_Some:
  "eval I env (IRUnOp op x) = Some v \<longleftrightarrow> (\<exists>w. eval I env x = Some w \<and> un_val op w = Some v)"
  by (cases "eval I env x") auto

lemma un_val_Not: "un_val OpNot w = Some v \<longleftrightarrow> (\<exists>b. w = VBool b \<and> v = VBool (\<not> b))"
  by (cases w) auto

lemma and_bool_Some:
  "and_bool p q = Some b \<Longrightarrow> (\<And>a. p = Some a \<Longrightarrow> x = a) \<Longrightarrow> (\<And>a. q = Some a \<Longrightarrow> y = a) \<Longrightarrow> b = (x \<and> y)"
  by (cases "(p, q)" rule: and_bool.cases) auto

lemma or_bool_Some:
  "or_bool p q = Some b \<Longrightarrow> (\<And>a. p = Some a \<Longrightarrow> x = a) \<Longrightarrow> (\<And>a. q = Some a \<Longrightarrow> y = a) \<Longrightarrow> b = (x \<or> y)"
  by (cases "(p, q)" rule: or_bool.cases) auto

lemma evaluates_to_bool_value:
  "evaluates_to_bool n = Some b \<Longrightarrow> eval I env n = Some v \<Longrightarrow> v = VBool b"
proof (induction n arbitrary: b env v rule: evaluates_to_bool.induct)
  case (2 pattern v body)
  then show ?case by (auto simp: eval_Let_Some simp del: eval.simps split: if_splits)
next
  case (3 c t e)
  then show ?case
    by (auto simp: eval_If_Some simp del: eval.simps split: if_splits option.splits)
next
  case (4 operand)
  then show ?case by (auto simp: eval_UnOp_Some un_val_Not simp del: eval.simps)
next
  case (5 lhs rhs)
  obtain x y where xy: "eval I env lhs = Some (VBool x)" "eval I env rhs = Some (VBool y)" "v = VBool (x \<and> y)"
    using "5.prems"(2) unfolding eval_BinOp_Some bool_op_Some by blast
  have "b = (x \<and> y)"
    using "5.prems"(1) "5.IH"(1) [OF _ xy(1)] "5.IH"(2) [OF _ xy(2)]
    by (intro and_bool_Some [where x = x and y = y]) auto
  then show ?case using xy(3) by simp
next
  case (6 lhs rhs)
  obtain x y where xy: "eval I env lhs = Some (VBool x)" "eval I env rhs = Some (VBool y)" "v = VBool (x \<or> y)"
    using "6.prems"(2) unfolding eval_BinOp_Some bool_op_Some by blast
  have "b = (x \<or> y)"
    using "6.prems"(1) "6.IH"(1) [OF _ xy(1)] "6.IH"(2) [OF _ xy(2)]
    by (intro or_bool_Some [where x = x and y = y]) auto
  then show ?case using xy(3) by simp
qed auto

section \<open>Every rule refines\<close>

lemma bin_val_negated:
  "bin_val OpNeq x y = Some (VBool b) \<Longrightarrow> bin_val OpEq x y = Some (VBool (\<not> b))"
  "bin_val OpEq x y = Some (VBool b) \<Longrightarrow> bin_val OpNeq x y = Some (VBool (\<not> b))"
  "bin_val OpLt x y = Some (VBool b) \<Longrightarrow> bin_val OpGe x y = Some (VBool (\<not> b))"
  "bin_val OpLe x y = Some (VBool b) \<Longrightarrow> bin_val OpGt x y = Some (VBool (\<not> b))"
  "bin_val OpGt x y = Some (VBool b) \<Longrightarrow> bin_val OpLe x y = Some (VBool (\<not> b))"
  "bin_val OpGe x y = Some (VBool b) \<Longrightarrow> bin_val OpLt x y = Some (VBool (\<not> b))"
  by (cases x; cases y; auto split: if_splits)+

lemma simplify_not_refines: "refines I (IRUnOp OpNot n) (simplify_not n)"
  unfolding simplify_not_def
  by (auto intro!: refinesI simp: eval_UnOp_Some un_val_Not eval_BinOp_Some
      simp del: eval.simps bin_val.simps split: IRNode.splits UnOp.splits BinOp.splits)
    (blast dest: bin_val_negated)+

lemma simplify_binop_refines: "refines I (IRBinOp op l r) (simplify_binop op l r)"
proof (rule refinesI)
  fix env v assume e: "eval I env (IRBinOp op l r) = Some v"
  then obtain x y where xy: "eval I env l = Some x" "eval I env r = Some y" "bin_val op x y = Some v"
    unfolding eval_BinOp_Some by blast
  have l: "x = VBool b" if "evaluates_to_bool l = Some b" for b
    using evaluates_to_bool_value [OF that xy(1)] .
  have r: "y = VBool b" if "evaluates_to_bool r = Some b" for b
    using evaluates_to_bool_value [OF that xy(2)] .
  show "eval I env (simplify_binop op l r) = Some v"
  proof (cases "op = OpAnd \<or> op = OpOr")
    case True
    then obtain a b where ab: "x = VBool a" "y = VBool b"
      using xy(3) by (auto simp: bool_op_Some)
    have "evaluates_to_bool l = None \<or> evaluates_to_bool l = Some a"
      using l ab by (cases "evaluates_to_bool l") auto
    moreover have "evaluates_to_bool r = None \<or> evaluates_to_bool r = Some b"
      using r ab by (cases "evaluates_to_bool r") auto
    ultimately show ?thesis using True xy e ab
      by (elim disjE; cases a; cases b; simp add: simplify_binop_def)
  next
    case False
    then have "simplify_binop op l r = IRBinOp op l r"
      by (cases op) (simp_all add: simplify_binop_def)
    then show ?thesis using e by simp
  qed
qed

lemma simplify_if_refines: "refines I (IRIf c t e) (simplify_if c t e)"
  unfolding simplify_if_def
  by (auto intro!: refinesI simp: eval_If_Some eval_UnOp_Some simp del: eval.simps(3) split: if_splits)

lemma simplify_node_refines: "refines I n (simplify_node n)"
  unfolding simplify_node_def
  by (auto split: IRNode.splits UnOp.splits
      intro: simplify_not_refines simplify_binop_refines simplify_if_refines)

interpretation simplify_pass: node_rewrite simplify_node "\<lambda>_. True"
  by unfold_locales (auto intro: simplify_node_refines)

lemmas simplify_refine = simplify_pass.map_refines [folded simplify_def]

section \<open>Properties\<close>

text \<open>C11: logical simplification never fails and refines the tree it is given.\<close>

theorem simplify_preserves:
  assumes "mono_interp I"
  shows "\<exists>m. simplify n = Some m \<and> refines I n m"
  using simplify_refine [OF assms] by blast

theorem simplify_preserves_witness:
  "\<exists>m. simplify (IRUnOp OpNot (IRBinOp OpLt (IRVar ''a'') (IRVar ''b''))) = Some m
    \<and> refines empty_interp (IRUnOp OpNot (IRBinOp OpLt (IRVar ''a'') (IRVar ''b''))) m"
  by (rule simplify_preserves) simp

text \<open>C22: a boolean that \<open>evaluates_to_bool\<close> predicts is the value of the tree wherever it has one.\<close>

theorem evaluates_to_bool_sound:
  assumes "evaluates_to_bool n = Some b" "eval I env n = Some v"
  shows "v = VBool b"
  using assms by (rule evaluates_to_bool_value)

theorem evaluates_to_bool_sound_witness: "VBool False = VBool False"
proof (rule evaluates_to_bool_sound)
  show "evaluates_to_bool (IRBinOp OpAnd (IRVar ''x'') (IRConst (CBool False))) = Some False" by simp
  show "eval empty_interp [''x'' \<mapsto> VBool True] (IRBinOp OpAnd (IRVar ''x'') (IRConst (CBool False))) = Some (VBool False)"
    by simp
qed

text \<open>
  A call bound by a non-empty pattern is looked through although it is no pure
  expression, and so is the condition of a conditional.
\<close>

lemma looks_through_call:
  "evaluates_to_bool (IRLet [''x''] (IRCall f [] []) (IRConst (CBool b))) = Some b
   \<and> \<not> is_pure_expr (IRCall f [] [])"
  by simp

end
