(* ===== verification/DeadCode.thy ===== *)
theory DeadCode
  imports IRSemantics
begin

text \<open>
  The dead code removal pass
  (\<open>intermediate-theorem-format/src/analysis/dead_code_removal.rs\<close>): a \<open>let\<close> of a
  pure value none of whose names is used is dropped, and the unused names of a
  longer pattern become wildcards.  \<open>used\<close> is computed once, on the input tree, by
  \<open>used_vars\<close>, which leaves out every \<open>Var\<close> that has the name of a \<open>MutableBorrow\<close>
  parameter anywhere in the tree.  The pass refines its input when no \<open>let\<close> binds
  such a name; \<open>shadowed_by_borrow\<close> is a tree where one does.
\<close>

section \<open>The pass\<close>

fun is_pure :: "IRNode \<Rightarrow> bool" where
  "is_pure (IRVar _) = True"
| "is_pure (IRConst _) = True"
| "is_pure (IRBinOp _ lhs rhs) = (is_pure lhs \<and> is_pure rhs)"
| "is_pure (IRUnOp _ operand) = is_pure operand"
| "is_pure (IRTuple elems) = list_all is_pure elems"
| "is_pure (IRField _ _ base) = is_pure base"
| "is_pure (IRCall _ _ _) = False"
| "is_pure _ = False"

fun is_dead_let :: "TempId set \<Rightarrow> IRNode \<Rightarrow> bool" where
  "is_dead_let used (IRLet pattern v _) = (list_all (\<lambda>n. n \<notin> used) pattern \<and> is_pure v)"
| "is_dead_let used _ = False"

definition dead_let_step :: "TempId set \<Rightarrow> IRNode \<Rightarrow> IRNode" where
  "dead_let_step used node =
     (if is_dead_let used node then (case node of IRLet _ _ body \<Rightarrow> body | _ \<Rightarrow> node) else node)"

definition remove_dead_lets :: "IRNode \<Rightarrow> TempId set \<Rightarrow> IRNode option" where
  "remove_dead_lets ir used = ir_map (dead_let_step used) ir"

fun tuple_pattern_step :: "TempId set \<Rightarrow> IRNode \<Rightarrow> IRNode" where
  "tuple_pattern_step used (IRLet pattern v body) =
     (if length pattern > 1
      then IRLet (map (\<lambda>v. if v \<in> used then v else ''_'') pattern) v body
      else IRLet pattern v body)"
| "tuple_pattern_step used other = other"

definition simplify_tuple_patterns :: "IRNode \<Rightarrow> TempId set \<Rightarrow> IRNode option" where
  "simplify_tuple_patterns ir used = ir_map (tuple_pattern_step used) ir"

definition remove_dead_code :: "IRNode \<Rightarrow> IRNode option" where
  "remove_dead_code ir =
     (let used = set (used_vars ir) in
      case remove_dead_lets ir used of
        None \<Rightarrow> None
      | Some ir' \<Rightarrow> simplify_tuple_patterns ir' used)"

section \<open>The trees the pass may rewrite\<close>

text \<open>
  What a node may read and bind: names outside \<open>used\<close> are read only inside a borrow
  of the same name, and those names are bound by no \<open>let\<close>.
\<close>

fun let_names :: "IRNode \<Rightarrow> TempId set" where
  "let_names (IRLet p _ _) = set p - {''_''}"
| "let_names _ = {}"

definition borrow_safe :: "TempId set \<Rightarrow> TempId set \<Rightarrow> IRNode \<Rightarrow> bool" where
  "borrow_safe used B n \<longleftrightarrow> node_reads n \<subseteq> used \<union> B \<and> let_names n \<inter> B = {}"

lemma let_names_set [simp]: "let_names (set_children n cs) = let_names n"
  by (cases n) auto

lemma borrow_safe_set [simp]: "borrow_safe used B (set_children n cs) = borrow_safe used B n"
  by (simp add: borrow_safe_def)

lemma safe_names_read: "all_nodes (borrow_safe used B) n \<Longrightarrow> names_read n \<subseteq> used \<union> B"
  unfolding all_nodes_def names_read_def borrow_safe_def by blast

lemma safe_set:
  "all_nodes (borrow_safe used B) n \<Longrightarrow> length cs = length (children n) \<Longrightarrow>
   (\<forall>c\<in>set cs. all_nodes (borrow_safe used B) c) \<Longrightarrow> all_nodes (borrow_safe used B) (set_children n cs)"
  using all_nodes_root by (intro all_nodes_set) auto

section \<open>Dropping a let\<close>

lemma dead_let_step_cases:
  "dead_let_step used n = n \<or>
   (\<exists>p v b. n = IRLet p v b \<and> dead_let_step used n = b \<and> set p \<inter> used = {} \<and> is_pure v)"
  by (cases n) (auto simp: dead_let_step_def list_all_iff)

lemma dead_let_step_child:
  "dead_let_step used n = n \<or> dead_let_step used n \<in> set (children n)"
  by (cases n) (auto simp: dead_let_step_def)

lemma dead_let_refines:
  assumes "all_nodes (borrow_safe used B) (IRLet p v b)" "set p \<inter> used = {}"
  shows "refines I (IRLet p v b) b"
proof (rule refinesI)
  fix env r assume "eval I env (IRLet p v b) = Some r"
  then obtain w env' where w: "bind_pattern p w env = Some env'" "eval I env' b = Some r"
    unfolding eval_Let_Some by blast
  have "all_nodes (borrow_safe used B) b" using assms(1) by (rule all_nodes_child) simp
  then have "lex_free b \<subseteq> used \<union> B" using safe_names_read lex_free_names_read by blast
  moreover have "(set p - {''_''}) \<inter> B = {}"
    using all_nodes_root [OF assms(1)] by (simp add: borrow_safe_def)
  ultimately have "agree_on (lex_free b) env' env"
    using assms(2) by (intro bind_pattern_agrees [OF w(1)]) blast
  then show "eval I env b = Some r" using eval_agree w(2) by metis
qed

interpretation dead_pass: node_rewrite "dead_let_step used" "all_nodes (borrow_safe used B)" for used B
proof
  fix n c I and cs :: "IRNode list"
  let ?ok = "all_nodes (borrow_safe used B)"
  assume ok: "?ok n"
  show "c \<in> set (children n) \<Longrightarrow> ?ok c" using ok by (rule all_nodes_child)
  show "length cs = length (children n) \<Longrightarrow> \<forall>c\<in>set cs. ?ok c \<Longrightarrow> ?ok (set_children n cs)"
    using ok by (rule safe_set)
  show "?ok (dead_let_step used n)"
    using dead_let_step_child [of used n] ok all_nodes_child by metis
  show "refines I n (dead_let_step used n)"
    using dead_let_step_cases [of used n] ok dead_let_refines refines_refl by metis
qed

interpretation dead_normal: normalising "dead_let_step used" for used
proof
  fix n assume c: "\<forall>c\<in>set (children n). normal_form (dead_let_step used) c"
  show "normal_form (dead_let_step used) (dead_let_step used n)"
  proof (cases "dead_let_step used n = n")
    case True
    then show ?thesis using c by (simp add: normal_form_unfold [of _ n])
  next
    case False
    then show ?thesis using dead_let_step_child [of used n] c by auto
  qed
qed

section \<open>Wildcards for unused names\<close>

lemma bind_all_wildcards:
  assumes "agree_on A e f"
  shows "bind_all p vs e = Some e' \<Longrightarrow> (\<forall>x\<in>set p. x \<in> used \<or> x \<notin> A) \<Longrightarrow>
    \<exists>f'. bind_all (map (\<lambda>v. if v \<in> used then v else ''_'') p) vs f = Some f' \<and> agree_on A e' f'"
  using assms
proof (induction p vs e arbitrary: f rule: bind_all.induct)
  case (2 x xs v vs env)
  let ?x = "if x \<in> used then x else ''_''"
  have "agree_on A (bind_var x v env) (bind_var ?x v f)"
    using "2.prems" by (auto simp: agree_on_def bind_var_def)
  then show ?case using "2.IH" "2.prems" by simp
qed auto

lemma tuple_pattern_refines:
  assumes "all_nodes (borrow_safe used B) (IRLet p v b)" "length p > 1"
  shows "refines I (IRLet p v b) (IRLet (map (\<lambda>v. if v \<in> used then v else ''_'') p) v b)"
proof (rule refinesI)
  fix env r assume "eval I env (IRLet p v b) = Some r"
  then obtain w env' where w: "eval I env v = Some w" "bind_pattern p w env = Some env'" "eval I env' b = Some r"
    unfolding eval_Let_Some by blast
  obtain x y q where p: "p = x # y # q" using assms(2) by (cases p; cases "tl p") auto
  obtain vs where vs: "w = VTuple vs" "bind_all p vs env = Some env'"
    using w(2) p by (cases w) auto
  have "all_nodes (borrow_safe used B) b" using assms(1) by (rule all_nodes_child) simp
  then have "lex_free b - {''_''} \<subseteq> used \<union> B" using safe_names_read lex_free_names_read by blast
  moreover have "(set p - {''_''}) \<inter> B = {}"
    using all_nodes_root [OF assms(1)] by (simp add: borrow_safe_def)
  ultimately have "\<forall>x\<in>set p. x \<in> used \<or> x \<notin> lex_free b - {''_''}" by blast
  from bind_all_wildcards [OF agree_on_refl vs(2) this]
  obtain f' where f': "bind_all (map (\<lambda>v. if v \<in> used then v else ''_'') p) vs env = Some f'"
    "agree_on (lex_free b - {''_''}) env' f'" by blast
  then have "eval I f' b = Some r"
    using w(3) eval_agree [of b env' f' I] by (simp add: agree_on_def)
  then show "eval I env (IRLet (map (\<lambda>v. if v \<in> used then v else ''_'') p) v b) = Some r"
    using w(1) f'(1) vs(1) p by (simp add: eval_Let_Some del: eval.simps)
qed

lemma tuple_pattern_step_cases:
  "tuple_pattern_step used n = n \<or> (\<exists>p v b. n = IRLet p v b \<and> length p > 1
     \<and> tuple_pattern_step used n = IRLet (map (\<lambda>v. if v \<in> used then v else ''_'') p) v b)"
  by (cases n) auto

interpretation tuple_pass: node_rewrite "tuple_pattern_step used" "all_nodes (borrow_safe used B)" for used B
proof
  fix n c I and cs :: "IRNode list"
  let ?ok = "all_nodes (borrow_safe used B)"
  assume ok: "?ok n"
  show "c \<in> set (children n) \<Longrightarrow> ?ok c" using ok by (rule all_nodes_child)
  show "length cs = length (children n) \<Longrightarrow> \<forall>c\<in>set cs. ?ok c \<Longrightarrow> ?ok (set_children n cs)"
    using ok by (rule safe_set)
  show "?ok (tuple_pattern_step used n)"
    using tuple_pattern_step_cases [of used n] ok
    by (auto simp: all_nodes_unfold [of _ "IRLet _ _ _"] borrow_safe_def)
  show "refines I n (tuple_pattern_step used n)"
    using tuple_pattern_step_cases [of used n] ok tuple_pattern_refines by auto
qed

interpretation tuple_normal: normalising "tuple_pattern_step used" for used
proof
  fix n assume "\<forall>c\<in>set (children n). normal_form (tuple_pattern_step used) c"
  then show "normal_form (tuple_pattern_step used) (tuple_pattern_step used n)"
    using tuple_pattern_step_cases [of used n]
    by (auto simp: normal_form_unfold [of _ n] normal_form_unfold [of _ "IRLet _ _ _"])
qed

section \<open>The whole pass\<close>

lemma input_borrow_safe:
  assumes "all_nodes (\<lambda>m. let_names m \<inter> set (binder_params n) = {}) n"
  shows "all_nodes (borrow_safe (set (used_vars n)) (set (binder_params n))) n"
  using assms names_read_used [of n] unfolding all_nodes_def borrow_safe_def names_read_def by blast

lemma remove_dead_code_refine:
  assumes "mono_interp I" "all_nodes (\<lambda>m. let_names m \<inter> set (binder_params n) = {}) n"
  shows "\<exists>m. remove_dead_code n = Some m \<and> refines I n m"
proof -
  obtain k where k: "ir_map (dead_let_step (set (used_vars n))) n = Some k" "refines I n k"
    "all_nodes (borrow_safe (set (used_vars n)) (set (binder_params n))) k"
    using dead_pass.map_refines [OF assms(1) input_borrow_safe [OF assms(2)]] by blast
  obtain m where "ir_map (tuple_pattern_step (set (used_vars n))) k = Some m" "refines I k m"
    using tuple_pass.map_refines [OF assms(1) k(3)] by blast
  then show ?thesis using k refines_trans
    by (auto simp: remove_dead_code_def remove_dead_lets_def simplify_tuple_patterns_def Let_def)
qed

text \<open>A let is dropped when a borrow elsewhere in the tree has a parameter of the same name.\<close>

definition shadowed_by_borrow :: IRNode where
  "shadowed_by_borrow = IRLet [''x''] (IRConst (CUInt 8 1))
     (IRTuple [IRVar ''x'', IRMutableBorrow (IRVar ''s'') ''x'' (IRVar ''x'') (TyUInt 8)])"

section \<open>Properties\<close>

text \<open>
  C12: dead code removal never fails and refines the tree, when no \<open>let\<close> binds the
  name of a borrow parameter.
\<close>

theorem remove_dead_code_preserves:
  assumes "mono_interp I" "all_nodes (\<lambda>m. let_names m \<inter> set (binder_params n) = {}) n"
  shows "\<exists>m. remove_dead_code n = Some m \<and> refines I n m"
  using assms by (rule remove_dead_code_refine)

theorem remove_dead_code_preserves_witness:
  "\<exists>m. remove_dead_code (IRLet [''x''] (IRConst (CUInt 8 1)) (IRLet [''a'', ''b''] (IRVar ''p'') (IRVar ''b''))) = Some m
    \<and> refines empty_interp (IRLet [''x''] (IRConst (CUInt 8 1)) (IRLet [''a'', ''b''] (IRVar ''p'') (IRVar ''b''))) m"
  by (rule remove_dead_code_preserves)
    (simp_all add: all_nodes_def iter_def binder_params_def List.map_filter_def)

text \<open>After one run no removable \<open>let\<close> is left, so a second run removes none.\<close>

theorem remove_dead_lets_complete:
  assumes "remove_dead_lets n used = Some m"
  shows "remove_dead_lets m used = Some m"
  using assms unfolding remove_dead_lets_def by (rule dead_normal.map_idem)

theorem remove_dead_lets_complete_witness:
  "remove_dead_lets (IRVar ''y'') {''y''} = Some (IRVar ''y'')"
proof (rule remove_dead_lets_complete)
  show "remove_dead_lets (IRLet [''x''] (IRConst (CBool True)) (IRVar ''y'')) {''y''} = Some (IRVar ''y'')"
    by (simp add: remove_dead_lets_def ir_map_eq map_ir.simps dead_let_step_def)
qed


end
