(* ===== verification/TempInlining.thy ===== *)
theory TempInlining
  imports IRSemantics
begin

text \<open>
  Inlining of compiler temporaries and copy propagation
  (\<open>intermediate-theorem-format/src/analysis/temp_inlining.rs\<close>).  A \<open>BTreeMap\<close> is a
  map; it is only looked up.  Where the code applies \<open>IRNode::map\<close> the model applies
  \<open>map_ir\<close>, which \<open>ir_map_eq\<close> shows to be what \<open>map\<close> computes.  Use counts are
  \<open>usize\<close> values kept unbounded: a count wraps only for a tree with an \<open>Unpack\<close> nest
  of depth 64.
\<close>

section \<open>Tests on names\<close>

definition WORLD_VAR :: TempId where
  "WORLD_VAR = ''__world''"

definition is_temp :: "TempId \<Rightarrow> bool" where
  "is_temp name = (case name of [] \<Rightarrow> False | c # _ \<Rightarrow> c = CHR ''$'')"

fun is_single_temp :: "TempId list \<Rightarrow> bool" where
  "is_single_temp [name] = is_temp name"
| "is_single_temp _ = False"

function (sequential) collect_vars :: "IRNode \<Rightarrow> TempId list" where
  "collect_vars (IRVar name) = [name]"
| "collect_vars other = concat (map collect_vars (children other))"
  by pat_completeness auto
termination
  by (relation "measure size") (auto simp del: children.simps IRNode.size intro: size_children)

function (sequential) is_rebound_in :: "TempId \<Rightarrow> IRNode \<Rightarrow> bool" where
  "is_rebound_in name (IRLet pattern v body) =
     (name \<in> set pattern \<or> is_rebound_in name v \<or> is_rebound_in name body)"
| "is_rebound_in name (IRIf c t e) =
     (is_rebound_in name c \<or> is_rebound_in name t \<or> is_rebound_in name e)"
| "is_rebound_in name (IRMatch s cases) =
     (is_rebound_in name s \<or> list_ex (\<lambda>c. is_rebound_in name (snd (snd c))) cases)"
| "is_rebound_in name (IRWriteBack _ parent _) = (parent = name)"
| "is_rebound_in name (IRMutableCompose i out) = (i = name \<or> out = name)"
| "is_rebound_in name other = list_ex (is_rebound_in name) (children other)"
  by pat_completeness auto
termination
  by (relation "measure (\<lambda>(_, n). size n)")
    (auto simp del: children.simps IRNode.size intro: size_children size_case_body size_direct)

definition value_vars_rebound_in_body :: "IRNode \<Rightarrow> IRNode \<Rightarrow> bool" where
  "value_vars_rebound_in_body v body = list_ex (\<lambda>x. is_rebound_in x body) (collect_vars v)"

definition is_used_in_writeback_or_compose :: "IRNode \<Rightarrow> TempId \<Rightarrow> bool" where
  "is_used_in_writeback_or_compose body name = list_ex
     (\<lambda>n. case n of
        IRWriteBack child parent _ \<Rightarrow> child = name \<or> parent = name
      | IRMutableCompose i out \<Rightarrow> i = name \<or> out = name
      | _ \<Rightarrow> False) (iter body)"

definition mentions_world :: "IRNode \<Rightarrow> bool" where
  "mentions_world v = list_ex (\<lambda>n. n = IRVar WORLD_VAR) (iter v)"

lemma size_unpack: "size v < size (IRUnpack s v vi)"
  by simp

function (sequential) count_effective_uses_inner :: "IRNode \<Rightarrow> TempId \<Rightarrow> nat \<Rightarrow> nat" where
  "count_effective_uses_inner (IRVar v) name multiplier = (if v = name then multiplier else 0)"
| "count_effective_uses_inner (IRConst _) name multiplier = 0"
| "count_effective_uses_inner (IRTuple []) name multiplier = 0"
| "count_effective_uses_inner (IRUnpack _ v _) name multiplier =
     count_effective_uses_inner v name (multiplier * 2)"
| "count_effective_uses_inner (IRWriteBack child parent _) name multiplier =
     (if child = name then multiplier else 0) + (if parent = name then multiplier else 0)"
| "count_effective_uses_inner ir name multiplier =
     sum_list (map (\<lambda>child. count_effective_uses_inner child name multiplier) (children ir))"
  by pat_completeness auto
termination
  by (relation "measure (\<lambda>(n, _, _). size n)")
    (auto simp del: children.simps IRNode.size intro: size_children size_unpack)

definition count_effective_uses :: "IRNode \<Rightarrow> TempId \<Rightarrow> nat" where
  "count_effective_uses ir name = count_effective_uses_inner ir name 1"

section \<open>Substitution of temporaries\<close>

definition temp_name :: "(TempId \<rightharpoonup> IRNode) \<Rightarrow> TempId \<Rightarrow> TempId" where
  "temp_name temps x = (case temps x of Some (IRVar c) \<Rightarrow> c | _ \<Rightarrow> x)"

fun substitute_step :: "(TempId \<rightharpoonup> IRNode) \<Rightarrow> IRNode \<Rightarrow> IRNode" where
  "substitute_step temps (IRVar name) =
     (case temps name of Some v \<Rightarrow> v | None \<Rightarrow> IRVar name)"
| "substitute_step temps (IRWriteBack child parent edge) =
     (let new_child = temp_name temps child;
          new_parent = temp_name temps parent
      in if new_child \<noteq> child \<or> new_parent \<noteq> parent
         then IRWriteBack new_child new_parent edge
         else IRWriteBack child parent edge)"
| "substitute_step temps node = node"

definition substitute_temps :: "IRNode \<Rightarrow> (TempId \<rightharpoonup> IRNode) \<Rightarrow> IRNode" where
  "substitute_temps ir temps = map_ir (substitute_step temps) ir"

section \<open>Inlining\<close>

text \<open>The test under which a \<open>let\<close> of a temporary is kept.\<close>

definition keep_let :: "bool \<Rightarrow> TempId \<Rightarrow> IRNode \<Rightarrow> IRNode \<Rightarrow> bool" where
  "keep_let aborts name v body =
     (let use_count = count_effective_uses body name;
          used_in_writeback_or_compose =
            (\<not> (case v of IRVar _ \<Rightarrow> True | _ \<Rightarrow> False)) \<and> is_used_in_writeback_or_compose body name;
          multi_use_block =
            (if aborts then use_count > 1 \<and> mentions_world v
             else use_count > 1 \<and> \<not> is_atomic v)
      in use_count = 0 \<and> \<not> is_atomic v
           \<and> \<not> (case v of IRTuple _ \<Rightarrow> True | IRConst _ \<Rightarrow> True | _ \<Rightarrow> False)
         \<or> multi_use_block
         \<or> value_vars_rebound_in_body v body
         \<or> used_in_writeback_or_compose
         \<or> (case v of
              IRWriteRef _ _ \<Rightarrow> True
            | IRWriteBack _ _ _ \<Rightarrow> True
            | IRMutableBorrow _ _ _ _ \<Rightarrow> True
            | IRMutableCompose _ _ \<Rightarrow> True
            | _ \<Rightarrow> False))"

function (sequential) inline_in_node :: "IRNode \<Rightarrow> (TempId \<rightharpoonup> IRNode) \<Rightarrow> bool \<Rightarrow> IRNode" where
  "inline_in_node (IRLet pattern v body) outer_temps aborts =
     (let v' = substitute_temps v outer_temps in
      if is_single_temp pattern then
        (if keep_let aborts (pattern ! 0) v' body
         then IRLet pattern v' (inline_in_node body outer_temps aborts)
         else inline_in_node body (outer_temps(pattern ! 0 \<mapsto> v')) aborts)
      else IRLet pattern v' (inline_in_node body outer_temps aborts))"
| "inline_in_node (IRIf c t e) outer_temps aborts =
     IRIf (substitute_temps c outer_temps)
       (inline_in_node t outer_temps aborts) (inline_in_node e outer_temps aborts)"
| "inline_in_node (IRBinOp op lhs rhs) outer_temps aborts =
     IRBinOp op (inline_in_node lhs outer_temps aborts) (inline_in_node rhs outer_temps aborts)"
| "inline_in_node (IRUnOp op operand) outer_temps aborts =
     IRUnOp op (inline_in_node operand outer_temps aborts)"
| "inline_in_node (IRCall f type_args args) outer_temps aborts =
     IRCall f type_args (map (\<lambda>a. inline_in_node a outer_temps aborts) args)"
| "inline_in_node other outer_temps aborts = substitute_temps other outer_temps"
  by pat_completeness auto
termination
  by (relation "measure (\<lambda>(n, _, _). size n)")
    (auto simp del: IRNode.size intro: size_direct intro!: size_children)

definition inline_temps :: "IRNode \<Rightarrow> IRNode" where
  "inline_temps ir = inline_in_node ir Map.empty False"

definition inline_temps_aborts :: "IRNode \<Rightarrow> IRNode" where
  "inline_temps_aborts ir = inline_in_node ir Map.empty True"

definition inline_temps_simple :: "IRNode \<Rightarrow> IRNode" where
  "inline_temps_simple ir = inline_in_node ir Map.empty False"

section \<open>Copy propagation\<close>

fun copy_step :: "(TempId \<rightharpoonup> TempId) \<Rightarrow> IRNode \<Rightarrow> IRNode" where
  "copy_step copies (IRVar name) =
     (case copies name of Some original \<Rightarrow> IRVar original | None \<Rightarrow> IRVar name)"
| "copy_step copies (IRWriteBack child parent edge) =
     (let new_child = map_or_self copies child;
          new_parent = map_or_self copies parent
      in if new_child \<noteq> child \<or> new_parent \<noteq> parent
         then IRWriteBack new_child new_parent edge
         else IRWriteBack child parent edge)"
| "copy_step copies node = node"

text \<open>The variable a \<open>let\<close> copies, when uses of its name may be replaced by it.\<close>

definition copy_source :: "TempId list \<Rightarrow> IRNode \<Rightarrow> IRNode \<Rightarrow> (TempId \<rightharpoonup> TempId) \<Rightarrow> TempId option" where
  "copy_source pattern v body copies =
     (if is_single_temp pattern then
        (case v of
           IRVar src \<Rightarrow>
             (let original = map_or_self copies src in
              if \<not> is_rebound_in original body then Some original else None)
         | _ \<Rightarrow> None)
      else None)"

function (sequential) propagate_copies_inner :: "IRNode \<Rightarrow> (TempId \<rightharpoonup> TempId) \<Rightarrow> IRNode" where
  "propagate_copies_inner (IRVar name) copies =
     (case copies name of Some original \<Rightarrow> IRVar original | None \<Rightarrow> IRVar name)"
| "propagate_copies_inner (IRLet pattern v body) copies =
     (let v' = propagate_copies_inner v copies in
      case copy_source pattern v' body copies of
        Some original \<Rightarrow> propagate_copies_inner body (copies(pattern ! 0 \<mapsto> original))
      | None \<Rightarrow> IRLet pattern v' (propagate_copies_inner body copies))"
| "propagate_copies_inner (IRIf c t e) copies =
     IRIf (propagate_copies_inner c copies) (propagate_copies_inner t copies)
       (propagate_copies_inner e copies)"
| "propagate_copies_inner (IRMatch s cases) copies =
     IRMatch (propagate_copies_inner s copies)
       (map (\<lambda>c. (fst c, fst (snd c), propagate_copies_inner (snd (snd c)) copies)) cases)"
| "propagate_copies_inner other copies = map_ir (copy_step copies) other"
  by pat_completeness auto
termination
  by (relation "measure (\<lambda>(n, _). size n)")
    (auto simp del: IRNode.size intro: size_direct size_case_body)

definition propagate_copies :: "IRNode \<Rightarrow> IRNode" where
  "propagate_copies ir = propagate_copies_inner ir Map.empty"

section \<open>What a substitution assumes of the tree\<close>

text \<open>
  No write-back, which names the variable it assigns, and no read of the wildcard.
  The names that a \<open>let\<close> of a temporary stands for in its body are then the names
  its value reads.
\<close>

definition plain_node :: "IRNode \<Rightarrow> bool" where
  "plain_node n = (case n of
     IRWriteBack _ _ _ \<Rightarrow> False | IRMutableCompose _ _ \<Rightarrow> False | IRVar x \<Rightarrow> x \<noteq> ''_'' | _ \<Rightarrow> True)"

abbreviation plain :: "IRNode \<Rightarrow> bool" where
  "plain \<equiv> all_nodes plain_node"

definition names_of :: "(TempId \<rightharpoonup> IRNode) \<Rightarrow> TempId set" where
  "names_of T = (\<Union>t\<in>ran T. lex_free t)"

definition temp_value :: "(TempId \<rightharpoonup> IRNode) \<Rightarrow> TempId \<Rightarrow> IRNode" where
  "temp_value T x = (case T x of Some t \<Rightarrow> t | None \<Rightarrow> IRVar x)"

text \<open>
  The environment \<open>f\<close> of the rewritten tree against the environment \<open>e\<close> of the
  original: what a name has in \<open>e\<close>, its replacement computes in \<open>f\<close>.
\<close>

definition realizes :: "interp \<Rightarrow> (TempId \<rightharpoonup> IRNode) \<Rightarrow> TempId set \<Rightarrow> env \<Rightarrow> env \<Rightarrow> bool" where
  "realizes I T A e f \<longleftrightarrow>
     (\<forall>x \<in> A - {''_''}. \<forall>v. e x = Some v \<longrightarrow> eval I f (temp_value T x) = Some v)"

lemma plain_unfold: "plain n \<longleftrightarrow> plain_node n \<and> (\<forall>c\<in>set (children n). plain c)"
  by (rule all_nodes_unfold)

lemma plain_no_wildcard: "plain n \<Longrightarrow> ''_'' \<notin> lex_free n"
proof (induction n rule: IR_induct)
  case (node n)
  then have "\<forall>c\<in>set (children n). ''_'' \<notin> lex_free c" "plain_node n" by (auto simp: plain_unfold [of n])
  then show ?case using lex_free_step [of n] by (cases n) (auto simp: plain_node_def)
qed

lemma realizes_mono: "realizes I T A e f \<Longrightarrow> B \<subseteq> A \<Longrightarrow> realizes I T B e f"
  unfolding realizes_def by blast

lemma realizes_bind:
  assumes "realizes I T (A - {x}) e f" "x \<notin> dom T" "x \<notin> names_of T"
  shows "realizes I T A (bind_var x v e) (bind_var x v f)"
  unfolding realizes_def
proof safe
  fix y w assume y: "y \<in> A" "y \<noteq> ''_''" "bind_var x v e y = Some w"
  show "eval I (bind_var x v f) (temp_value T y) = Some w"
  proof (cases "x = y")
    case True
    then have "T y = None" using assms(2) by (simp add: domIff)
    then show ?thesis using y True by (simp add: temp_value_def bind_var_def)
  next
    case False
    then have "eval I f (temp_value T y) = Some w"
      using y assms(1) unfolding realizes_def by (auto simp: bind_var_def split: if_splits)
    moreover have "x \<notin> lex_free (temp_value T y)"
      using False assms(3) by (auto simp: temp_value_def names_of_def ran_def split: option.splits)
    then have "agree_on (lex_free (temp_value T y)) f (bind_var x v f)"
      by (auto simp: agree_on_def bind_var_def)
    ultimately show ?thesis using eval_agree by metis
  qed
qed

lemma realizes_closed:
  assumes "X \<inter> (dom T \<union> names_of T) = {}"
  shows "binding_closed (realizes I T) X"
  unfolding binding_closed_def
proof (intro conjI allI impI)
  show "realizes I T B e f" if "realizes I T A e f" "B \<subseteq> A" for A B e f
    using that by (rule realizes_mono)
  show "realizes I T A (bind_var x v e) (bind_var x v f)"
    if "x \<in> X" "realizes I T (A - {x}) e f" for A x v e f
    using that assms by (intro realizes_bind) auto
qed

section \<open>Substitution computes the same values\<close>

lemma substitute_temps_unfold:
  "substitute_temps n T = substitute_step T (set_children n (map (\<lambda>c. substitute_temps c T) (children n)))"
  by (simp add: substitute_temps_def map_ir.simps [of _ n])

lemma substitute_step_plain:
  "plain_node n \<Longrightarrow> (\<nexists>x. n = IRVar x) \<Longrightarrow> substitute_step T (set_children n cs) = set_children n cs"
  by (cases n) (auto simp: plain_node_def)

theorem substitute_temps_sim:
  assumes mono: "mono_interp I"
  shows "plain n \<Longrightarrow> all_binders n \<inter> (dom T \<union> names_of T) = {} \<Longrightarrow> realizes I T (lex_free n) e f \<Longrightarrow>
    eval I e n = Some v \<Longrightarrow> eval I f (substitute_temps n T) = Some v"
proof (induction n arbitrary: e f v rule: IR_induct)
  case (node n)
  have pl: "plain_node n" "\<And>c. c \<in> set (children n) \<Longrightarrow> plain c"
    using node.prems(1) plain_unfold by blast+
  show ?case
  proof (cases "\<exists>x. n = IRVar x")
    case True
    then obtain x where x: "n = IRVar x" by blast
    then have "substitute_temps n T = temp_value T x"
      by (simp add: substitute_temps_unfold [of "IRVar x"] temp_value_def split: option.splits)
    then show ?thesis using node.prems(3,4) pl(1) x by (simp add: realizes_def plain_node_def)
  next
    case False
    have "eval I f (set_children n (map (\<lambda>c. substitute_temps c T) (children n))) = Some v"
    proof (rule eval_sim [where R = "realizes I T", OF mono _ _ _ _ node.prems(3,4)])
      show "binding_closed (realizes I T) (local_binders n)"
        using node.prems(2) by (intro realizes_closed) (auto simp: all_binders_unfold [of n])
      fix c e f v assume "c \<in> set (children n)" "realizes I T (lex_free c) e f" "eval I e c = Some v"
      then show "eval I f (substitute_temps c T) = Some v"
        using node.prems(2) pl(2) by (intro node.IH) (auto simp: all_binders_unfold [of n])
    qed (use False pl in \<open>auto simp: plain_node_def\<close>)
    then show ?thesis using False pl(1) substitute_step_plain by (subst substitute_temps_unfold) auto
  qed
qed

lemma lex_free_map:
  assumes "\<And>c. c \<in> set (children n) \<Longrightarrow> lex_free (g c) \<subseteq> lex_free c \<union> N"
  shows "lex_free (set_children n (map g (children n))) \<subseteq> lex_free n \<union> N"
proof (cases "strict_node n")
  case True
  show ?thesis
  proof (cases "\<exists>c p e. n = IRWriteBack c p e")
    case False
    then have "\<nexists>c p e. set_children n (map g (children n)) = IRWriteBack c p e"
      using True by (cases n; hypsubst; simp)
    with True have "lex_free (set_children n (map g (children n))) =
        (\<Union>c\<in>set (children (set_children n (map g (children n)))). lex_free c)"
      by (intro lex_free_strict) simp_all
    then have "lex_free (set_children n (map g (children n))) = (\<Union>c\<in>set (children n). lex_free (g c))"
      by simp
    moreover have "lex_free n = (\<Union>c\<in>set (children n). lex_free c)"
      by (rule lex_free_strict [OF True False])
    moreover have "(\<Union>c\<in>set (children n). lex_free (g c)) \<subseteq> (\<Union>c\<in>set (children n). lex_free c) \<union> N"
      using assms by fast
    ultimately show ?thesis by (simp only:)
  qed auto
next
  case False
  have a: "\<forall>c\<in>set (children n). lex_free (g c) \<subseteq> lex_free c \<union> N" using assms by blast
  from False show ?thesis
  proof (cases n)
    case (IRMatch s cases)
    then have "lex_free (g (snd (snd c))) \<subseteq> lex_free (snd (snd c)) \<union> N" if "c \<in> set cases" for c
      using assms that by simp
    moreover have "lex_free (g s) \<subseteq> lex_free s \<union> N" using assms IRMatch by simp
    ultimately show ?thesis unfolding IRMatch set_children_match by fastforce
  next
    case (IRQuantifier k cb p t coll rng)
    then show ?thesis using a by (cases coll; cases rng) (auto simp: all_conj_distrib)
  qed (use a in \<open>auto simp: all_conj_distrib\<close>)
qed

lemma substitute_names: "plain n \<Longrightarrow> lex_free (substitute_temps n T) \<subseteq> lex_free n \<union> names_of T"
proof (induction n rule: IR_induct)
  case (node n)
  show ?case
  proof (cases "\<exists>x. n = IRVar x")
    case True
    then obtain x where "n = IRVar x" by blast
    then show ?thesis
      by (cases "T x") (auto simp: substitute_temps_unfold [of "IRVar x"] names_of_def intro: ranI)
  next
    case False
    let ?g = "\<lambda>c. substitute_temps c T"
    have c: "plain_node n" "\<And>c. c \<in> set (children n) \<Longrightarrow> lex_free (?g c) \<subseteq> lex_free c \<union> names_of T"
      using node plain_unfold by blast+
    have "lex_free (set_children n (map ?g (children n))) \<subseteq> lex_free n \<union> names_of T"
      using lex_free_map [OF c(2)] .
    then show ?thesis
      using substitute_step_plain [OF c(1)] False by (subst substitute_temps_unfold) auto
  qed
qed

lemma substitute_plain:
  "plain n \<Longrightarrow> (\<forall>t\<in>ran T. plain t) \<Longrightarrow> plain (substitute_temps n T)"
proof (induction n rule: IR_induct)
  case (node n)
  have pl: "plain_node n" "\<And>c. c \<in> set (children n) \<Longrightarrow> plain c"
    using node.prems(1) plain_unfold by blast+
  show ?case
  proof (cases "\<exists>x. n = IRVar x")
    case True
    then obtain x where "n = IRVar x" by blast
    then show ?thesis using node.prems
      by (cases "T x") (auto simp: substitute_temps_unfold [of "IRVar x"] intro: ranI)
  next
    case False
    have "plain_node (set_children n cs)" for cs using pl(1) by (cases n) (auto simp: plain_node_def)
    then have "plain (set_children n (map (\<lambda>c. substitute_temps c T) (children n)))"
      using node.IH pl(2) node.prems(2) by (intro all_nodes_set) auto
    then show ?thesis
      using substitute_step_plain [OF pl(1)] False by (subst substitute_temps_unfold) auto
  qed
qed

text \<open>The tests of the code against the names of the semantics.\<close>

lemma collect_vars_plain: "plain n \<Longrightarrow> lex_free n \<subseteq> set (collect_vars n)"
proof (induction n rule: IR_induct)
  case (node n)
  have "lex_free n \<subseteq> node_reads n \<union> (\<Union>c\<in>set (children n). lex_free c)"
    by (rule lex_free_step)
  also have "\<dots> \<subseteq> node_reads n \<union> (\<Union>c\<in>set (children n). set (collect_vars c))"
    using node.IH all_nodes_child [OF node.prems] by (intro Un_mono UN_mono) auto
  also have "\<dots> \<subseteq> set (collect_vars n)"
    using all_nodes_root [OF node.prems] by (cases n) (auto simp: plain_node_def)
  finally show ?case .
qed

definition let_bound :: "IRNode \<Rightarrow> TempId set" where
  "let_bound n = (\<Union>m\<in>set (iter n). case m of IRLet p _ _ \<Rightarrow> set p | _ \<Rightarrow> {})"

definition other_bound :: "IRNode \<Rightarrow> TempId set" where
  "other_bound n = (\<Union>m\<in>set (iter n). case m of IRLet p _ _ \<Rightarrow> {} | _ \<Rightarrow> local_binders m)"

lemma all_binders_split: "all_binders n = let_bound n \<union> other_bound n"
proof -
  have "local_binders m = (case m of IRLet p _ _ \<Rightarrow> set p | _ \<Rightarrow> {}) \<union>
    (case m of IRLet p _ _ \<Rightarrow> {} | _ \<Rightarrow> local_binders m)" for m by (cases m) auto
  then show ?thesis unfolding all_binders_def let_bound_def other_bound_def UN_Un_distrib [symmetric]
    by (rule SUP_cong [OF refl])
qed

lemma let_bound_unfold:
  "let_bound n = (case n of IRLet p _ _ \<Rightarrow> set p | _ \<Rightarrow> {}) \<union> (\<Union>c\<in>set (children n). let_bound c)"
  by (auto simp: let_bound_def set_iter_unfold [of n])

lemma is_rebound_step:
  "plain_node n \<Longrightarrow> is_rebound_in x n \<longleftrightarrow>
     x \<in> (case n of IRLet p _ _ \<Rightarrow> set p | _ \<Rightarrow> {}) \<or> (\<exists>c\<in>set (children n). is_rebound_in x c)"
  by (cases n) (auto simp: plain_node_def list_ex_iff)

lemma is_rebound_plain: "plain n \<Longrightarrow> is_rebound_in x n \<longleftrightarrow> x \<in> let_bound n"
proof (induction n rule: IR_induct)
  case (node n)
  then have "\<forall>c\<in>set (children n). is_rebound_in x c \<longleftrightarrow> x \<in> let_bound c"
    using all_nodes_child by blast
  then show ?case
    using is_rebound_step [OF all_nodes_root [OF node.prems], of x] let_bound_unfold [of n] by auto
qed

section \<open>Inlining computes the same values\<close>

text \<open>
  A temporary is bound once in its scope, and no binder in its scope that is not a
  \<open>let\<close> binds a name its value reads.  Rebinding by \<open>let\<close> is what the guards of the
  code look for, and is not excluded here.
\<close>

definition temp_scoped_node :: "IRNode \<Rightarrow> bool" where
  "temp_scoped_node n = (case n of
     IRLet p v b \<Rightarrow> is_single_temp p \<longrightarrow>
       hd p \<notin> all_binders b \<and> other_bound b \<inter> lex_free v = {}
   | _ \<Rightarrow> True)"

abbreviation temp_scoped :: "IRNode \<Rightarrow> bool" where
  "temp_scoped \<equiv> all_nodes temp_scoped_node"

definition separate :: "(TempId \<rightharpoonup> IRNode) \<Rightarrow> IRNode \<Rightarrow> bool" where
  "separate T n \<longleftrightarrow> all_binders n \<inter> (dom T \<union> names_of T) = {}"

lemma separate_child: "separate T n \<Longrightarrow> c \<in> set (children n) \<Longrightarrow> separate T c"
  using all_binders_unfold [of n] unfolding separate_def by blast

lemma is_single_temp_iff: "is_single_temp p \<longleftrightarrow> (\<exists>t. p = [t] \<and> is_temp t)"
  by (cases p rule: is_single_temp.cases) auto

lemma not_temp_wildcard: "is_temp t \<Longrightarrow> t \<noteq> ''_''"
  by (auto simp: is_temp_def)

lemma names_of_upd: "names_of (T(t \<mapsto> v)) \<subseteq> names_of T \<union> lex_free v"
  by (auto simp: names_of_def ran_def split: if_splits)

lemma separate_inlined:
  assumes "plain (IRLet [t] v b)" "temp_scoped_node (IRLet [t] v b)" "is_temp t"
    and "separate T (IRLet [t] v b)" "\<forall>u\<in>ran T. plain u"
    and keep: "\<not> value_vars_rebound_in_body (substitute_temps v T) b"
  shows "separate (T(t \<mapsto> substitute_temps v T)) b"
proof -
  let ?v = "substitute_temps v T"
  have pl: "plain v" "plain b" using assms(1) by (auto intro: all_nodes_child)
  have sep: "separate T b" using assms(4) by (rule separate_child) simp
  have "set (collect_vars ?v) \<inter> let_bound b = {}"
    using keep is_rebound_plain [OF pl(2)] unfolding value_vars_rebound_in_body_def list_ex_iff by blast
  then have "lex_free ?v \<inter> let_bound b = {}"
    using collect_vars_plain [OF substitute_plain [OF pl(1) assms(5)]] by blast
  moreover have "lex_free ?v \<inter> other_bound b = {}"
  proof -
    have "other_bound b \<inter> names_of T = {}" using sep unfolding separate_def all_binders_split by blast
    then show ?thesis
      using substitute_names [OF pl(1), of T] assms(2,3) by (auto simp: temp_scoped_node_def)
  qed
  ultimately have "lex_free ?v \<inter> all_binders b = {}" unfolding all_binders_split by blast
  then show ?thesis
    using sep names_of_upd [of T t ?v] assms(2,3) unfolding separate_def
    by (auto simp: temp_scoped_node_def)
qed

lemma ran_upd_plain: "\<forall>u\<in>ran T. plain u \<Longrightarrow> plain v \<Longrightarrow> \<forall>u\<in>ran (T(t \<mapsto> v)). plain u"
  by (auto simp: ran_def)

lemma realizes_inlined:
  assumes "realizes I T (A - {t}) e f" "eval I f v' = Some w" "t \<noteq> ''_''"
  shows "realizes I (T(t \<mapsto> v')) A (bind_var t w e) f"
  using assms unfolding realizes_def by (auto simp: bind_var_def temp_value_def)

lemma kept_let_sim:
  assumes "separate T (IRLet p v b)" "realizes I T (lex_free (IRLet p v b)) e f"
    and "eval I e (IRLet p v b) = Some r"
    and "\<And>w. eval I e v = Some w \<Longrightarrow> eval I f v' = Some w"
    and "\<And>e' f'. realizes I T (lex_free b) e' f' \<Longrightarrow> eval I e' b = Some r \<Longrightarrow> eval I f' b' = Some r"
  shows "eval I f (IRLet p v' b') = Some r"
proof -
  obtain w e' where w: "eval I e v = Some w" "bind_pattern p w e = Some e'" "eval I e' b = Some r"
    using assms(3) unfolding eval_Let_Some by blast
  have "binding_closed (realizes I T) (set p)"
    using assms(1) by (intro realizes_closed) (auto simp: separate_def all_binders_unfold [of "IRLet p v b"])
  moreover have "realizes I T (lex_free b - set p) e f" using assms(2) by (rule realizes_mono) auto
  ultimately obtain f' where "bind_pattern p w f = Some f'" "realizes I T (lex_free b) e' f'"
    using binding_closed_pattern [OF _ w(2)] by blast
  then show ?thesis using assms(4) [OF w(1)] assms(5) w(3) by (auto simp: eval_Let_Some simp del: eval.simps)
qed

lemma separate_binders: "separate T n \<Longrightarrow> binding_closed (realizes I T) (local_binders n)"
  by (rule realizes_closed) (auto simp: separate_def all_binders_unfold [of n])

lemma substitute_sim:
  "mono_interp I \<Longrightarrow> plain n \<Longrightarrow> separate T n \<Longrightarrow> realizes I T (lex_free n) e f \<Longrightarrow>
   eval I e n = Some v \<Longrightarrow> eval I f (substitute_temps n T) = Some v"
  unfolding separate_def by (rule substitute_temps_sim)

lemma map_children_sim:
  assumes "plain n" "all_nodes Q n" "separate T n" "strict_node n"
    and "\<And>c v. c \<in> set (children n) \<Longrightarrow> plain c \<Longrightarrow> all_nodes Q c \<Longrightarrow> separate T c \<Longrightarrow>
      realizes I T (lex_free c) e f \<Longrightarrow> eval I e c = Some v \<Longrightarrow> eval I f (g c) = Some v"
    and "realizes I T (lex_free n) e f" "eval I e n = Some v"
  shows "eval I f (set_children n (map g (children n))) = Some v"
proof (cases "\<exists>c p ed. n = IRWriteBack c p ed")
  case False
  then have lf: "lex_free n = (\<Union>c\<in>set (children n). lex_free c)" by (rule lex_free_strict [OF assms(4)])
  show ?thesis
  proof (rule strict_sim [OF assms(4,7)])
    fix c v assume c: "c \<in> set (children n)" "eval I e c = Some v"
    then have "realizes I T (lex_free c) e f"
      using lf by (intro realizes_mono [OF assms(6)]) auto
    then show "eval I f (g c) = Some v"
      using assms(5) [OF c(1) all_nodes_child [OF assms(1) c(1)] all_nodes_child [OF assms(2) c(1)]
        separate_child [OF assms(3) c(1)]] c(2) by blast
  qed
qed (use assms(7) in auto)

theorem inline_in_node_sim:
  assumes mono: "mono_interp I"
  shows "plain n \<Longrightarrow> temp_scoped n \<Longrightarrow> separate T n \<Longrightarrow> (\<forall>u\<in>ran T. plain u) \<Longrightarrow>
    realizes I T (lex_free n) e f \<Longrightarrow> eval I e n = Some v \<Longrightarrow>
    eval I f (inline_in_node n T aborts) = Some v"
proof (induction n T aborts arbitrary: e f v rule: inline_in_node.induct)
  case (1 p u b T aborts)
  let ?u = "substitute_temps u T"
  have pl: "plain u" "plain b" using "1.prems"(1) by (auto intro: all_nodes_child)
  have sc: "temp_scoped b" "temp_scoped_node (IRLet p u b)"
    using "1.prems"(2) by (auto intro: all_nodes_child all_nodes_root)
  have sep: "separate T u" "separate T b" using "1.prems"(3) by (auto intro: separate_child)
  have u: "eval I f ?u = Some w" if "eval I e u = Some w" for w
    by (rule substitute_sim [OF mono pl(1) sep(1) _ that]) (rule realizes_mono [OF "1.prems"(5)], simp)
  show ?case
  proof (cases "is_single_temp p \<and> \<not> keep_let aborts (p ! 0) ?u b")
    case False
    then have n: "inline_in_node (IRLet p u b) T aborts = IRLet p ?u (inline_in_node b T aborts)"
      by (auto simp: Let_def)
    show ?thesis unfolding n
    proof (rule kept_let_sim [OF "1.prems"(3,5,6) u])
      fix e' f' assume r: "realizes I T (lex_free b) e' f'" "eval I e' b = Some v"
      show "eval I f' (inline_in_node b T aborts) = Some v"
      proof (cases "is_single_temp p")
        case True
        then show ?thesis
          using "1.IH"(1) [OF refl True _ pl(2) sc(1) sep(2) "1.prems"(4) r] False by blast
      next
        case F: False
        then show ?thesis using "1.IH"(3) [OF refl F pl(2) sc(1) sep(2) "1.prems"(4) r] by blast
      qed
    qed
  next
    case True
    then obtain t where t: "p = [t]" "is_temp t" "\<not> keep_let aborts t ?u b"
      by (auto simp: is_single_temp_iff)
    obtain w where w: "eval I e u = Some w" "eval I (bind_var t w e) b = Some v"
      using "1.prems"(6) unfolding eval_Let_Some t by auto
    have sep': "separate (T(t \<mapsto> ?u)) b"
      using "1.prems"(1,3,4) sc(2) t(2,3) unfolding t(1)
      by (intro separate_inlined) (auto simp: keep_let_def Let_def)
    have "realizes I T (lex_free b - {t}) e f"
      by (rule realizes_mono [OF "1.prems"(5)]) (auto simp: t)
    then have r: "realizes I (T(t \<mapsto> ?u)) (lex_free b) (bind_var t w e) f"
      by (rule realizes_inlined) (simp_all add: u w(1) not_temp_wildcard t(2))
    have "\<forall>x\<in>ran (T(t \<mapsto> ?u)). plain x"
      by (rule ran_upd_plain [OF "1.prems"(4) substitute_plain [OF pl(1) "1.prems"(4)]])
    then have "eval I f (inline_in_node b (T(p ! 0 \<mapsto> ?u)) aborts) = Some v"
      using "1.IH"(2) [OF refl, of "bind_var t w e" f v] True pl(2) sc(1) sep' r w(2)
      by (simp add: t(1) del: fun_upd_apply)
    then show ?thesis using t by (simp add: Let_def)
  qed
next
  case (2 c t el T aborts)
  obtain b where b: "eval I e c = Some (VBool b)" "eval I e (if b then t else el) = Some v"
    using "2.prems"(6) unfolding eval_If_Some by blast
  have ch: "plain x" "temp_scoped x" "separate T x" "realizes I T (lex_free x) e f"
    if "x \<in> {c, t, el}" for x
    using "2.prems"(1,2,3,5) that by (auto intro: all_nodes_child separate_child realizes_mono)
  have "eval I f (substitute_temps c T) = Some (VBool b)"
    using ch b(1) by (intro substitute_sim [OF mono]) auto
  moreover have "eval I f (if b then inline_in_node t T aborts else inline_in_node el T aborts) = Some v"
    using "2.IH"(1) [OF ch(1-3) [of t] "2.prems"(4) ch(4) [of t]]
      "2.IH"(2) [OF ch(1-3) [of el] "2.prems"(4) ch(4) [of el]] b(2) by (cases b) auto
  ultimately show ?case by (cases b) simp_all
next
  case (3 op l r T aborts)
  have "eval I f (set_children (IRBinOp op l r) (map (\<lambda>c. inline_in_node c T aborts) (children (IRBinOp op l r)))) = Some v"
    by (rule map_children_sim [OF "3.prems"(1,2,3) _ _ "3.prems"(5,6)])
      (use "3.IH" "3.prems"(4) in \<open>auto simp del: eval.simps\<close>)
  then show ?case by simp
next
  case (4 op x T aborts)
  have "eval I f (set_children (IRUnOp op x) (map (\<lambda>c. inline_in_node c T aborts) (children (IRUnOp op x)))) = Some v"
    by (rule map_children_sim [OF "4.prems"(1,2,3) _ _ "4.prems"(5,6)])
      (use "4.IH" "4.prems"(4) in \<open>auto simp del: eval.simps\<close>)
  then show ?case by simp
next
  case (5 fn ts args T aborts)
  have "eval I f (set_children (IRCall fn ts args) (map (\<lambda>c. inline_in_node c T aborts) (children (IRCall fn ts args)))) = Some v"
    by (rule map_children_sim [OF "5.prems"(1,2,3) _ _ "5.prems"(5,6)])
      (use "5.IH" "5.prems"(4) in \<open>auto simp del: eval.simps\<close>)
  then show ?case by simp
qed (simp only: inline_in_node.simps, rule substitute_sim [OF mono]; assumption)+

lemma separate_empty [simp]: "separate Map.empty n"
  by (simp add: separate_def names_of_def)

lemma realizes_empty [simp]: "realizes I Map.empty A e e"
  by (simp add: realizes_def temp_value_def)

lemma inline_refines:
  "mono_interp I \<Longrightarrow> plain n \<Longrightarrow> temp_scoped n \<Longrightarrow> refines I n (inline_in_node n Map.empty aborts)"
  by (rule refinesI, rule inline_in_node_sim) auto

section \<open>Properties\<close>



text \<open>
  A temporary that copies a variable is inlined although a \<open>MutableCompose\<close>
  names it, and \<open>substitute_temps\<close> rewrites the names of a \<open>WriteBack\<close> only: the
  result reads a temporary that nothing binds.
\<close>

theorem inline_orphans_compose:
  "inline_temps (IRLet [''$t''] (IRVar ''x'') (IRMutableCompose ''$t'' ''p'')) = IRMutableCompose ''$t'' ''p''
   \<and> ''$t'' \<notin> lex_free (IRLet [''$t''] (IRVar ''x'') (IRMutableCompose ''$t'' ''p''))"
  by (simp add: inline_temps_def substitute_temps_def map_ir.simps is_temp_def keep_let_def
      count_effective_uses_def value_vars_rebound_in_body_def)

text \<open>
  C38: \<open>is_rebound_in\<close> does not look at the binders of a \<open>MatchOption\<close>: the value of a
  temporary is inlined under a binder that captures it, and the tree changes its value.
\<close>

theorem inline_captured:
  "let n = IRLet [''$t''] (IRVar ''x'') (IRMatchOption (IRVar ''o'') ''x'' (IRVar ''$t'') (IRVar ''y''));
       env = [''x'' \<mapsto> VBool True, ''o'' \<mapsto> VSome (VBool False)]
   in eval I env n = Some (VBool True) \<and> eval I env (inline_temps n) = Some (VBool False)"
  by (simp add: Let_def inline_temps_def substitute_temps_def map_ir.simps is_temp_def keep_let_def bind_var_def
      count_effective_uses_def value_vars_rebound_in_body_def)

end
