(* ===== verification/Stores.thy ===== *)
theory Stores
  imports Prelude
begin

text \<open>
  The item stores of \<open>intermediate-theorem-format/src/data/mod.rs\<close>: \<open>ItemStore\<close>,
  which numbers keys in the order of their first use, and \<open>FunctionStore\<close>, which
  numbers keyed and unkeyed functions from one counter.  A \<open>BTreeMap\<close> from keys to
  ids is an association list with distinct keys (its length is \<open>len()\<close>), an
  \<open>IndexMap\<close> of items a map: no operation modelled here depends on its order.
\<close>

section \<open>Association lists\<close>

lemma map_of_append_new: "k \<notin> set (map fst xs) \<Longrightarrow> map_of (xs @ [(k, v)]) = (map_of xs)(k \<mapsto> v)"
  by (induction xs) (auto simp: fun_upd_def)

lemma map_of_None_keys: "map_of xs k = None \<longleftrightarrow> k \<notin> set (map fst xs)"
  by (metis list.set_map map_of_eq_None_iff)

lemma distinct_snd_inj:
  assumes "distinct (map snd xs)" "map_of xs k = Some i" "map_of xs k' = Some i"
  shows "k = k'"
proof -
  have "(k, i) \<in> set xs" "(k', i) \<in> set xs" using assms(2,3) by (auto dest: map_of_SomeD)
  then show ?thesis using assms(1) by (metis distinct_map inj_on_eq_iff snd_conv fst_conv)
qed

section \<open>ItemStore\<close>

record ('k, 'a) item_store =
  ids :: "('k \<times> nat) list"
  items :: "nat \<rightharpoonup> 'a"

definition is_default :: "('k, 'a) item_store" where
  "is_default = \<lparr>ids = [], items = Map.empty\<rparr>"

definition is_id_for_key :: "'k \<Rightarrow> ('k, 'a) item_store \<Rightarrow> nat \<times> ('k, 'a) item_store" where
  "is_id_for_key key s =
     (let next_id = length (ids s) in
      case map_of (ids s) key of
        Some i \<Rightarrow> (i, s)
      | None \<Rightarrow> (next_id, s\<lparr>ids := ids s @ [(key, next_id)]\<rparr>))"

definition is_has :: "nat \<Rightarrow> ('k, 'a) item_store \<Rightarrow> bool" where
  "is_has i s = (items s i \<noteq> None)"

definition is_create :: "'k \<Rightarrow> 'a \<Rightarrow> ('k, 'a) item_store \<Rightarrow> ('k, 'a) item_store" where
  "is_create key item s =
     (let (i, s') = is_id_for_key key s in s'\<lparr>items := (items s')(i \<mapsto> item)\<rparr>)"

text \<open>\<open>get\<close> panics on an unknown id.\<close>

definition is_get :: "nat \<Rightarrow> ('k, 'a) item_store \<Rightarrow> 'a option" where
  "is_get i s = items s i"

text \<open>\<open>get_mut\<close> hands out a reference: the item is replaced by what the caller makes of it.\<close>

definition is_get_mut :: "nat \<Rightarrow> ('a \<Rightarrow> 'a) \<Rightarrow> ('k, 'a) item_store \<Rightarrow> ('k, 'a) item_store option" where
  "is_get_mut i f s =
     (case items s i of None \<Rightarrow> None | Some x \<Rightarrow> Some (s\<lparr>items := (items s)(i \<mapsto> f x)\<rparr>))"

definition is_get_id_for_key :: "'k \<Rightarrow> ('k, 'a) item_store \<Rightarrow> nat option" where
  "is_get_id_for_key key s = map_of (ids s) key"

text \<open>Ids are the positions of the keys, and an item has the id of some key.\<close>

definition is_inv :: "('k, 'a) item_store \<Rightarrow> bool" where
  "is_inv s \<longleftrightarrow> distinct (map fst (ids s)) \<and> map snd (ids s) = [0..<length (ids s)]
     \<and> (\<forall>i x. items s i = Some x \<longrightarrow> i < length (ids s))"

inductive is_reachable :: "('k, 'a) item_store \<Rightarrow> bool" where
  is_start: "is_reachable is_default"
| is_step_id: "is_reachable s \<Longrightarrow> is_reachable (snd (is_id_for_key key s))"
| is_step_create: "is_reachable s \<Longrightarrow> is_reachable (is_create key item s)"
| is_step_mut: "is_reachable s \<Longrightarrow> is_get_mut i f s = Some s' \<Longrightarrow> is_reachable s'"

lemma is_id_inv: "is_inv s \<Longrightarrow> is_inv (snd (is_id_for_key key s))"
  by (auto simp: is_inv_def is_id_for_key_def Let_def map_of_None_keys split: option.splits)

lemma is_id_bound: "is_inv s \<Longrightarrow> fst (is_id_for_key key s) < length (ids (snd (is_id_for_key key s)))"
proof (cases "map_of (ids s) key")
  case (Some i)
  moreover assume "is_inv s"
  ultimately have "i \<in> set [0..<length (ids s)]"
    by (metis is_inv_def map_of_SomeD set_map image_eqI snd_conv)
  then show ?thesis using \<open>is_inv s\<close> Some by (simp add: is_inv_def is_id_for_key_def Let_def)
qed (simp add: is_id_for_key_def Let_def)

lemma is_create_inv: "is_inv s \<Longrightarrow> is_inv (is_create key item s)"
  using is_id_inv [of s key] is_id_bound [of s key]
  by (auto simp: is_create_def is_inv_def split: prod.splits if_splits)

lemma is_reachable_inv: "is_reachable s \<Longrightarrow> is_inv s"
proof (induction rule: is_reachable.induct)
  case is_start
  show ?case by (simp add: is_default_def is_inv_def)
next
  case (is_step_mut s i f s')
  then show ?case by (auto simp: is_get_mut_def is_inv_def split: option.splits if_splits)
qed (auto intro: is_id_inv is_create_inv)

lemma is_ids_distinct: "is_inv s \<Longrightarrow> distinct (map snd (ids s))"
  by (simp add: is_inv_def)

lemma is_id_lookup: "is_get_id_for_key key (snd (is_id_for_key key s)) = Some (fst (is_id_for_key key s))"
  by (auto simp: is_get_id_for_key_def is_id_for_key_def Let_def map_of_None_keys map_of_append_new
      simp del: map_of_append split: option.splits)

lemma is_id_stable:
  "is_get_id_for_key k s = Some i \<Longrightarrow> is_get_id_for_key k (snd (is_id_for_key key s)) = Some i"
  by (auto simp: is_get_id_for_key_def is_id_for_key_def Let_def split: option.splits)

section \<open>FunctionStore\<close>

record ('k, 'f) function_store =
  fn_ids :: "('k \<times> nat) list"
  fn_items :: "nat \<rightharpoonup> 'f"
  next_id :: nat

definition fs_default :: "('k, 'f) function_store" where
  "fs_default = \<lparr>fn_ids = [], fn_items = Map.empty, next_id = 0\<rparr>"

definition fs_id_for_key :: "'k \<Rightarrow> ('k, 'f) function_store \<Rightarrow> nat \<times> ('k, 'f) function_store" where
  "fs_id_for_key key s =
     (let nxt = next_id s;
          (i, s') = (case map_of (fn_ids s) key of
             Some i \<Rightarrow> (i, s)
           | None \<Rightarrow> (nxt, s\<lparr>fn_ids := fn_ids s @ [(key, nxt)]\<rparr>))
      in (i, if i = nxt then s'\<lparr>next_id := next_id s' + 1\<rparr> else s'))"

definition fs_has :: "nat \<Rightarrow> ('k, 'f) function_store \<Rightarrow> bool" where
  "fs_has i s = (fn_items s i \<noteq> None)"

definition fs_insert :: "nat \<Rightarrow> 'f \<Rightarrow> ('k, 'f) function_store \<Rightarrow> ('k, 'f) function_store" where
  "fs_insert i func s = s\<lparr>fn_items := (fn_items s)(i \<mapsto> func)\<rparr>"

definition fs_create :: "'k \<Rightarrow> 'f \<Rightarrow> ('k, 'f) function_store \<Rightarrow> ('k, 'f) function_store" where
  "fs_create key func s = (let (i, s') = fs_id_for_key key s in s'\<lparr>fn_items := (fn_items s')(i \<mapsto> func)\<rparr>)"

definition fs_add :: "'f \<Rightarrow> ('k, 'f) function_store \<Rightarrow> nat \<times> ('k, 'f) function_store" where
  "fs_add func s =
     (let i = next_id s; s' = s\<lparr>next_id := next_id s + 1\<rparr>
      in (i, s'\<lparr>fn_items := (fn_items s')(i \<mapsto> func)\<rparr>))"

definition fs_reserve_id :: "('k, 'f) function_store \<Rightarrow> nat \<times> ('k, 'f) function_store" where
  "fs_reserve_id s = (next_id s, s\<lparr>next_id := next_id s + 1\<rparr>)"

definition fs_get_id_for_move_key :: "'k \<Rightarrow> ('k, 'f) function_store \<Rightarrow> nat option" where
  "fs_get_id_for_move_key key s = map_of (fn_ids s) key"

definition fs_get :: "nat \<Rightarrow> ('k, 'f) function_store \<Rightarrow> 'f option" where
  "fs_get i s = fn_items s i"

definition fs_get_mut :: "nat \<Rightarrow> ('f \<Rightarrow> 'f) \<Rightarrow> ('k, 'f) function_store \<Rightarrow> ('k, 'f) function_store option" where
  "fs_get_mut i f s =
     (case fn_items s i of None \<Rightarrow> None | Some x \<Rightarrow> Some (s\<lparr>fn_items := (fn_items s)(i \<mapsto> f x)\<rparr>))"

definition fs_delete_function :: "nat \<Rightarrow> ('k, 'f) function_store \<Rightarrow> ('k, 'f) function_store" where
  "fs_delete_function i s = s\<lparr>fn_items := (fn_items s)(i := None)\<rparr>"

text \<open>
  The operations as the steps of a state machine.  \<open>insert\<close> is documented to take a
  reserved id, the guard of its step.
\<close>

inductive fs_step :: "('k, 'f) function_store \<Rightarrow> ('k, 'f) function_store \<Rightarrow> bool" where
  fs_step_id: "fs_step s (snd (fs_id_for_key key s))"
| fs_step_create: "fs_step s (fs_create key func s)"
| fs_step_add: "fs_step s (snd (fs_add func s))"
| fs_step_reserve: "fs_step s (snd (fs_reserve_id s))"
| fs_step_insert: "i < next_id s \<Longrightarrow> fs_step s (fs_insert i func s)"
| fs_step_mut: "fs_get_mut i f s = Some s' \<Longrightarrow> fs_step s s'"
| fs_step_delete: "fs_step s (fs_delete_function i s)"

inductive_cases fs_stepE: "fs_step s s'"

definition fs_reachable :: "('k, 'f) function_store \<Rightarrow> bool" where
  "fs_reachable s \<longleftrightarrow> fs_step\<^sup>*\<^sup>* fs_default s"

definition fs_inv :: "('k, 'f) function_store \<Rightarrow> bool" where
  "fs_inv s \<longleftrightarrow> distinct (map fst (fn_ids s)) \<and> distinct (map snd (fn_ids s))
     \<and> (\<forall>k i. (k, i) \<in> set (fn_ids s) \<longrightarrow> i < next_id s) \<and> (\<forall>i x. fn_items s i = Some x \<longrightarrow> i < next_id s)"

lemma fs_default_inv: "fs_inv fs_default"
  by (simp add: fs_default_def fs_inv_def)

lemma fs_key_bound: "fs_inv s \<Longrightarrow> map_of (fn_ids s) key = Some i \<Longrightarrow> i < next_id s"
  unfolding fs_inv_def by (blast dest: map_of_SomeD)

lemma fs_id_cases:
  assumes "fs_inv s"
  shows "(\<exists>i. map_of (fn_ids s) key = Some i \<and> fs_id_for_key key s = (i, s)) \<or>
    (map_of (fn_ids s) key = None \<and> fs_id_for_key key s =
       (next_id s, s\<lparr>fn_ids := fn_ids s @ [(key, next_id s)], next_id := next_id s + 1\<rparr>))"
  using fs_key_bound [OF assms, of key]
  by (cases "map_of (fn_ids s) key") (auto simp: fs_id_for_key_def Let_def)

lemma fs_id_inv: "fs_inv s \<Longrightarrow> fs_inv (snd (fs_id_for_key key s))"
  using fs_id_cases [of s key]
  by (fastforce simp: fs_inv_def map_of_None_keys less_Suc_eq)

lemma fs_id_bound: "fs_inv s \<Longrightarrow> fst (fs_id_for_key key s) < next_id (snd (fs_id_for_key key s))"
  using fs_id_cases [of s key] fs_key_bound [of s key] by auto

lemma fs_step_inv:
  assumes "fs_step s s'" "fs_inv s"
  shows "fs_inv s'"
  using assms(1)
proof (cases rule: fs_step.cases)
  case (fs_step_id key)
  then show ?thesis using fs_id_inv [OF assms(2)] by simp
next
  case (fs_step_create key func)
  then show ?thesis using fs_id_inv [OF assms(2), of key] fs_id_bound [OF assms(2), of key]
    by (auto simp: fs_create_def fs_inv_def split: prod.splits)
qed (use assms(2) in \<open>auto simp: fs_inv_def fs_add_def fs_reserve_id_def fs_insert_def fs_get_mut_def
       fs_delete_function_def Let_def less_Suc_eq split: option.splits if_splits\<close>)

lemma fs_reachable_inv: "fs_reachable s \<Longrightarrow> fs_inv s"
  unfolding fs_reachable_def
  by (induction rule: rtranclp_induct) (auto intro: fs_default_inv fs_step_inv)

text \<open>The counter only grows, and a key keeps its id.\<close>

lemma fs_step_next: "fs_step s s' \<Longrightarrow> next_id s \<le> next_id s'"
  by (cases rule: fs_stepE)
    (auto simp: fs_id_for_key_def fs_create_def fs_add_def fs_reserve_id_def fs_insert_def
      fs_get_mut_def fs_delete_function_def Let_def split: option.splits prod.splits if_splits)

lemma fs_step_key:
  assumes "fs_step s s'" "fs_get_id_for_move_key k s = Some i"
  shows "fs_get_id_for_move_key k s' = Some i"
  using assms
  by (cases rule: fs_stepE)
    (auto simp: fs_get_id_for_move_key_def fs_id_for_key_def fs_create_def fs_add_def fs_reserve_id_def
      fs_insert_def fs_get_mut_def fs_delete_function_def Let_def split: option.splits prod.splits if_splits)

lemma fs_steps_key: "fs_step\<^sup>*\<^sup>* s s' \<Longrightarrow> fs_get_id_for_move_key k s = Some i \<Longrightarrow> fs_get_id_for_move_key k s' = Some i"
  by (induction rule: rtranclp_induct) (auto intro: fs_step_key)

section \<open>Allocation\<close>

text \<open>
  What the builder of a program relies on: an id handed out is in use from then on
  and was not in use before.  The ids of any two allocations differ.
\<close>

locale id_allocator =
  fixes alloc :: "'s \<Rightarrow> nat \<times> 's"
    and used :: "'s \<Rightarrow> nat set"
    and inv :: "'s \<Rightarrow> bool"
  assumes alloc_fresh: "inv s \<Longrightarrow> fst (alloc s) \<notin> used s"
    and alloc_used: "inv s \<Longrightarrow> used (snd (alloc s)) = insert (fst (alloc s)) (used s)"
    and alloc_inv: "inv s \<Longrightarrow> inv (snd (alloc s))"
begin

fun allocs :: "nat \<Rightarrow> 's \<Rightarrow> nat list \<times> 's" where
  "allocs 0 s = ([], s)"
| "allocs (Suc n) s = (let (i, s') = alloc s; (ns, s'') = allocs n s' in (i # ns, s''))"

lemma allocs_used:
  "inv s \<Longrightarrow> used (snd (allocs n s)) = set (fst (allocs n s)) \<union> used s \<and> inv (snd (allocs n s))"
proof (induction n arbitrary: s)
  case (Suc n)
  obtain i s1 ns s2 where a: "alloc s = (i, s1)" "allocs n s1 = (ns, s2)" by fastforce
  show ?case
    using alloc_used [OF Suc.prems] alloc_inv [OF Suc.prems] Suc.IH [of s1] by (auto simp: a)
qed simp

lemma allocs_distinct:
  "inv s \<Longrightarrow> distinct (fst (allocs n s)) \<and> set (fst (allocs n s)) \<inter> used s = {}"
proof (induction n arbitrary: s)
  case (Suc n)
  obtain i s1 ns s2 where a: "alloc s = (i, s1)" "allocs n s1 = (ns, s2)" by fastforce
  show ?case
    using alloc_fresh [OF Suc.prems] alloc_used [OF Suc.prems] alloc_inv [OF Suc.prems] Suc.IH [of s1]
    by (auto simp: a)
qed simp

end

text \<open>The ids of a function store that are taken: all below the counter.\<close>

interpretation fs_add: id_allocator "fs_add func" "\<lambda>s. {..<next_id s}" fs_inv for func
  by unfold_locales (auto simp: fs_add_def fs_inv_def Let_def less_Suc_eq)

interpretation fs_reserve: id_allocator fs_reserve_id "\<lambda>s. {..<next_id s}" fs_inv
  by unfold_locales (auto simp: fs_reserve_id_def fs_inv_def less_Suc_eq)

section \<open>Properties\<close>

text \<open>
  C18: in every state the operations of a function store reach, two keys never share
  an id and every id handed out is below the counter.
\<close>

theorem fs_ids_injective:
  assumes "fs_reachable s" "fs_get_id_for_move_key k s = Some i" "fs_get_id_for_move_key k' s = Some i"
  shows "k = k' \<and> i < next_id s"
proof
  have inv: "fs_inv s" using assms(1) by (rule fs_reachable_inv)
  show "k = k'"
    using distinct_snd_inj [of "fn_ids s" k i k'] inv assms(2,3)
    by (simp add: fs_inv_def fs_get_id_for_move_key_def)
  show "i < next_id s"
    using fs_key_bound [OF inv] assms(2) by (simp add: fs_get_id_for_move_key_def)
qed

theorem fs_ids_injective_witness:
  "(3 :: nat) = 3 \<and> 0 < next_id (snd (fs_id_for_key (3 :: nat) (fs_default :: (nat, bool) function_store)))"
proof (rule fs_ids_injective)
  show "fs_reachable (snd (fs_id_for_key (3 :: nat) (fs_default :: (nat, bool) function_store)))"
    unfolding fs_reachable_def by (rule r_into_rtranclp) (rule fs_step_id)
qed (simp_all add: fs_get_id_for_move_key_def fs_id_for_key_def fs_default_def)

text \<open>
  C17: \<open>add\<close> puts the function under an id that no function and no key has, keeps every
  other function, and later operations keep the ids of all keys.
\<close>

theorem fs_add_fresh:
  assumes "fs_reachable s" "fs_add func s = (i, s')"
  shows "fs_get i s = None \<and> fs_get_id_for_move_key k s \<noteq> Some i \<and> fs_get i s' = Some func
    \<and> (\<forall>j. j \<noteq> i \<longrightarrow> fs_get j s' = fs_get j s)
    \<and> (\<forall>s''. fs_step\<^sup>*\<^sup>* s' s'' \<longrightarrow> fs_get_id_for_move_key k s = Some j \<longrightarrow> fs_get_id_for_move_key k s'' = Some j)"
proof -
  have inv: "fs_inv s" using assms(1) by (rule fs_reachable_inv)
  have i: "i = next_id s" "s' = s\<lparr>next_id := next_id s + 1, fn_items := (fn_items s)(i \<mapsto> func)\<rparr>"
    using assms(2) by (auto simp: fs_add_def Let_def)
  have "fn_items s i = None"
    using inv i(1) unfolding fs_inv_def by (metis less_irrefl not_None_eq)
  moreover have "map_of (fn_ids s) k \<noteq> Some i" using fs_key_bound [OF inv, of k] i(1) by auto
  ultimately show ?thesis
    using fs_steps_key [of s' _ k j] i(2)
    by (auto simp: fs_get_def fs_get_id_for_move_key_def)
qed

theorem fs_add_fresh_witness:
  "fs_get 0 (fs_default :: (nat, bool) function_store) = None
   \<and> fs_get_id_for_move_key 7 (fs_default :: (nat, bool) function_store) \<noteq> Some 0
   \<and> fs_get 0 (snd (fs_add True (fs_default :: (nat, bool) function_store))) = Some True"
  using fs_add_fresh [of "fs_default :: (nat, bool) function_store" True 0
      "snd (fs_add True (fs_default :: (nat, bool) function_store))" 7]
  by (simp add: fs_reachable_def fs_add_def fs_default_def Let_def)

text \<open>
  C19: in every reachable item store the ids are the positions of the keys, and what is
  created under a key is found under the id of that key.
\<close>

theorem is_create_get:
  assumes "is_reachable s"
  shows "map snd (ids s) = [0..<length (ids s)]
    \<and> (\<exists>i. is_get_id_for_key key (is_create key item s) = Some i \<and> is_get i (is_create key item s) = Some item)"
proof -
  obtain i s' where i: "is_id_for_key key s = (i, s')" by fastforce
  have "is_get_id_for_key key s' = Some i" using is_id_lookup [of key s] i by simp
  then show ?thesis using is_reachable_inv [OF assms] i
    by (auto simp: is_inv_def is_create_def is_get_def is_get_id_for_key_def)
qed

theorem is_create_get_witness:
  "map snd (ids (is_default :: (nat, bool) item_store)) = [0..<length (ids (is_default :: (nat, bool) item_store))]
   \<and> (\<exists>i. is_get_id_for_key 5 (is_create (5 :: nat) True is_default) = Some i
        \<and> is_get i (is_create (5 :: nat) True is_default) = Some True)"
  by (rule is_create_get) (rule is_start)

end
