(* ===== verification/IRTyping.thy ===== *)
theory IRTyping
  imports IRScope Stores "HOL-Library.Monad_Syntax"
begin

text \<open>
  Types of IR trees: the variable registry (\<open>data/variables.rs\<close>), the struct table
  (\<open>data/structure.rs\<close>) and \<open>IRNode::get_type\<close> (\<open>data/ir.rs\<close>).  A panic is
  \<open>None\<close>.  Of a function only the return type is kept, of a struct the types of its
  fields and the tags and field types of its variants; names play no part in typing.
  Bit widths of types are \<open>u32\<close> values.
\<close>

section \<open>The registry\<close>

type_synonym QualifiedId = "nat \<times> nat"

record Struct =
  struct_fields :: "Type list"
  struct_variants :: "(nat \<times> Type list) list option"

record Function =
  return_type :: Type

record Program =
  structs :: "(QualifiedId, Struct) item_store"
  prog_functions :: "(QualifiedId, Function) function_store"

record VariableRegistry =
  variables :: "TempId \<rightharpoonup> Type"
  program :: Program

definition reg_get_type :: "VariableRegistry \<Rightarrow> TempId \<Rightarrow> Type option" where
  "reg_get_type reg name = variables reg name"

definition register :: "TempId \<Rightarrow> Type \<Rightarrow> VariableRegistry \<Rightarrow> VariableRegistry" where
  "register name ty reg = reg\<lparr>variables := (variables reg)(name \<mapsto> ty)\<rparr>"

definition reg_contains :: "VariableRegistry \<Rightarrow> TempId \<Rightarrow> bool" where
  "reg_contains reg name = (variables reg name \<noteq> None)"

fun register_pattern :: "TempId list \<Rightarrow> Type \<Rightarrow> VariableRegistry \<Rightarrow> VariableRegistry option" where
  "register_pattern [] val_type reg = Some reg"
| "register_pattern [name] val_type reg = Some (register name val_type reg)"
| "register_pattern pattern (TyTuple elem_types) reg =
     (if length pattern = length elem_types
      then Some (fold (\<lambda>(name, ty). register name ty) (zip pattern elem_types) reg)
      else None)"
| "register_pattern pattern val_type reg = None"

definition function_return_type :: "VariableRegistry \<Rightarrow> nat \<Rightarrow> Type option" where
  "function_return_type reg base_id = map_option return_type (fs_get base_id (prog_functions (program reg)))"

definition struct_field_type :: "VariableRegistry \<Rightarrow> StructID \<Rightarrow> nat \<Rightarrow> Type option" where
  "struct_field_type reg struct_id field_index = do {
     s \<leftarrow> is_get struct_id (structs (program reg));
     if field_index < length (struct_fields s) then Some (struct_fields s ! field_index) else None }"

definition struct_fields_tuple :: "VariableRegistry \<Rightarrow> StructID \<Rightarrow> Type option" where
  "struct_fields_tuple reg struct_id =
     map_option (\<lambda>s. TyTuple (struct_fields s)) (is_get struct_id (structs (program reg)))"

text \<open>The variant of an enum with a tag; the code panics when there is none.\<close>

definition find_variant :: "VariableRegistry \<Rightarrow> StructID \<Rightarrow> nat \<Rightarrow> Type list option" where
  "find_variant reg struct_id tag = do {
     s \<leftarrow> is_get struct_id (structs (program reg));
     vs \<leftarrow> struct_variants s;
     map_option snd (find (\<lambda>v. fst v = tag) vs) }"

section \<open>get_type\<close>

fun const_type :: "Const \<Rightarrow> Type" where
  "const_type (CBool _) = TyBool"
| "const_type (CUInt bits _) = TyUInt (bits mod 2 ^ 32)"
| "const_type (CAddress _) = TyAddress"
| "const_type (CVector elem_type _) = TyVector elem_type"

text \<open>The type of a binary operator from the types of its operands; comparisons look at none.\<close>

definition binop_type :: "BinOp \<Rightarrow> Type option \<Rightarrow> Type option \<Rightarrow> Type option" where
  "binop_type op lhs rhs =
     (if op \<in> {OpLt, OpLe, OpGt, OpGe, OpEq, OpNeq} then Some TyBool
      else if op \<in> {OpAnd, OpOr} then do {
        l \<leftarrow> lhs;
        r \<leftarrow> rhs;
        Some (if l = TyProp \<or> r = TyProp then TyProp else TyBool) }
      else lhs)"

definition unop_type :: "UnOp \<Rightarrow> Type option \<Rightarrow> Type option" where
  "unop_type op operand = (case op of
     OpNot \<Rightarrow> map_option (\<lambda>t. if t = TyProp then TyProp else TyBool) operand
   | OpBitNot \<Rightarrow> operand
   | OpCast bits \<Rightarrow> Some (TyUInt bits))"

fun add_bits :: "Type \<Rightarrow> nat \<Rightarrow> Type option" where
  "add_bits (TyUInt b) n = Some (TyUInt ((b + n) mod 2 ^ 32))"
| "add_bits _ _ = None"

fun bitop_type :: "Type option BitOp \<Rightarrow> Type option" where
  "bitop_type (BitExtract high low _) = Some (TyUInt (nat ((int high - int low + 1) mod 2 ^ 32)))"
| "bitop_type (BitConcat high low) = do {
     h \<leftarrow> high;
     l \<leftarrow> low;
     (case l of TyUInt n \<Rightarrow> add_bits h n | _ \<Rightarrow> None) }"
| "bitop_type (BitZeroExtend bits operand) = do { t \<leftarrow> operand; add_bits t bits }"
| "bitop_type (BitSignExtend bits operand) = do { t \<leftarrow> operand; add_bits t bits }"

definition quantifier_type :: "QuantifierKind \<Rightarrow> Type option \<Rightarrow> Type option" where
  "quantifier_type kind callback_type =
     (if kind \<in> {QForall, QExists} then Some TyProp
      else if kind \<in> {QAny, QAnyRange, QAll, QAllRange} then Some TyBool
      else if kind \<in> {QFindIndex, QFindIndexRange} then callback_type
      else if kind \<in> {QCount, QCountRange, QRangeCount} then Some (TyUInt 64)
      else if kind \<in> {QSumMap, QSumMapRange, QRangeSumMap} then callback_type
      else map_option TyVector callback_type)"

text \<open>Peel off references to reach the struct a match looks at.\<close>

fun peel_reference :: "Type \<Rightarrow> Type" where
  "peel_reference (TyReference t) = t"
| "peel_reference (TyMutableReference t _) = t"
| "peel_reference t = t"

fun compose_type :: "Type \<Rightarrow> Type \<Rightarrow> Type" where
  "compose_type (TyMutableReference v _) (TyMutableReference _ st) = TyMutableReference v st"
| "compose_type (TyMutableReference v _) outer_type = TyMutableReference v outer_type"
| "compose_type inner_type _ = inner_type"

definition write_back_type :: "VariableRegistry \<Rightarrow> TempId \<Rightarrow> Type" where
  "write_back_type reg child =
     (case variables reg child of
        Some (TyMutableReference _ (TyTuple elems)) \<Rightarrow>
          if length elems = 2 then TyTuple elems else TyTuple []
      | _ \<Rightarrow> TyTuple [])"

definition register_case :: "TempId list \<Rightarrow> Type list \<Rightarrow> Type list \<Rightarrow> VariableRegistry \<Rightarrow> VariableRegistry" where
  "register_case binds fts type_args reg =
     fold (\<lambda>(name, ty). register name (substitute_type_params type_args ty)) (zip binds fts) reg"

function (sequential) get_type :: "IRNode \<Rightarrow> VariableRegistry \<Rightarrow> Type option" where
  "get_type (IRVar name) reg = reg_get_type reg name"
| "get_type (IRConst c) reg = Some (const_type c)"
| "get_type (IRBinOp op lhs rhs) reg = binop_type op (get_type lhs reg) (get_type rhs reg)"
| "get_type (IRUnOp op operand) reg = unop_type op (get_type operand reg)"
| "get_type (IRBitOp (BitExtract high low _)) reg = bitop_type (BitExtract high low None)"
| "get_type (IRBitOp (BitConcat high low)) reg = bitop_type (BitConcat (get_type high reg) (get_type low reg))"
| "get_type (IRBitOp (BitZeroExtend bits operand)) reg = bitop_type (BitZeroExtend bits (get_type operand reg))"
| "get_type (IRBitOp (BitSignExtend bits operand)) reg = bitop_type (BitSignExtend bits (get_type operand reg))"
| "get_type (IRCall f type_args _) reg = do {
     ret_type \<leftarrow> function_return_type reg f;
     Some (if type_args = [] then ret_type else substitute_type_params type_args ret_type) }"
| "get_type (IRPack struct_id type_args _ _) reg = Some (TyStruct struct_id type_args)"
| "get_type (IRField struct_id field_index _) reg = struct_field_type reg struct_id field_index"
| "get_type (IRUnpack struct_id _ (Some vi)) reg = map_option TyTuple (find_variant reg struct_id vi)"
| "get_type (IRUnpack struct_id _ None) reg = struct_fields_tuple reg struct_id"
| "get_type (IRTuple elems) reg = map_option TyTuple (sequence (map (\<lambda>e. get_type e reg) elems))"
| "get_type (IRLet pattern v body) reg = do {
     val_type \<leftarrow> get_type v reg;
     tmp \<leftarrow> register_pattern pattern val_type reg;
     get_type body tmp }"
| "get_type (IRIf _ then_branch _) reg = get_type then_branch reg"
| "get_type (IRMatch scrutinee []) reg = None"
| "get_type (IRMatch scrutinee ((tag, binds, body) # _)) reg = do {
     st \<leftarrow> get_type scrutinee reg;
     (case peel_reference st of
        TyStruct struct_id type_args \<Rightarrow> do {
          fts \<leftarrow> find_variant reg struct_id tag;
          get_type body (register_case binds fts type_args reg) }
      | _ \<Rightarrow> None) }"
| "get_type (IRUpdateField base _ _ _) reg = get_type base reg"
| "get_type (IRUpdateVec base _ _) reg = get_type base reg"
| "get_type (IRMutableBorrow val_expr _ _ state_type) reg =
     map_option (\<lambda>val_type. TyMutableReference val_type state_type) (get_type val_expr reg)"
| "get_type (IRReadRef x) reg =
     map_option (\<lambda>t. case t of TyMutableReference val_type _ \<Rightarrow> val_type | _ \<Rightarrow> t) (get_type x reg)"
| "get_type (IRWriteRef reference _) reg = get_type reference reg"
| "get_type (IRQuantifier kind callback lambda_param lambda_type _ _) reg =
     quantifier_type kind (get_type callback (register lambda_param lambda_type reg))"
| "get_type (IRToProp _) reg = Some TyProp"
| "get_type (IRToBool _) reg = Some TyBool"
| "get_type (IRArithOverflowCheck _ _ _) reg = Some TyBool"
| "get_type (IRWriteBack child _ _) reg = Some (write_back_type reg child)"
| "get_type (IRMutableCompose i out) reg = do {
     inner_type \<leftarrow> reg_get_type reg i;
     outer_type \<leftarrow> reg_get_type reg out;
     Some (compose_type inner_type outer_type) }"
| "get_type (IRMatchOption scrutinee _ _ _) reg = do {
     t \<leftarrow> get_type scrutinee reg;
     (case t of TyOption ty \<Rightarrow> Some ty | _ \<Rightarrow> None) }"
| "get_type (IROptionSome _) reg = None"
| "get_type IROptionNone reg = None"
| "get_type IRInhabited reg = None"
| "get_type (IRAbort _) reg = None"
| "get_type (IRMoveAbortValue _ _) reg = None"
  by pat_completeness auto
termination
  by (relation "measure (\<lambda>(n, _). size n)") (auto simp: size_list_estimation' less_Suc_eq_le)

fun add_node :: "IRNode \<Rightarrow> VariableRegistry \<Rightarrow> VariableRegistry option" where
  "add_node (IRLet pattern v _) reg =
     (if pattern = [] then Some reg
      else do { val_type \<leftarrow> get_type v reg; register_pattern pattern val_type reg })"
| "add_node _ reg = Some reg"

section \<open>The type depends on the names read\<close>

definition reg_agree :: "TempId set \<Rightarrow> VariableRegistry \<Rightarrow> VariableRegistry \<Rightarrow> bool" where
  "reg_agree A r s \<longleftrightarrow> program r = program s \<and> (\<forall>x\<in>A. variables r x = variables s x)"

lemma reg_agree_mono: "reg_agree A r s \<Longrightarrow> B \<subseteq> A \<Longrightarrow> reg_agree B r s"
  by (auto simp: reg_agree_def)

lemma reg_agree_register: "reg_agree A r s \<Longrightarrow> reg_agree A (register x t r) (register x t s)"
  by (auto simp: reg_agree_def register_def)

lemma register_list_agree:
  "reg_agree A r s \<Longrightarrow>
   reg_agree A (fold (\<lambda>(x, t). register x (f t)) xs r) (fold (\<lambda>(x, t). register x (f t)) xs s)"
  by (induction xs arbitrary: r s) (auto intro: reg_agree_register)

lemma register_pattern_agree:
  assumes "reg_agree A r s"
  shows "rel_option (reg_agree A) (register_pattern p t r) (register_pattern p t s)"
proof (cases "(p, t, r)" rule: register_pattern.cases)
  case (3 x y zs elems reg)
  then show ?thesis using register_list_agree [OF assms, where f = id] by simp
qed (use assms in \<open>auto intro: reg_agree_register\<close>)

lemma register_case_agree:
  "reg_agree A r s \<Longrightarrow> reg_agree A (register_case p fts targs r) (register_case p fts targs s)"
  unfolding register_case_def by (rule register_list_agree)

lemma lookup_agree:
  assumes "program r = program s"
  shows "function_return_type r f = function_return_type s f"
    and "struct_field_type r k i = struct_field_type s k i"
    and "struct_fields_tuple r k = struct_fields_tuple s k"
    and "find_variant r k tag = find_variant s k tag"
  using assms by (simp_all add: function_return_type_def struct_field_type_def struct_fields_tuple_def find_variant_def)

lemma names_read_child: "c \<in> set (children n) \<Longrightarrow> names_read c \<subseteq> names_read n"
  using names_read_unfold [of n] by blast

theorem get_type_agree: "reg_agree (names_read n) r s \<Longrightarrow> get_type n r = get_type n s"
proof (induction n arbitrary: r s rule: IR_induct)
  case (node n)
  have prog: "program r = program s" using node.prems by (simp add: reg_agree_def)
  have here: "variables r x = variables s x" if "x \<in> node_reads n" for x
    using node.prems that names_read_unfold [of n] by (auto simp: reg_agree_def)
  have down: "reg_agree (names_read c) r s" if "c \<in> set (children n)" for c
    using node.prems names_read_child [OF that] by (rule reg_agree_mono)
  have sub: "get_type c r = get_type c s" if "c \<in> set (children n)" for c
    by (rule node.IH [OF that down [OF that]])
  show ?case
  proof (cases n)
    case (IRLet p v b)
    have "get_type v r = get_type v s" by (rule sub) (simp add: IRLet)
    moreover have "Option.bind (register_pattern p t r) (get_type b) = Option.bind (register_pattern p t s) (get_type b)" for t
    proof -
      have "reg_agree (names_read b) r s" by (rule down) (simp add: IRLet)
      from register_pattern_agree [OF this, of p t] show ?thesis
        using node.IH [of b] by (auto simp: IRLet option_rel_Some1 elim!: option.rel_cases)
    qed
    ultimately show ?thesis by (simp add: IRLet)
  next
    case (IRMatch scr cases)
    show ?thesis
    proof (cases cases)
      case (Cons c rest)
      obtain tag bs body where c: "c = (tag, bs, body)" by (cases c)
      have "get_type scr r = get_type scr s" by (rule sub) (simp add: IRMatch)
      moreover have "get_type body (register_case bs fts ta r) = get_type body (register_case bs fts ta s)" for fts ta
        by (rule node.IH) (auto simp: IRMatch Cons c intro!: register_case_agree down)
      ultimately show ?thesis using lookup_agree [OF prog]
        by (simp add: IRMatch Cons c cong: Type.case_cong)
    qed (simp add: IRMatch)
  next
    case (IRQuantifier k cb p t coll rng)
    have "get_type cb (register p t r) = get_type cb (register p t s)"
      by (rule node.IH) (auto simp: IRQuantifier intro!: reg_agree_register down)
    then show ?thesis by (simp add: IRQuantifier)
  next
    case (IRBitOp b)
    then show ?thesis using sub by (cases b) auto
  next
    case (IRTuple elems)
    then have "map (\<lambda>e. get_type e r) elems = map (\<lambda>e. get_type e s) elems" using sub by simp
    then show ?thesis unfolding IRTuple get_type.simps by (rule arg_cong)
  next
    case (IRUnpack k v vi)
    then show ?thesis using lookup_agree [OF prog] by (cases vi) simp_all
  qed (use here sub lookup_agree [OF prog] in \<open>auto simp: reg_get_type_def write_back_type_def\<close>)
qed

section \<open>Properties\<close>



text \<open>
  The incremental scope contract: the type of a \<open>let\<close> that binds names is the type
  of its body in the registry that \<open>add_node\<close> makes of it.
\<close>

theorem get_type_add_node:
  assumes "pattern \<noteq> []"
  shows "get_type (IRLet pattern v body) reg = Option.bind (add_node (IRLet pattern v body) reg) (get_type body)"
  using assms by (simp add: Option.bind_assoc)

theorem get_type_add_node_witness:
  "get_type (IRLet [''x''] (IRConst (CBool True)) (IRVar ''x''))
      \<lparr>variables = Map.empty, program = \<lparr>structs = is_default, prog_functions = fs_default\<rparr>\<rparr> =
   Option.bind (add_node (IRLet [''x''] (IRConst (CBool True)) (IRVar ''x''))
      \<lparr>variables = Map.empty, program = \<lparr>structs = is_default, prog_functions = fs_default\<rparr>\<rparr>) (get_type (IRVar ''x''))"
  by (rule get_type_add_node) simp

text \<open>
  A filter by a boolean predicate is given the type of a vector of booleans,
  whatever the type of the elements it filters; so are the other quantifiers that
  return elements or indices.
\<close>

theorem filter_type_ignores_elements:
  assumes "get_type callback (register x elem_type reg) = Some TyBool"
    and "kind \<in> {QFilter, QFilterRange, QFind, QFindRange, QFindIndices, QFindIndicesRange}"
  shows "get_type (IRQuantifier kind callback x elem_type coll rng) reg = Some (TyVector TyBool)"
  using assms by (auto simp: quantifier_type_def)

theorem filter_type_ignores_elements_witness:
  "get_type (IRQuantifier QFilter (IRBinOp OpLt (IRVar ''x'') (IRConst (CUInt 64 5))) ''x'' (TyUInt 64) (Some (IRVar ''v'')) None)
      \<lparr>variables = [''v'' \<mapsto> TyVector (TyUInt 64)], program = \<lparr>structs = is_default, prog_functions = fs_default\<rparr>\<rparr>
   = Some (TyVector TyBool)"
  by (rule filter_type_ignores_elements) (simp_all add: binop_type_def)

end
