(* ===== verification/Outcomes.thy ===== *)
theory Outcomes
  imports Prelude "HOL-Library.While_Combinator"
begin

text \<open>
  The outcome of code that may panic or run for ever, and \<open>while\<close> loops of such code.
  A loop that does not end has the outcome \<open>Diverged\<close>; \<open>loop_total\<close> is the rule by which
  the components show that theirs end, with an invariant indexed by a number that falls.
\<close>

section \<open>Outcomes\<close>

datatype 'a outcome = Done 'a | Panicked | Diverged

fun obind :: "'a outcome \<Rightarrow> ('a \<Rightarrow> 'b outcome) \<Rightarrow> 'b outcome" where
  "obind (Done x) f = f x"
| "obind Panicked f = Panicked"
| "obind Diverged f = Diverged"

definition omap :: "('a \<Rightarrow> 'b) \<Rightarrow> 'a outcome \<Rightarrow> 'b outcome" where
  "omap f m = obind m (\<lambda>x. Done (f x))"

fun osequence :: "'a outcome list \<Rightarrow> 'a list outcome" where
  "osequence [] = Done []"
| "osequence (m # ms) = obind m (\<lambda>x. omap (Cons x) (osequence ms))"

lemma obind_Done_iff: "obind m f = Done y \<longleftrightarrow> (\<exists>x. m = Done x \<and> f x = Done y)"
  by (cases m) auto

lemma omap_Done_iff [simp]: "omap f m = Done y \<longleftrightarrow> (\<exists>x. m = Done x \<and> y = f x)"
  by (auto simp: omap_def obind_Done_iff)

lemma omap_simps [simp]: "omap f (Done x) = Done (f x)" "omap f Panicked = Panicked" "omap f Diverged = Diverged"
  by (simp_all add: omap_def)

lemma osequence_Done_iff: "osequence ms = Done xs \<longleftrightarrow> ms = map Done xs"
  by (induction ms arbitrary: xs) (auto simp: obind_Done_iff Cons_eq_map_conv)

section \<open>Loops\<close>

fun running :: "('s \<Rightarrow> bool) \<Rightarrow> 's outcome \<Rightarrow> bool" where
  "running b (Done s) = b s"
| "running b _ = False"

definition loop :: "('s \<Rightarrow> bool) \<Rightarrow> ('s \<Rightarrow> 's outcome) \<Rightarrow> 's \<Rightarrow> 's outcome" where
  "loop b c s = (case while_option (running b) (\<lambda>m. obind m c) (Done s) of None \<Rightarrow> Diverged | Some m \<Rightarrow> m)"

lemma loop_unfold: "loop b c s = (if b s then obind (c s) (loop b c) else Done s)"
proof -
  have stop: "while_option (running b) (\<lambda>m. obind m c) m = Some m" if "\<not> running b m" for m
    using that by (subst while_option_unfold) simp
  have "loop b c s = (case while_option (running b) (\<lambda>m. obind m c) (c s) of None \<Rightarrow> Diverged | Some m \<Rightarrow> m)"
    if "b s"
    using that unfolding loop_def by (subst while_option_unfold) simp
  moreover have "loop b c s = Done s" if "\<not> b s"
    using that unfolding loop_def by (subst while_option_unfold) simp
  ultimately show ?thesis by (cases "c s") (auto simp: stop, simp add: loop_def)
qed

lemma loop_total:
  assumes "\<And>k s. P k s \<Longrightarrow> b s \<Longrightarrow> \<exists>s' k'. c s = Done s' \<and> k' < k \<and> P k' s'"
  shows "P (k :: nat) s \<Longrightarrow> \<exists>t k'. loop b c s = Done t \<and> P k' t \<and> \<not> b t"
proof (induction k arbitrary: s rule: less_induct)
  case (less k)
  show ?case
  proof (cases "b s")
    case True
    obtain s' k' where s': "c s = Done s'" "k' < k" "P k' s'" using assms [OF less.prems True] by blast
    show ?thesis using less.IH [OF s'(2,3)] s'(1) True by (subst loop_unfold) simp
  next
    case False
    then show ?thesis using less.prems by (subst loop_unfold) auto
  qed
qed

text \<open>The common case of a measure on the state.\<close>

lemma loop_measure:
  assumes "\<And>s. P s \<Longrightarrow> b s \<Longrightarrow> \<exists>s'. c s = Done s' \<and> P s' \<and> m s' < (m s :: nat)" "P s"
  shows "\<exists>t. loop b c s = Done t \<and> P t \<and> \<not> b t"
proof -
  have "\<exists>t k'. loop b c s = Done t \<and> (P t \<and> k' = m t) \<and> \<not> b t"
    by (rule loop_total [where P = "\<lambda>k s. P s \<and> k = m s" and k = "m s"]) (use assms in fastforce)+
  then show ?thesis by blast
qed

text \<open>A \<open>for\<close> loop over a list.\<close>

fun ofold :: "('a \<Rightarrow> 's \<Rightarrow> 's outcome) \<Rightarrow> 'a list \<Rightarrow> 's \<Rightarrow> 's outcome" where
  "ofold f [] s = Done s"
| "ofold f (x # xs) s = obind (f x s) (ofold f xs)"

lemma ofold_append: "ofold f (xs @ ys) s = obind (ofold f xs s) (ofold f ys)"
proof (induction xs arbitrary: s)
  case (Cons x xs)
  then show ?case by (cases "f x s") simp_all
qed simp

text \<open>An invariant of a loop over the indices of a list.\<close>

lemma ofold_upt:
  assumes "P m s" "m \<le> n"
    and "\<And>k s. m \<le> k \<Longrightarrow> k < n \<Longrightarrow> P k s \<Longrightarrow> \<exists>s'. f k s = Done s' \<and> P (Suc k) s'"
  shows "\<exists>s'. ofold f [m..<n] s = Done s' \<and> P n s'"
  using assms(2,3)
proof (induction n rule: dec_induct)
  case base
  then show ?case using assms(1) by simp
next
  case (step n)
  obtain s' where s': "ofold f [m..<n] s = Done s'" "P n s'" using step.IH step.prems by auto
  obtain s'' where "f n s' = Done s''" "P (Suc n) s''" using step.prems [of n s'] step.hyps s'(2) by auto
  then show ?case using s' step.hyps by (simp add: ofold_append)
qed

lemma ofold_invariant:
  assumes "P s" "\<And>x s. x \<in> set xs \<Longrightarrow> P s \<Longrightarrow> \<exists>s'. f x s = Done s' \<and> P s'"
  shows "\<exists>s'. ofold f xs s = Done s' \<and> P s'"
  using assms
proof (induction xs arbitrary: s)
  case (Cons x xs)
  obtain s' where "f x s = Done s'" "P s'" using Cons.prems by force
  then show ?case using Cons.IH [of s'] Cons.prems(2) by simp
qed simp

lemma ofold_fold: "(\<And>x s. x \<in> set xs \<Longrightarrow> f x s = Done (g x s)) \<Longrightarrow> ofold f xs s = Done (fold g xs s)"
  by (induction xs arbitrary: s) auto

text \<open>An index into a map panics when the key is absent.\<close>

fun at :: "('k \<rightharpoonup> 'v) \<Rightarrow> 'k \<Rightarrow> 'v outcome" where
  "at m k = (case m k of None \<Rightarrow> Panicked | Some v \<Rightarrow> Done v)"

section \<open>Computations with a state\<close>

text \<open>Closures that change what they capture: a computation takes the captured state and
  returns its result with the new one.\<close>

type_synonym ('s, 'a) comp = "'s \<Rightarrow> ('a \<times> 's) outcome"

definition sret :: "'a \<Rightarrow> ('s, 'a) comp" where
  "sret x = (\<lambda>s. Done (x, s))"

definition sbind :: "('s, 'a) comp \<Rightarrow> ('a \<Rightarrow> ('s, 'b) comp) \<Rightarrow> ('s, 'b) comp" where
  "sbind m f = (\<lambda>s. obind (m s) (\<lambda>(x, s'). f x s'))"

fun smapM :: "('a \<Rightarrow> ('s, 'b) comp) \<Rightarrow> 'a list \<Rightarrow> ('s, 'b list) comp" where
  "smapM f [] = sret []"
| "smapM f (x # xs) = sbind (f x) (\<lambda>y. sbind (smapM f xs) (\<lambda>ys. sret (y # ys)))"

fun smap_option :: "('a \<Rightarrow> ('s, 'b) comp) \<Rightarrow> 'a option \<Rightarrow> ('s, 'b option) comp" where
  "smap_option f None = sret None"
| "smap_option f (Some x) = sbind (f x) (\<lambda>y. sret (Some y))"

lemma smapM_cong [fundef_cong]:
  "xs = ys \<Longrightarrow> (\<And>x. x \<in> set ys \<Longrightarrow> f x = g x) \<Longrightarrow> smapM f xs = smapM g ys"
  by (induction xs arbitrary: ys) auto

lemma smap_option_cong [fundef_cong]:
  "x = y \<Longrightarrow> (\<And>z. z \<in> set_option y \<Longrightarrow> f z = g z) \<Longrightarrow> smap_option f x = smap_option g y"
  by (cases y) auto

lemma sbind_sret [simp]: "sbind (sret x) f = f x"
  by (simp add: sbind_def sret_def)

lemma sret_apply: "sret x s = Done (x, s)"
  by (simp add: sret_def)

lemma smapM_sret [simp]: "(\<And>x. x \<in> set xs \<Longrightarrow> f x = sret (g x)) \<Longrightarrow> smapM f xs = sret (map g xs)"
  by (induction xs) auto

lemma smap_option_sret [simp]:
  "(\<And>z. z \<in> set_option x \<Longrightarrow> f z = sret (g z)) \<Longrightarrow> smap_option f x = sret (map_option g x)"
  by (cases x) auto

end
