(* ===== verification/MoveTy.thy ===== *)
theory MoveTy
  imports Outcomes
begin

text \<open>
  The types of the Move model (\<open>move-model/src/ty.rs\<close>): the \<open>Type\<close> enum (its
  constructors carry an \<open>M\<close> here, its name is taken by the intermediate format), the
  classification functions, instantiation of type parameters, conversion from and
  to type tags, and display.  Module and datatype ids are numbers.  What the global
  environment answers (struct tags, names) is a parameter.

  \<open>replace\<close> follows variables through the substitution and need not come to an end:
  it takes fuel, and its outcome tells a panic (an index past the parameters) from
  running out of fuel.
\<close>

section \<open>Types\<close>

datatype PrimitiveType =
    PBool | PU8 | PU16 | PU32 | PU64 | PU128 | PU256 | PAddress | PSigner | PNum | PRange | PEventStore

datatype MType =
    MPrimitive PrimitiveType
  | MTuple "MType list"
  | MVector MType
  | MDatatype nat nat "MType list"
  | MTypeParameter nat
  | MReference bool MType
  | MFun "MType list" MType
  | MTypeDomain MType
  | MResourceDomain nat nat "MType list option"
  | MError
  | MVar nat

fun prim_is_spec :: "PrimitiveType \<Rightarrow> bool" where
  "prim_is_spec PNum = True"
| "prim_is_spec PRange = True"
| "prim_is_spec PEventStore = True"
| "prim_is_spec _ = False"

fun is_type_parameter :: "MType \<Rightarrow> bool" where
  "is_type_parameter (MTypeParameter _) = True"
| "is_type_parameter _ = False"

fun is_reference :: "MType \<Rightarrow> bool" where
  "is_reference (MReference _ _) = True"
| "is_reference _ = False"

fun is_mutable_reference :: "MType \<Rightarrow> bool" where
  "is_mutable_reference (MReference m _) = m"
| "is_mutable_reference _ = False"

fun is_immutable_reference :: "MType \<Rightarrow> bool" where
  "is_immutable_reference (MReference m _) = (\<not> m)"
| "is_immutable_reference _ = False"

fun is_struct :: "MType \<Rightarrow> bool" where
  "is_struct (MDatatype _ _ _) = True"
| "is_struct _ = False"

fun is_vector :: "MType \<Rightarrow> bool" where
  "is_vector (MVector _) = True"
| "is_vector _ = False"

fun skip_reference :: "MType \<Rightarrow> MType" where
  "skip_reference (MReference _ bt) = bt"
| "skip_reference t = t"

lemma size_skip_reference: "size (skip_reference t) \<le> size t"
  by (cases t) auto

function is_struct_or_vector_of_struct :: "MType \<Rightarrow> bool" where
  "is_struct_or_vector_of_struct t = (case skip_reference t of
     MDatatype _ _ _ \<Rightarrow> True
   | MVector ety \<Rightarrow> is_struct_or_vector_of_struct ety
   | _ \<Rightarrow> False)"
  by pat_completeness auto
termination
proof (relation "measure size", simp)
  fix t ety assume "skip_reference t = MVector ety"
  then have "size ety < size (skip_reference t)" by simp
  also have "\<dots> \<le> size t" by (rule size_skip_reference)
  finally show "(ety, t) \<in> measure size" by simp
qed

fun mty_is_spec :: "MType \<Rightarrow> bool" where
  "mty_is_spec (MPrimitive p) = prim_is_spec p"
| "mty_is_spec (MFun _ _) = True"
| "mty_is_spec (MTypeDomain _) = True"
| "mty_is_spec (MResourceDomain _ _ _) = True"
| "mty_is_spec MError = True"
| "mty_is_spec (MVar _) = False"
| "mty_is_spec (MTypeParameter _) = False"
| "mty_is_spec (MTuple ts) = list_ex mty_is_spec ts"
| "mty_is_spec (MDatatype _ _ ts) = list_ex mty_is_spec ts"
| "mty_is_spec (MVector et) = mty_is_spec et"
| "mty_is_spec (MReference _ bt) = mty_is_spec bt"

definition mty_is_bool :: "MType \<Rightarrow> bool" where
  "mty_is_bool t = (t = MPrimitive PBool)"

fun is_number :: "MType \<Rightarrow> bool" where
  "is_number (MPrimitive p) = (p \<in> {PU8, PU16, PU32, PU64, PU128, PU256, PNum})"
| "is_number _ = False"

fun get_bit_width :: "MType \<Rightarrow> nat option" where
  "get_bit_width (MPrimitive PU8) = Some 8"
| "get_bit_width (MPrimitive PU16) = Some 16"
| "get_bit_width (MPrimitive PU32) = Some 32"
| "get_bit_width (MPrimitive PU64) = Some 64"
| "get_bit_width (MPrimitive PU128) = Some 128"
| "get_bit_width (MPrimitive PU256) = Some 256"
| "get_bit_width _ = None"

definition is_signer_or_address :: "MType \<Rightarrow> bool" where
  "is_signer_or_address t = (t = MPrimitive PSigner \<or> t = MPrimitive PAddress)"

definition is_address :: "MType \<Rightarrow> bool" where
  "is_address t = (t = MPrimitive PAddress)"

definition is_signer :: "MType \<Rightarrow> bool" where
  "is_signer t = (t = MPrimitive PSigner)"

fun can_be_type_argument :: "MType \<Rightarrow> bool" where
  "can_be_type_argument (MPrimitive p) = (\<not> prim_is_spec p)"
| "can_be_type_argument (MTuple _) = False"
| "can_be_type_argument (MVector e) = can_be_type_argument e"
| "can_be_type_argument (MDatatype _ _ insts) = list_all can_be_type_argument insts"
| "can_be_type_argument (MTypeParameter _) = True"
| "can_be_type_argument _ = False"

fun replace_datatype_instantiation :: "MType \<Rightarrow> MType list \<Rightarrow> MType" where
  "replace_datatype_instantiation (MDatatype mid sid _) inst = MDatatype mid sid inst"
| "replace_datatype_instantiation t inst = t"

text \<open>The functions that require a shape panic without it.\<close>

fun require_datatype :: "MType \<Rightarrow> (nat \<times> nat \<times> MType list) option" where
  "require_datatype (MDatatype mid sid targs) = Some (mid, sid, targs)"
| "require_datatype _ = None"

definition vector_element_type :: "MType \<Rightarrow> MType option" where
  "vector_element_type t = (case skip_reference t of MVector e \<Rightarrow> Some e | _ \<Rightarrow> None)"

fun get_datatype :: "MType \<Rightarrow> ((nat \<times> nat) \<times> MType list) option" where
  "get_datatype (MDatatype mid sid targs) = Some ((mid, sid), targs)"
| "get_datatype _ = None"

text \<open>\<open>contains\<close> asks the predicate of the elements of a list, and does not descend into them.\<close>

fun mty_contains :: "(MType \<Rightarrow> bool) \<Rightarrow> MType \<Rightarrow> bool" where
  "mty_contains p (MReference m bt) = (p (MReference m bt) \<or> mty_contains p bt)"
| "mty_contains p (MDatatype mid sid args) = (p (MDatatype mid sid args) \<or> list_ex p args)"
| "mty_contains p (MFun args result) = (p (MFun args result) \<or> list_ex p args \<or> mty_contains p result)"
| "mty_contains p (MTuple args) = (p (MTuple args) \<or> list_ex p args)"
| "mty_contains p (MVector et) = (p (MVector et) \<or> mty_contains p et)"
| "mty_contains p t = p t"

fun is_incomplete :: "MType \<Rightarrow> bool" where
  "is_incomplete (MVar _) = True"
| "is_incomplete (MTuple ts) = list_ex is_incomplete ts"
| "is_incomplete (MFun ts r) = (list_ex is_incomplete ts \<or> is_incomplete r)"
| "is_incomplete (MDatatype _ _ ts) = list_ex is_incomplete ts"
| "is_incomplete (MVector et) = is_incomplete et"
| "is_incomplete (MReference _ bt) = is_incomplete bt"
| "is_incomplete (MTypeDomain bt) = is_incomplete bt"
| "is_incomplete _ = False"

text \<open>\<open>visit\<close> calls the visitor on every type in postorder: the list of the calls.\<close>

fun visited :: "MType \<Rightarrow> MType list" where
  "visited (MTuple tys) = concat (map visited tys) @ [MTuple tys]"
| "visited (MVector bt) = visited bt @ [MVector bt]"
| "visited (MDatatype mid sid tys) = concat (map visited tys) @ [MDatatype mid sid tys]"
| "visited (MReference m ty) = visited ty @ [MReference m ty]"
| "visited (MFun tys ty) = concat (map visited tys) @ visited ty @ [MFun tys ty]"
| "visited (MTypeDomain bt) = visited bt @ [MTypeDomain bt]"
| "visited t = [t]"

definition visit :: "(MType \<Rightarrow> 's \<Rightarrow> 's) \<Rightarrow> MType \<Rightarrow> 's \<Rightarrow> 's" where
  "visit visitor t st = fold visitor (visited t) st"

definition is_open :: "MType \<Rightarrow> bool" where
  "is_open t = visit (\<lambda>u has_var. has_var \<or> is_type_parameter u) t False"

fun module_usage :: "MType \<Rightarrow> nat set \<Rightarrow> nat set" where
  "module_usage (MTuple ts) usage = fold module_usage ts usage"
| "module_usage (MFun ts r) usage = module_usage r (fold module_usage ts usage)"
| "module_usage (MDatatype mid _ ts) usage = fold module_usage ts (insert mid usage)"
| "module_usage (MVector et) usage = module_usage et usage"
| "module_usage (MReference _ bt) usage = module_usage bt usage"
| "module_usage (MTypeDomain bt) usage = module_usage bt usage"
| "module_usage _ usage = usage"

fun internal_get_vars :: "MType \<Rightarrow> nat set \<Rightarrow> nat set" where
  "internal_get_vars (MVar i) vars = insert i vars"
| "internal_get_vars (MTuple ts) vars = fold internal_get_vars ts vars"
| "internal_get_vars (MFun ts r) vars = fold internal_get_vars ts (internal_get_vars r vars)"
| "internal_get_vars (MDatatype _ _ ts) vars = fold internal_get_vars ts vars"
| "internal_get_vars (MVector et) vars = internal_get_vars et vars"
| "internal_get_vars (MReference _ bt) vars = internal_get_vars bt vars"
| "internal_get_vars (MTypeDomain bt) vars = internal_get_vars bt vars"
| "internal_get_vars _ vars = vars"

definition get_vars :: "MType \<Rightarrow> nat set" where
  "get_vars t = internal_get_vars t {}"

section \<open>Replacement of parameters and variables\<close>

type_synonym subst = "nat \<rightharpoonup> MType"

function (sequential) mreplace :: "nat \<Rightarrow> MType list option \<Rightarrow> subst option \<Rightarrow> MType \<Rightarrow> MType outcome" where
  "mreplace fuel params subs (MTypeParameter i) =
     (case params of
        Some ps \<Rightarrow> if i < length ps then Done (ps ! i) else Panicked
      | None \<Rightarrow> Done (MTypeParameter i))"
| "mreplace fuel params subs (MVar i) =
     (case subs of
        Some s \<Rightarrow>
          (case s i of
             Some t \<Rightarrow> (case fuel of 0 \<Rightarrow> Diverged | Suc k \<Rightarrow> mreplace k params subs t)
           | None \<Rightarrow> Done (MVar i))
      | None \<Rightarrow> Done (MVar i))"
| "mreplace fuel params subs (MReference m bt) = omap (MReference m) (mreplace fuel params subs bt)"
| "mreplace fuel params subs (MDatatype mid sid args) =
     omap (MDatatype mid sid) (osequence (map (\<lambda>t. mreplace fuel params subs t) args))"
| "mreplace fuel params subs (MFun args result) =
     obind (osequence (map (\<lambda>t. mreplace fuel params subs t) args))
       (\<lambda>as. omap (MFun as) (mreplace fuel params subs result))"
| "mreplace fuel params subs (MTuple args) =
     omap MTuple (osequence (map (\<lambda>t. mreplace fuel params subs t) args))"
| "mreplace fuel params subs (MVector et) = omap MVector (mreplace fuel params subs et)"
| "mreplace fuel params subs (MTypeDomain et) = omap MTypeDomain (mreplace fuel params subs et)"
| "mreplace fuel params subs (MResourceDomain mid sid args_opt) =
     (case args_opt of
        None \<Rightarrow> Done (MResourceDomain mid sid None)
      | Some args \<Rightarrow>
          omap (\<lambda>as. MResourceDomain mid sid (Some as)) (osequence (map (\<lambda>t. mreplace fuel params subs t) args)))"
| "mreplace fuel params subs t = Done t"
  by pat_completeness auto
termination
  by (relation "measures [\<lambda>(fuel, _, _, _). fuel, \<lambda>(_, _, _, t). size t]")
    (auto simp: less_Suc_eq_le intro: size_list_estimation' trans_le_add1 le_SucI)

definition mty_instantiate :: "MType \<Rightarrow> MType list \<Rightarrow> MType outcome" where
  "mty_instantiate t params = (if params = [] then Done t else mreplace 0 (Some params) None t)"

definition instantiate_slice :: "MType list \<Rightarrow> MType list \<Rightarrow> MType list outcome" where
  "instantiate_slice ts params =
     (if params = [] then Done ts else osequence (map (\<lambda>t. mty_instantiate t params) ts))"

text \<open>The map is walked in the order of its keys; an index past the arity panics.\<close>

definition type_param_map_to_inst :: "nat \<Rightarrow> (nat \<times> MType) list \<Rightarrow> MType list outcome" where
  "type_param_map_to_inst arity m =
     fold (\<lambda>(i, ty) r. obind r (\<lambda>inst. if i < length inst then Done (inst[i := ty]) else Panicked))
       m (Done (map (\<lambda>i. MTypeParameter (i mod 2 ^ 16)) [0..<arity]))"

section \<open>Type tags\<close>

text \<open>The tags of the \<open>move-core-types\<close> crate, over an abstract struct tag.\<close>

datatype 's TypeTag =
    TagBool | TagU8 | TagU16 | TagU32 | TagU64 | TagU128 | TagU256 | TagAddress | TagSigner
  | TagStruct 's "'s TypeTag list"
  | TagVector "'s TypeTag"

fun prim_into_type_tag :: "PrimitiveType \<Rightarrow> 's TypeTag option" where
  "prim_into_type_tag PBool = Some TagBool"
| "prim_into_type_tag PU8 = Some TagU8"
| "prim_into_type_tag PU16 = Some TagU16"
| "prim_into_type_tag PU32 = Some TagU32"
| "prim_into_type_tag PU64 = Some TagU64"
| "prim_into_type_tag PU128 = Some TagU128"
| "prim_into_type_tag PU256 = Some TagU256"
| "prim_into_type_tag PAddress = Some TagAddress"
| "prim_into_type_tag PSigner = Some TagSigner"
| "prim_into_type_tag _ = None"

text \<open>
  \<open>into_type_tag\<close>: nothing for a type with no tag, a panic for a specification
  primitive and for an argument with no tag.  \<open>tag_of\<close> is the part of
  \<open>GlobalEnv::get_struct_tag\<close> that names the datatype.
\<close>

definition unwrap :: "'a option outcome \<Rightarrow> 'a outcome" where
  "unwrap m = obind m (\<lambda>r. case r of None \<Rightarrow> Panicked | Some x \<Rightarrow> Done x)"

fun into_type_tag :: "(nat \<Rightarrow> nat \<Rightarrow> 's option) \<Rightarrow> MType \<Rightarrow> 's TypeTag option outcome" where
  "into_type_tag tag_of (MPrimitive p) =
     (case prim_into_type_tag p of Some t \<Rightarrow> Done (Some t) | None \<Rightarrow> Panicked)"
| "into_type_tag tag_of (MDatatype mid sid ts) =
     (case tag_of mid sid of
        None \<Rightarrow> Done None
      | Some s \<Rightarrow>
          omap (\<lambda>ps. Some (TagStruct s ps)) (osequence (map (\<lambda>t. unwrap (into_type_tag tag_of t)) ts)))"
| "into_type_tag tag_of (MVector et) = omap (\<lambda>t. Some (TagVector t)) (unwrap (into_type_tag tag_of et))"
| "into_type_tag tag_of _ = Done None"

fun into_struct_tag :: "(nat \<Rightarrow> nat \<Rightarrow> 's option) \<Rightarrow> MType \<Rightarrow> ('s \<times> 's TypeTag list) option outcome" where
  "into_struct_tag tag_of t =
     omap (\<lambda>r. case r of Some (TagStruct s ps) \<Rightarrow> Some (s, ps) | _ \<Rightarrow> None) (into_type_tag tag_of t)"

text \<open>
  \<open>from_type_tag\<close>; \<open>resolve\<close> stands for \<open>find_datatype_by_tag\<close>, an unknown struct panics.
\<close>

fun from_type_tag :: "('s \<Rightarrow> (nat \<times> nat) option) \<Rightarrow> 's TypeTag \<Rightarrow> MType option" where
  "from_type_tag resolve TagBool = Some (MPrimitive PBool)"
| "from_type_tag resolve TagU8 = Some (MPrimitive PU8)"
| "from_type_tag resolve TagU16 = Some (MPrimitive PU8)"
| "from_type_tag resolve TagU32 = Some (MPrimitive PU8)"
| "from_type_tag resolve TagU64 = Some (MPrimitive PU64)"
| "from_type_tag resolve TagU128 = Some (MPrimitive PU128)"
| "from_type_tag resolve TagU256 = Some (MPrimitive PU8)"
| "from_type_tag resolve TagAddress = Some (MPrimitive PAddress)"
| "from_type_tag resolve TagSigner = Some (MPrimitive PSigner)"
| "from_type_tag resolve (TagStruct s params) =
     (case resolve s of
        None \<Rightarrow> None
      | Some (mid, sid) \<Rightarrow> map_option (MDatatype mid sid) (sequence (map (from_type_tag resolve) params)))"
| "from_type_tag resolve (TagVector t) = map_option MVector (from_type_tag resolve t)"

section \<open>Display\<close>

fun prim_display :: "PrimitiveType \<Rightarrow> string" where
  "prim_display PBool = ''bool''"
| "prim_display PU8 = ''u8''"
| "prim_display PU16 = ''u16''"
| "prim_display PU32 = ''u32''"
| "prim_display PU64 = ''u64''"
| "prim_display PU128 = ''u128''"
| "prim_display PU256 = ''u256''"
| "prim_display PAddress = ''address''"
| "prim_display PSigner = ''signer''"
| "prim_display PRange = ''range''"
| "prim_display PNum = ''num''"
| "prim_display PEventStore = ''estore''"

text \<open>Decimal digits, as \<open>write!\<close> formats an integer.\<close>

fun digits :: "nat \<Rightarrow> string" where
  "digits n = (if n < 10 then [char_of (48 + n)] else digits (n div 10) @ [char_of (48 + n mod 10)])"

declare digits.simps [simp del]

fun comma_list :: "string list \<Rightarrow> string" where
  "comma_list [] = []"
| "comma_list [x] = x"
| "comma_list (x # xs) = x @ '', '' @ comma_list xs"

text \<open>\<open>names\<close> are the type parameter names of the context, \<open>str\<close> the name of a datatype.\<close>

fun mty_display :: "(nat \<Rightarrow> nat \<Rightarrow> string) \<Rightarrow> string list \<Rightarrow> MType \<Rightarrow> string" where
  "mty_display str names (MPrimitive p) = prim_display p"
| "mty_display str names (MTuple ts) = ''('' @ comma_list (map (mty_display str names) ts) @ '')''"
| "mty_display str names (MVector t) = ''vector<'' @ mty_display str names t @ ''>''"
| "mty_display str names (MTypeDomain t) = ''domain<'' @ mty_display str names t @ ''>''"
| "mty_display str names (MResourceDomain mid sid inst_opt) =
     ''resources<'' @ str mid sid
       @ (case inst_opt of None \<Rightarrow> [] | Some inst \<Rightarrow> ''<'' @ comma_list (map (mty_display str names) inst) @ ''>'')
       @ ''>''"
| "mty_display str names (MFun ts t) =
     ''|'' @ comma_list (map (mty_display str names) ts) @ ''|'' @ mty_display str names t"
| "mty_display str names (MDatatype mid sid ts) =
     str mid sid @ (if ts = [] then [] else ''<'' @ comma_list (map (mty_display str names) ts) @ ''>'')"
| "mty_display str names (MReference m t) =
     ''&'' @ (if m then ''mut '' else []) @ mty_display str names t"
| "mty_display str names (MTypeParameter i) =
     (if i < length names then names ! i else ''#'' @ digits i)"
| "mty_display str names (MVar i) = ''?'' @ digits i"
| "mty_display str names MError = ''*error*''"

section \<open>Instantiation is substitution\<close>

fun mparams :: "MType \<Rightarrow> nat set" where
  "mparams (MTypeParameter i) = {i}"
| "mparams (MTuple ts) = (\<Union>t\<in>set ts. mparams t)"
| "mparams (MVector t) = mparams t"
| "mparams (MDatatype _ _ ts) = (\<Union>t\<in>set ts. mparams t)"
| "mparams (MReference _ t) = mparams t"
| "mparams (MFun ts r) = (\<Union>t\<in>set ts. mparams t) \<union> mparams r"
| "mparams (MTypeDomain t) = mparams t"
| "mparams (MResourceDomain _ _ args) = (case args of None \<Rightarrow> {} | Some ts \<Rightarrow> \<Union>t\<in>set ts. mparams t)"
| "mparams _ = {}"

fun mvars :: "MType \<Rightarrow> nat set" where
  "mvars (MVar i) = {i}"
| "mvars (MTuple ts) = (\<Union>t\<in>set ts. mvars t)"
| "mvars (MVector t) = mvars t"
| "mvars (MDatatype _ _ ts) = (\<Union>t\<in>set ts. mvars t)"
| "mvars (MReference _ t) = mvars t"
| "mvars (MFun ts r) = (\<Union>t\<in>set ts. mvars t) \<union> mvars r"
| "mvars (MTypeDomain t) = mvars t"
| "mvars (MResourceDomain _ _ args) = (case args of None \<Rightarrow> {} | Some ts \<Rightarrow> \<Union>t\<in>set ts. mvars t)"
| "mvars _ = {}"

text \<open>The simultaneous substitution of parameters and variables, a total function.\<close>

fun msubst :: "(nat \<Rightarrow> MType) \<Rightarrow> (nat \<Rightarrow> MType) \<Rightarrow> MType \<Rightarrow> MType" where
  "msubst f g (MTypeParameter i) = f i"
| "msubst f g (MVar i) = g i"
| "msubst f g (MTuple ts) = MTuple (map (msubst f g) ts)"
| "msubst f g (MVector t) = MVector (msubst f g t)"
| "msubst f g (MDatatype m s ts) = MDatatype m s (map (msubst f g) ts)"
| "msubst f g (MReference m t) = MReference m (msubst f g t)"
| "msubst f g (MFun ts r) = MFun (map (msubst f g) ts) (msubst f g r)"
| "msubst f g (MTypeDomain t) = MTypeDomain (msubst f g t)"
| "msubst f g (MResourceDomain m s args) = MResourceDomain m s (map_option (map (msubst f g)) args)"
| "msubst f g t = t"

lemma osequence_map_partial:
  "(\<And>x. x \<in> set xs \<Longrightarrow> h x = (if P x then Done (g x) else Panicked)) \<Longrightarrow>
   osequence (map h xs) = (if \<forall>x\<in>set xs. P x then Done (map g xs) else Panicked)"
  by (induction xs) auto

lemma mreplace_params:
  "mreplace fuel (Some ps) None t =
     (if \<forall>i\<in>mparams t. i < length ps then Done (msubst (\<lambda>i. ps ! i) MVar t) else Panicked)"
proof (induction t rule: mparams.induct)
  case (8 m s args)
  then show ?case
    by (cases args) (auto simp: osequence_map_partial
        [where P = "\<lambda>t. \<forall>i\<in>mparams t. i < length ps" and g = "msubst (\<lambda>i. ps ! i) MVar"])
next
  case (6 ts r)
  then show ?case
    by (simp add: osequence_map_partial
        [where P = "\<lambda>t. \<forall>i\<in>mparams t. i < length ps" and g = "msubst (\<lambda>i. ps ! i) MVar"]) blast
qed (auto simp: osequence_map_partial
        [where P = "\<lambda>t. \<forall>i\<in>mparams t. i < length ps" and g = "msubst (\<lambda>i. ps ! i) MVar"])

lemma msubst_cong:
  "(\<forall>i\<in>mparams t. f i = f' i) \<Longrightarrow> (\<forall>i\<in>mvars t. g i = g' i) \<Longrightarrow> msubst f g t = msubst f' g' t"
proof (induction t rule: mparams.induct)
  case (8 m s args)
  then show ?case by (cases args) auto
next
  case (6 ts r)
  then show ?case by (simp add: ball_Un)
qed auto

lemma msubst_msubst: "msubst f g (msubst f' g' t) = msubst (\<lambda>i. msubst f g (f' i)) (\<lambda>i. msubst f g (g' i)) t"
proof (induction t rule: mparams.induct)
  case (8 m s args)
  then show ?case by (cases args) auto
qed auto

lemma msubst_id [simp]: "msubst MTypeParameter MVar t = t"
proof (induction t rule: mparams.induct)
  case (8 m s args)
  then show ?case by (cases args) (auto intro: map_idI)
qed (auto intro: map_idI)

section \<open>Specialization ends on acyclic substitutions\<close>

text \<open>A substitution is acyclic when a rank falls from a variable to those of its value.\<close>

definition ranked :: "(nat \<Rightarrow> nat) \<Rightarrow> subst \<Rightarrow> bool" where
  "ranked r s \<longleftrightarrow> (\<forall>x t. s x = Some t \<longrightarrow> (\<forall>y\<in>mvars t. r y < r x))"

lemma osequence_map_solved:
  assumes "\<And>x. x \<in> set xs \<Longrightarrow> \<exists>u. h x = Done u \<and> mvars u \<inter> D = {}"
  shows "\<exists>us. osequence (map h xs) = Done us \<and> (\<Union>u\<in>set us. mvars u) \<inter> D = {}"
  using assms by (induction xs) fastforce+

lemma mreplace_ranked:
  assumes "ranked r s"
  shows "\<forall>y\<in>mvars t. r y < fuel \<Longrightarrow> \<exists>u. mreplace fuel None (Some s) t = Done u \<and> mvars u \<inter> dom s = {}"
proof (induction fuel "None :: MType list option" "Some s" t rule: mreplace.induct)
  case (2 fuel i)
  show ?case
  proof (cases "s i")
    case (Some t)
    obtain k where k: "fuel = Suc k" using 2(2) by (cases fuel) auto
    have "\<forall>y\<in>mvars t. r y < k" using assms Some 2(2) k unfolding ranked_def by fastforce
    then show ?thesis using 2(1) [OF refl Some k] Some k by simp
  qed (auto simp: domIff)
next
  case (4 fuel mid sid args)
  then show ?case using osequence_map_solved [of args "mreplace fuel None (Some s)" "dom s"] by fastforce
next
  case (5 fuel args result)
  obtain us where "osequence (map (mreplace fuel None (Some s)) args) = Done us" "(\<Union>u\<in>set us. mvars u) \<inter> dom s = {}"
    using osequence_map_solved [of args "mreplace fuel None (Some s)" "dom s"] 5 by fastforce
  moreover obtain u where "mreplace fuel None (Some s) result = Done u" "mvars u \<inter> dom s = {}"
    using 5 by auto
  ultimately show ?case by auto
next
  case (6 fuel args)
  then show ?case using osequence_map_solved [of args "mreplace fuel None (Some s)" "dom s"] by fastforce
next
  case (9 fuel mid sid args_opt)
  then show ?case
    using osequence_map_solved [of "the args_opt" "mreplace fuel None (Some s)" "dom s"]
    by (cases args_opt) fastforce+
qed auto

section \<open>Properties\<close>

text \<open>
  C25: instantiating a type substitutes the parameters, and panics exactly when the
  instantiation is not empty and the type mentions a parameter past its end.
\<close>

theorem instantiate_correct:
  "mty_instantiate t ps =
     (if ps = [] then Done t
      else if \<forall>i\<in>mparams t. i < length ps then Done (msubst (\<lambda>i. ps ! i) MVar t) else Panicked)"
  by (simp add: mty_instantiate_def mreplace_params)

theorem instantiate_correct_witness:
  "mty_instantiate (MVector (MTypeParameter 0)) [MPrimitive PBool] = Done (MVector (MPrimitive PBool))"
  using instantiate_correct [of "MVector (MTypeParameter 0)" "[MPrimitive PBool]"] by simp

text \<open>
  C26: specializing by an acyclic substitution ends, with fuel above the rank of the
  variables of the type, and leaves no variable the substitution binds.
\<close>

theorem specialize_ends:
  assumes "ranked r s" "\<forall>y\<in>mvars t. r y < fuel"
  shows "\<exists>u. mreplace fuel None (Some s) t = Done u \<and> mvars u \<inter> dom s = {}"
  using mreplace_ranked [OF assms(1)] assms(2) by blast

theorem specialize_ends_witness:
  "\<exists>u. mreplace 2 None (Some [0 \<mapsto> MVector (MVar 1)]) (MTuple [MVar 0, MVar 1]) = Done u
     \<and> mvars u \<inter> dom [0 \<mapsto> MVector (MVar 1)] = {}"
  by (rule specialize_ends [where r = "\<lambda>x. 1 - x"]) (auto simp: ranked_def)

text \<open>The types whose tags convert back: no \<open>u16\<close>, \<open>u32\<close> or \<open>u256\<close> anywhere.\<close>

fun tag_stable :: "MType \<Rightarrow> bool" where
  "tag_stable (MPrimitive p) = (p \<notin> {PU16, PU32, PU256})"
| "tag_stable (MDatatype _ _ ts) = list_all tag_stable ts"
| "tag_stable (MVector t) = tag_stable t"
| "tag_stable _ = True"

lemma unwrap_Done: "unwrap m = Done x \<longleftrightarrow> m = Done (Some x)"
  by (cases m) (auto simp: unwrap_def split: option.splits)

lemma sequence_map_back:
  assumes "map (\<lambda>t. unwrap (h t)) ts = map Done ps"
    and "\<And>t p. t \<in> set ts \<Longrightarrow> h t = Done (Some p) \<Longrightarrow> k p = Some t"
  shows "sequence (map k ps) = Some ts"
  using assms
proof (induction ts arbitrary: ps)
  case (Cons t ts)
  then obtain p qs where p: "ps = p # qs" "h t = Done (Some p)" "map (\<lambda>t. unwrap (h t)) ts = map Done qs"
    by (auto simp: Cons_eq_map_conv unwrap_Done)
  have "sequence (map k qs) = Some ts" by (rule Cons.IH [OF p(3)]) (use Cons.prems(2) in auto)
  then show ?case using Cons.prems(2) [of t p] p by simp
qed simp

lemma tag_roundtrip:
  assumes "\<And>mid sid s. tag_of mid sid = Some s \<Longrightarrow> resolve s = Some (mid, sid)"
  shows "tag_stable t \<Longrightarrow> into_type_tag tag_of t = Done (Some tag) \<Longrightarrow> from_type_tag resolve tag = Some t"
proof (induction t arbitrary: tag rule: tag_stable.induct)
  case (1 p)
  then show ?case by (cases p) auto
next
  case (2 mid sid ts)
  then obtain s ps where s: "tag_of mid sid = Some s" "tag = TagStruct s ps"
    "map (\<lambda>t. unwrap (into_type_tag tag_of t)) ts = map Done ps"
    by (auto simp: osequence_Done_iff split: option.splits)
  have "sequence (map (from_type_tag resolve) ps) = Some ts"
    by (rule sequence_map_back [OF s(3)]) (use 2 in \<open>auto simp: list_all_iff\<close>)
  then show ?case using s assms by simp
qed (auto simp: unwrap_Done)

text \<open>
  C40: a type converted to a tag and back is the type again, when it has no \<open>u16\<close>, \<open>u32\<close>
  or \<open>u256\<close> in it and the environment resolves the tags it makes.
\<close>

theorem type_tag_roundtrip:
  assumes "\<And>mid sid s. tag_of mid sid = Some s \<Longrightarrow> resolve s = Some (mid, sid)"
    and "tag_stable t" "into_type_tag tag_of t = Done (Some tag)"
  shows "from_type_tag resolve tag = Some t"
  by (rule tag_roundtrip [OF _ assms(2,3)]) (rule assms(1))

theorem type_tag_roundtrip_witness:
  "from_type_tag (\<lambda>s. Some s) (TagVector (TagStruct (1, 2) [TagU64])) = Some (MVector (MDatatype 1 2 [MPrimitive PU64]))"
  by (rule type_tag_roundtrip [where tag_of = "\<lambda>mid sid. Some (mid, sid)"]) (auto simp: unwrap_def)

text \<open>The tags of \<open>u16\<close>, \<open>u32\<close> and \<open>u256\<close> convert back to \<open>u8\<close>.\<close>

theorem type_tag_narrows:
  assumes "p \<in> {PU16, PU32, PU256}"
  shows "\<exists>tag. into_type_tag tag_of (MPrimitive p) = Done (Some tag)
    \<and> from_type_tag resolve tag = Some (MPrimitive PU8)"
  using assms by auto

theorem type_tag_narrows_witness:
  "\<exists>tag. into_type_tag (\<lambda>_ _. Some ()) (MPrimitive PU256) = Done (Some tag)
    \<and> from_type_tag (\<lambda>_. None) tag = Some (MPrimitive PU8)"
  by (rule type_tag_narrows) simp

end
