(* ===== verification/Unification.thy ===== *)
theory Unification
  imports MoveTy
begin

text \<open>
  Unification of Move types (\<open>Substitution\<close>, \<open>TypeUnificationAdapter\<close> and
  \<open>TypeInstantiationDerivation\<close> in \<open>move-model/src/ty.rs\<close>).  The substitution is
  threaded through the calls, an error is the left side of a sum and leaves the
  substitution in the state it had.  The mutual recursion of \<open>unify\<close>, \<open>unify_vec\<close> and
  \<open>try_substitute_or_assign\<close> need not end, because the cycle check looks only one list
  deep: it takes fuel, and \<open>Diverged\<close> is running out of it.

  The specification is equality of the two types under every solution of the
  substitution, up to what the compatibility rules of the code erase: references, and
  for the variances that allow it the difference between integer types.
\<close>

section \<open>Substitutions\<close>

datatype Variance = VAllow | VShallow | VDisallow

datatype unify_error =
    TypeMismatch MType MType
  | ArityMismatch string nat nat
  | CyclicSubstitution MType MType

type_synonym 'a ures = "((unify_error + 'a) \<times> subst) outcome"

definition subst_new :: subst where
  "subst_new = Map.empty"

definition subst_bind :: "nat \<Rightarrow> MType \<Rightarrow> subst \<Rightarrow> subst" where
  "subst_bind var ty s = s(var \<mapsto> ty)"

definition specialize :: "nat \<Rightarrow> subst \<Rightarrow> MType \<Rightarrow> MType outcome" where
  "specialize fuel s t = mreplace fuel None (Some s) t"

fun get_substitution :: "nat \<Rightarrow> subst \<Rightarrow> nat \<Rightarrow> bool \<Rightarrow> MType option outcome" where
  "get_substitution fuel s var shallow =
     (case s var of
        None \<Rightarrow> Done None
      | Some (MVar next_var) \<Rightarrow>
          if shallow then Done (Some (MVar next_var))
          else (case fuel of 0 \<Rightarrow> Diverged | Suc k \<Rightarrow> get_substitution k s next_var False)
      | Some subst_ty \<Rightarrow> Done (Some subst_ty))"

declare get_substitution.simps [simp del]

section \<open>unify\<close>

definition uok :: "'a \<Rightarrow> subst \<Rightarrow> 'a ures" where
  "uok x s = Done (Inr x, s)"

definition ubind :: "'a ures \<Rightarrow> ('a \<Rightarrow> subst \<Rightarrow> 'b ures) \<Rightarrow> 'b ures" where
  "ubind m f = obind m (\<lambda>(r, s). case r of Inl e \<Rightarrow> Done (Inl e, s) | Inr x \<Rightarrow> f x s)"

fun sub_variance :: "Variance \<Rightarrow> Variance" where
  "sub_variance VAllow = VAllow"
| "sub_variance _ = VDisallow"

definition mismatch :: "nat \<Rightarrow> MType \<Rightarrow> MType \<Rightarrow> subst \<Rightarrow> 'a ures" where
  "mismatch fuel t1 t2 s =
     obind (specialize fuel s t1) (\<lambda>a. obind (specialize fuel s t2) (\<lambda>b. Done (Inl (TypeMismatch a b), s)))"

fun unify_list :: "(MType \<Rightarrow> MType \<Rightarrow> subst \<Rightarrow> MType ures) \<Rightarrow> MType list \<Rightarrow> MType list \<Rightarrow> subst \<Rightarrow> MType list ures" where
  "unify_list U (t1 # ts1) (t2 # ts2) s =
     ubind (U t1 t2 s) (\<lambda>r s. ubind (unify_list U ts1 ts2 s) (\<lambda>rs s. uok (r # rs) s))"
| "unify_list U _ _ s = uok [] s"

definition unify_vec ::
  "(MType \<Rightarrow> MType \<Rightarrow> subst \<Rightarrow> MType ures) \<Rightarrow> MType list \<Rightarrow> MType list \<Rightarrow> string \<Rightarrow> subst \<Rightarrow> MType list ures" where
  "unify_vec U ts1 ts2 item_name s =
     (if length ts1 \<noteq> length ts2 then Done (Inl (ArityMismatch item_name (length ts1) (length ts2)), s)
      else unify_list U ts1 ts2 s)"

definition try_substitute_or_assign ::
  "nat \<Rightarrow> (MType \<Rightarrow> MType \<Rightarrow> subst \<Rightarrow> MType ures) \<Rightarrow> bool \<Rightarrow> MType \<Rightarrow> MType \<Rightarrow> subst \<Rightarrow> MType option ures" where
  "try_substitute_or_assign fuel U swapped t1 t2 s =
     (case t1 of
        MVar v1 \<Rightarrow>
          (case s v1 of
             Some s1 \<Rightarrow>
               ubind (if swapped then U t2 s1 s else U s1 t2 s) (\<lambda>r s. uok (Some r) s)
           | None \<Rightarrow>
               if t2 = MVar v1 then uok (Some t1) s
               else if \<not> mty_contains (\<lambda>t. t = MVar v1) t2 then uok (Some t2) (subst_bind v1 t2 s)
               else obind (specialize fuel s t1) (\<lambda>a. obind (specialize fuel s t2)
                      (\<lambda>b. Done (Inl (CyclicSubstitution a b), s))))
      | _ \<Rightarrow> uok None s)"

text \<open>The last part of \<open>unify\<close>, the match on the shapes of the two types.\<close>

definition unify_shapes ::
  "nat \<Rightarrow> (Variance \<Rightarrow> MType \<Rightarrow> MType \<Rightarrow> subst \<Rightarrow> MType ures) \<Rightarrow> Variance \<Rightarrow> MType \<Rightarrow> MType \<Rightarrow> subst \<Rightarrow> MType ures" where
  "unify_shapes fuel U variance t1 t2 s =
     (let V = U (sub_variance variance) in
      case (t1, t2) of
        (MPrimitive p1, MPrimitive p2) \<Rightarrow>
          if p1 = p2 then uok t1 s
          else if variance \<in> {VAllow, VShallow} \<and> is_number t1 \<and> is_number t2 then uok (MPrimitive PNum) s
          else mismatch fuel t1 t2 s
      | (MTypeParameter idx1, MTypeParameter idx2) \<Rightarrow>
          if idx1 = idx2 then uok t1 s else mismatch fuel t1 t2 s
      | (MTuple ts1, MTuple ts2) \<Rightarrow>
          ubind (unify_vec V ts1 ts2 ''tuples'' s) (\<lambda>rs s. uok (MTuple rs) s)
      | (MFun ts1 r1, MFun ts2 r2) \<Rightarrow>
          ubind (unify_vec V ts1 ts2 ''functions'' s) (\<lambda>rs s. ubind (V r1 r2 s) (\<lambda>r s. uok (MFun rs r) s))
      | (MDatatype m1 s1 ts1, MDatatype m2 s2 ts2) \<Rightarrow>
          if m1 = m2 \<and> s1 = s2
          then ubind (unify_vec V ts1 ts2 ''structs'' s) (\<lambda>rs s. uok (MDatatype m1 s1 rs) s)
          else mismatch fuel t1 t2 s
      | (MVector e1, MVector e2) \<Rightarrow> ubind (V e1 e2 s) (\<lambda>r s. uok (MVector r) s)
      | (MTypeDomain e1, MTypeDomain e2) \<Rightarrow> ubind (V e1 e2 s) (\<lambda>r s. uok (MTypeDomain r) s)
      | _ \<Rightarrow> mismatch fuel t1 t2 s)"

definition unify_step ::
  "nat \<Rightarrow> (Variance \<Rightarrow> MType \<Rightarrow> MType \<Rightarrow> subst \<Rightarrow> MType ures) \<Rightarrow> Variance \<Rightarrow> MType \<Rightarrow> MType \<Rightarrow> subst \<Rightarrow> MType ures" where
  "unify_step fuel U variance t1 t2 s =
     (case t1 of
        MReference is_mut bt1 \<Rightarrow>
          ubind (U (sub_variance variance) bt1 (skip_reference t2) s) (\<lambda>r s. uok (MReference is_mut r) s)
      | _ \<Rightarrow>
     (case t2 of
        MReference is_mut bt2 \<Rightarrow>
          ubind (U (sub_variance variance) t1 bt2 s) (\<lambda>r s. uok (MReference is_mut r) s)
      | _ \<Rightarrow>
          ubind (try_substitute_or_assign fuel (U variance) False t1 t2 s) (\<lambda>o1 s.
            case o1 of Some rt \<Rightarrow> uok rt s | None \<Rightarrow>
          ubind (try_substitute_or_assign fuel (U variance) True t2 t1 s) (\<lambda>o2 s.
            case o2 of Some rt \<Rightarrow> uok rt s | None \<Rightarrow>
              if t1 = MError then uok t2 s
              else if t2 = MError then uok t1 s
              else unify_shapes fuel U variance t1 t2 s))))"

primrec unify :: "nat \<Rightarrow> Variance \<Rightarrow> MType \<Rightarrow> MType \<Rightarrow> subst \<Rightarrow> MType ures" where
  "unify 0 = (\<lambda>variance t1 t2 s. Diverged)"
| "unify (Suc n) = unify_step n (unify n)"

section \<open>Types up to compatibility\<close>

text \<open>What the compatibility rules erase: references, and integer types when \<open>b\<close>.\<close>

fun er :: "bool \<Rightarrow> MType \<Rightarrow> MType" where
  "er b (MReference _ t) = er b t"
| "er b (MPrimitive p) = (if b \<and> is_number (MPrimitive p) then MPrimitive PNum else MPrimitive p)"
| "er b (MTuple ts) = MTuple (map (er b) ts)"
| "er b (MVector t) = MVector (er b t)"
| "er b (MDatatype m s ts) = MDatatype m s (map (er b) ts)"
| "er b (MFun ts r) = MFun (map (er b) ts) (er b r)"
| "er b (MTypeDomain t) = MTypeDomain (er b t)"
| "er b t = t"

text \<open>Types without \<open>Error\<close>, which unifies with anything, and without resource domains, which unify with nothing.\<close>

fun firm :: "MType \<Rightarrow> bool" where
  "firm MError = False"
| "firm (MResourceDomain _ _ _) = False"
| "firm (MTuple ts) = list_all firm ts"
| "firm (MVector t) = firm t"
| "firm (MDatatype _ _ ts) = list_all firm ts"
| "firm (MReference _ t) = firm t"
| "firm (MFun ts r) = (list_all firm ts \<and> firm r)"
| "firm (MTypeDomain t) = firm t"
| "firm _ = True"

definition firm_subst :: "subst \<Rightarrow> bool" where
  "firm_subst s \<longleftrightarrow> (\<forall>x t. s x = Some t \<longrightarrow> firm t)"

abbreviation app :: "(nat \<Rightarrow> MType) \<Rightarrow> MType \<Rightarrow> MType" where
  "app \<sigma> \<equiv> msubst MTypeParameter \<sigma>"

definition same :: "bool \<Rightarrow> (nat \<Rightarrow> MType) \<Rightarrow> MType \<Rightarrow> MType \<Rightarrow> bool" where
  "same b \<sigma> t1 t2 \<longleftrightarrow> er b (app \<sigma> t1) = er b (app \<sigma> t2)"

definition solves :: "bool \<Rightarrow> (nat \<Rightarrow> MType) \<Rightarrow> subst \<Rightarrow> bool" where
  "solves b \<sigma> s \<longleftrightarrow> (\<forall>x t. s x = Some t \<longrightarrow> same b \<sigma> (MVar x) t)"

lemma solves_mono: "solves b \<sigma> s' \<Longrightarrow> s \<subseteq>\<^sub>m s' \<Longrightarrow> solves b \<sigma> s"
  unfolding solves_def map_le_def by (metis domI)

lemma solves_upd: "s x = None \<Longrightarrow> solves b \<sigma> (s(x \<mapsto> t)) \<longleftrightarrow> solves b \<sigma> s \<and> same b \<sigma> (MVar x) t"
  unfolding solves_def by auto

lemma same_refl [simp]: "same b \<sigma> t t"
  by (simp add: same_def)

lemma same_sym: "same b \<sigma> t u \<longleftrightarrow> same b \<sigma> u t"
  by (auto simp: same_def)

lemma same_trans: "same b \<sigma> t u \<Longrightarrow> same b \<sigma> u w \<Longrightarrow> same b \<sigma> t w"
  by (simp add: same_def)

lemma same_skip [simp]:
  "same b \<sigma> (MReference m t) u = same b \<sigma> t u"
  "same b \<sigma> u (MReference m t) = same b \<sigma> u t"
  "same b \<sigma> u (skip_reference t) = same b \<sigma> u t"
  by (simp_all add: same_def) (cases t; simp)

text \<open>Soundness holds for the exact equality only when integer types are kept apart.\<close>

definition mode :: "bool \<Rightarrow> Variance \<Rightarrow> bool" where
  "mode b v \<longleftrightarrow> b \<or> v = VDisallow"

text \<open>What a call of \<open>unify\<close> that returns has done.\<close>

definition unified :: "Variance \<Rightarrow> MType \<Rightarrow> MType \<Rightarrow> subst \<Rightarrow> MType \<Rightarrow> subst \<Rightarrow> bool" where
  "unified v t1 t2 s r s' \<longleftrightarrow> firm r \<and> firm_subst s' \<and> s \<subseteq>\<^sub>m s'
     \<and> (\<forall>b \<sigma>. mode b v \<longrightarrow> solves b \<sigma> s' \<longrightarrow> same b \<sigma> t1 t2 \<and> same b \<sigma> t1 r)
     \<and> (\<forall>b \<sigma>. solves b \<sigma> s \<longrightarrow> same b \<sigma> t1 t2 \<longrightarrow> solves b \<sigma> s')"

definition hopeless :: "MType \<Rightarrow> MType \<Rightarrow> subst \<Rightarrow> bool" where
  "hopeless t1 t2 s \<longleftrightarrow> (\<forall>\<sigma>. solves False \<sigma> s \<longrightarrow> \<not> same False \<sigma> t1 t2)"

definition unify_spec :: "Variance \<Rightarrow> MType \<Rightarrow> MType \<Rightarrow> subst \<Rightarrow> MType ures \<Rightarrow> bool" where
  "unify_spec v t1 t2 s res \<longleftrightarrow> firm t1 \<longrightarrow> firm t2 \<longrightarrow> firm_subst s \<longrightarrow>
     (case res of
        Done (Inr r, s') \<Rightarrow> unified v t1 t2 s r s'
      | Done (Inl e, s') \<Rightarrow> hopeless t1 t2 s
      | _ \<Rightarrow> True)"

lemma map_er_iff: "map (er b \<circ> app \<sigma>) ts = map (er b \<circ> app \<sigma>) us \<longleftrightarrow> list_all2 (same b \<sigma>) ts us"
proof (induction ts arbitrary: us)
  case (Cons t ts)
  then show ?case by (cases us) (auto simp: same_def)
qed (auto simp: same_def)

lemma same_shapes [simp]:
  "same b \<sigma> (MTuple ts) (MTuple us) \<longleftrightarrow> list_all2 (same b \<sigma>) ts us"
  "same b \<sigma> (MVector t) (MVector u) \<longleftrightarrow> same b \<sigma> t u"
  "same b \<sigma> (MDatatype m k ts) (MDatatype m' k' us) \<longleftrightarrow> m = m' \<and> k = k' \<and> list_all2 (same b \<sigma>) ts us"
  "same b \<sigma> (MFun ts r) (MFun us r') \<longleftrightarrow> list_all2 (same b \<sigma>) ts us \<and> same b \<sigma> r r'"
  "same b \<sigma> (MTypeDomain t) (MTypeDomain u) \<longleftrightarrow> same b \<sigma> t u"
  "same b \<sigma> (MTypeParameter i) (MTypeParameter k) \<longleftrightarrow> i = k"
  "same False \<sigma> (MPrimitive p) (MPrimitive q) \<longleftrightarrow> p = q"
  "same True \<sigma> (MPrimitive p) (MPrimitive q) \<longleftrightarrow>
     p = q \<or> is_number (MPrimitive p) \<and> is_number (MPrimitive q)"
  by (simp_all add: same_def map_er_iff, auto)

lemma unified_swap:
  assumes "unified v t1 t2 s r s'"
  shows "unified v t2 t1 s r s'"
proof -
  have "same b \<sigma> t2 t1 \<and> same b \<sigma> t2 r" if "mode b v" "solves b \<sigma> s'" for b \<sigma>
    using assms that unfolding unified_def same_def by metis
  then show ?thesis using assms unfolding unified_def by (simp add: same_sym [of _ _ t2 t1])
qed

lemma hopeless_swap: "hopeless t1 t2 s \<Longrightarrow> hopeless t2 t1 s"
  by (auto simp: hopeless_def same_def)

lemma ubind_cases:
  assumes "ubind m f = Done (r, s')"
  obtains (error) e where "m = Done (Inl e, s')" "r = Inl e"
    | (ok) x s1 where "m = Done (Inr x, s1)" "f x s1 = Done (r, s')"
  using assms unfolding ubind_def by (cases m) (auto split: sum.splits)

lemma ubind_simps [simp]:
  "ubind (Done (Inr x, s)) f = f x s" "ubind (Done (Inl e, s)) f = Done (Inl e, s)"
  "ubind Panicked f = Panicked" "ubind Diverged f = Diverged"
  by (simp_all add: ubind_def)

lemma uok_Done [simp]: "uok x s = Done (r, s') \<longleftrightarrow> r = Inr x \<and> s' = s"
  by (auto simp: uok_def)

lemma mismatch_Inl: "mismatch fuel t1 t2 s = Done (r, s') \<Longrightarrow> \<exists>e. r = Inl e"
  by (auto simp: mismatch_def obind_Done_iff)

text \<open>A type that contains a variable is larger than the value of the variable.\<close>

lemma size_member: "x \<in> set xs \<Longrightarrow> size (f x) < Suc (size_list size (map f xs))"
  by (induction xs) auto

lemma contains_size:
  "mty_contains (\<lambda>u. u = MVar v) t \<Longrightarrow> size (er b (\<sigma> v)) \<le> size (er b (app \<sigma> t))
   \<and> (\<not> is_reference t \<longrightarrow> t \<noteq> MVar v \<longrightarrow> size (er b (\<sigma> v)) < size (er b (app \<sigma> t)))"
proof (induction "\<lambda>u. u = MVar v" t rule: mty_contains.induct)
  case (2 m k args)
  then have "MVar v \<in> set args" by (auto simp: list_ex_iff)
  then show ?case using size_member [of "MVar v" args "\<lambda>t. er b (app \<sigma> t)"] by (simp add: comp_def)
next
  case (3 args result)
  show ?case
  proof (cases "MVar v \<in> set args")
    case True
    then show ?thesis using size_member [of "MVar v" args "\<lambda>t. er b (app \<sigma> t)"] by (simp add: comp_def)
  next
    case False
    then show ?thesis using 3 by (auto simp: list_ex_iff)
  qed
next
  case (4 args)
  then have "MVar v \<in> set args" by (auto simp: list_ex_iff)
  then show ?case using size_member [of "MVar v" args "\<lambda>t. er b (app \<sigma> t)"] by (simp add: comp_def)
qed auto

lemma cyclic_hopeless:
  assumes "mty_contains (\<lambda>u. u = MVar v) t" "\<not> is_reference t" "t \<noteq> MVar v"
  shows "hopeless (MVar v) t s"
  unfolding hopeless_def same_def
proof (intro allI impI notI)
  fix \<sigma> assume "er False (app \<sigma> (MVar v)) = er False (app \<sigma> t)"
  then show False using contains_size [OF assms(1), of False \<sigma>] assms(2,3) by simp
qed

lemma var_ok:
  assumes "unified v s1 t2 s r s'" "s x = Some s1"
  shows "unified v (MVar x) t2 s r s'"
proof -
  have le: "s \<subseteq>\<^sub>m s'" using assms(1) by (simp add: unified_def)
  then have "s' x = Some s1" using assms(2) by (metis domI map_le_def)
  then have x': "same b \<sigma> (MVar x) s1" if "solves b \<sigma> s'" for b \<sigma> using that by (simp add: solves_def)
  have x: "same b \<sigma> (MVar x) s1" if "solves b \<sigma> s" for b \<sigma> using that assms(2) by (simp add: solves_def)
  have "same b \<sigma> (MVar x) t2 \<and> same b \<sigma> (MVar x) r" if "mode b v" "solves b \<sigma> s'" for b \<sigma>
    using assms(1) x' [OF that(2)] that unfolding unified_def same_def by metis
  moreover have "solves b \<sigma> s'" if "solves b \<sigma> s" "same b \<sigma> (MVar x) t2" for b \<sigma>
    using assms(1) x [OF that(1)] that unfolding unified_def same_def by metis
  ultimately show ?thesis using assms(1) unfolding unified_def by blast
qed

lemma var_err:
  assumes "hopeless s1 t2 s" "s x = Some s1"
  shows "hopeless (MVar x) t2 s"
  using assms unfolding hopeless_def solves_def same_def by metis

lemma bind_ok:
  assumes "firm t2" "firm_subst s" "s x = None"
  shows "unified v (MVar x) t2 s t2 (subst_bind x t2 s)"
  using assms unfolding unified_def subst_bind_def firm_subst_def
  by (auto simp: solves_upd map_le_def)

lemma unified_same: "firm t \<Longrightarrow> firm_subst s \<Longrightarrow> unified v t t s t s"
  by (simp add: unified_def)

section \<open>One step of unify\<close>

text \<open>The rest of the step, for two types that are no references.\<close>

definition unify_plain ::
  "nat \<Rightarrow> (Variance \<Rightarrow> MType \<Rightarrow> MType \<Rightarrow> subst \<Rightarrow> MType ures) \<Rightarrow> Variance \<Rightarrow> MType \<Rightarrow> MType \<Rightarrow> subst \<Rightarrow> MType ures" where
  "unify_plain fuel U v t1 t2 s =
     ubind (try_substitute_or_assign fuel (U v) False t1 t2 s) (\<lambda>o1 s.
       case o1 of Some rt \<Rightarrow> uok rt s | None \<Rightarrow>
     ubind (try_substitute_or_assign fuel (U v) True t2 t1 s) (\<lambda>o2 s.
       case o2 of Some rt \<Rightarrow> uok rt s | None \<Rightarrow>
         if t1 = MError then uok t2 s
         else if t2 = MError then uok t1 s
         else unify_shapes fuel U v t1 t2 s))"

lemma ures_cases:
  obtains (ok) r s' where "res = Done (Inr r, s')" | (err) e s' where "res = Done (Inl e, s')"
    | (panic) "res = Panicked" | (diverge) "res = Diverged"
  by (cases res) (auto, metis sum.exhaust)

text \<open>The contract of the recursive calls, and of the step that makes them.\<close>

locale unify_call =
  fixes U :: "Variance \<Rightarrow> MType \<Rightarrow> MType \<Rightarrow> subst \<Rightarrow> MType ures"
  assumes spec: "unify_spec v t1 t2 s (U v t1 t2 s)"
begin

lemma U_ok:
  "U v t1 t2 s = Done (Inr r, s') \<Longrightarrow> firm t1 \<Longrightarrow> firm t2 \<Longrightarrow> firm_subst s \<Longrightarrow> unified v t1 t2 s r s'"
  using spec [of v t1 t2 s] by (simp add: unify_spec_def)

lemma U_err:
  "U v t1 t2 s = Done (Inl e, s') \<Longrightarrow> firm t1 \<Longrightarrow> firm t2 \<Longrightarrow> firm_subst s \<Longrightarrow> hopeless t1 t2 s"
  using spec [of v t1 t2 s] by (simp add: unify_spec_def)

lemma list_ok:
  "unify_list (U v) ts1 ts2 s = Done (Inr rs, s') \<Longrightarrow> length ts1 = length ts2 \<Longrightarrow>
   list_all firm ts1 \<Longrightarrow> list_all firm ts2 \<Longrightarrow> firm_subst s \<Longrightarrow>
   list_all firm rs \<and> firm_subst s' \<and> s \<subseteq>\<^sub>m s'
     \<and> (\<forall>b \<sigma>. mode b v \<longrightarrow> solves b \<sigma> s' \<longrightarrow> list_all2 (same b \<sigma>) ts1 ts2 \<and> list_all2 (same b \<sigma>) ts1 rs)
     \<and> (\<forall>b \<sigma>. solves b \<sigma> s \<longrightarrow> list_all2 (same b \<sigma>) ts1 ts2 \<longrightarrow> solves b \<sigma> s')"
proof (induction "U v" ts1 ts2 s arbitrary: rs s' rule: unify_list.induct)
  case (1 t1 ts1 t2 ts2 s)
  from "1.prems"(1) obtain r s1 qs where u: "U v t1 t2 s = Done (Inr r, s1)"
    "unify_list (U v) ts1 ts2 s1 = Done (Inr qs, s')" "rs = r # qs"
    by (auto elim!: ubind_cases)
  have h: "unified v t1 t2 s r s1" using U_ok [OF u(1)] "1.prems" by simp
  then have f: "firm_subst s1" by (simp add: unified_def)
  note IH = "1.hyps" [OF u(2) _ _ _ f]
  have t: "list_all firm qs \<and> firm_subst s' \<and> s1 \<subseteq>\<^sub>m s'
     \<and> (\<forall>b \<sigma>. mode b v \<longrightarrow> solves b \<sigma> s' \<longrightarrow> list_all2 (same b \<sigma>) ts1 ts2 \<and> list_all2 (same b \<sigma>) ts1 qs)
     \<and> (\<forall>b \<sigma>. solves b \<sigma> s1 \<longrightarrow> list_all2 (same b \<sigma>) ts1 ts2 \<longrightarrow> solves b \<sigma> s')"
    using IH "1.prems" by simp
  show ?case unfolding u(3)
    using h t solves_mono [of _ _ s' s1] map_le_trans [of s s1 s'] unfolding unified_def by auto
qed auto

lemma list_err:
  "unify_list (U v) ts1 ts2 s = Done (Inl e, s') \<Longrightarrow> length ts1 = length ts2 \<Longrightarrow>
   list_all firm ts1 \<Longrightarrow> list_all firm ts2 \<Longrightarrow> firm_subst s \<Longrightarrow>
   solves False \<sigma> s \<Longrightarrow> \<not> list_all2 (same False \<sigma>) ts1 ts2"
proof (induction "U v" ts1 ts2 s arbitrary: e s' rule: unify_list.induct)
  case (1 t1 ts1 t2 ts2 s)
  from "1.prems"(1) consider "U v t1 t2 s = Done (Inl e, s')"
    | r s1 where "U v t1 t2 s = Done (Inr r, s1)" "unify_list (U v) ts1 ts2 s1 = Done (Inl e, s')"
    by (auto elim!: ubind_cases)
  then show ?case
  proof cases
    case 1
    then show ?thesis using U_err [OF 1] "1.prems" by (simp add: hopeless_def)
  next
    case (2 r s1)
    have h: "unified v t1 t2 s r s1" using U_ok [OF 2(1)] "1.prems" by simp
    then have f: "firm_subst s1" by (simp add: unified_def)
    show ?thesis
      using "1.hyps" [OF 2(2) _ _ _ f] "1.prems" h unfolding unified_def by auto
  qed
qed auto

lemma vec_ok:
  assumes "unify_vec (U v) ts1 ts2 name s = Done (Inr rs, s')"
    "list_all firm ts1" "list_all firm ts2" "firm_subst s"
  shows "list_all firm rs \<and> firm_subst s' \<and> s \<subseteq>\<^sub>m s'
     \<and> (\<forall>b \<sigma>. mode b v \<longrightarrow> solves b \<sigma> s' \<longrightarrow> list_all2 (same b \<sigma>) ts1 ts2 \<and> list_all2 (same b \<sigma>) ts1 rs)
     \<and> (\<forall>b \<sigma>. solves b \<sigma> s \<longrightarrow> list_all2 (same b \<sigma>) ts1 ts2 \<longrightarrow> solves b \<sigma> s')"
  using assms by (intro list_ok) (auto simp: unify_vec_def split: if_splits)

lemma vec_err:
  assumes "unify_vec (U v) ts1 ts2 name s = Done (Inl e, s')"
    "list_all firm ts1" "list_all firm ts2" "firm_subst s" "solves False \<sigma> s"
  shows "\<not> list_all2 (same False \<sigma>) ts1 ts2"
proof (cases "length ts1 = length ts2")
  case True
  then show ?thesis using assms by (intro list_err) (auto simp: unify_vec_def)
qed (auto dest: list_all2_lengthD)

lemma try_some:
  assumes "try_substitute_or_assign fuel (U v) swapped t1 t2 s = Done (Inr (Some r), s')"
    "firm t1" "firm t2" "firm_subst s"
  shows "unified v t1 t2 s r s'"
proof -
  obtain x where x: "t1 = MVar x"
    using assms(1) by (cases t1) (auto simp: try_substitute_or_assign_def)
  show ?thesis
  proof (cases "s x")
    case None
    then show ?thesis using assms x
      by (auto simp: try_substitute_or_assign_def obind_Done_iff unified_same bind_ok split: if_splits)
  next
    case (Some s1)
    then have f: "firm s1" using assms(4) by (simp add: firm_subst_def)
    have "unified v s1 t2 s r s'"
    proof (cases swapped)
      case True
      then have "U v t2 s1 s = Done (Inr r, s')" using assms(1) x Some
        by (auto simp: try_substitute_or_assign_def elim!: ubind_cases)
      then show ?thesis using U_ok f assms by (intro unified_swap [of v t2]) auto
    next
      case False
      then have "U v s1 t2 s = Done (Inr r, s')" using assms(1) x Some
        by (auto simp: try_substitute_or_assign_def elim!: ubind_cases)
      then show ?thesis using U_ok f assms by auto
    qed
    then show ?thesis using var_ok Some x by simp
  qed
qed

lemma try_none:
  assumes "try_substitute_or_assign fuel (U v) swapped t1 t2 s = Done (Inr None, s')"
  shows "s' = s \<and> (\<forall>x. t1 \<noteq> MVar x)"
  using assms by (cases t1)
    (auto simp: try_substitute_or_assign_def obind_Done_iff split: option.splits if_splits elim!: ubind_cases)

lemma try_err:
  assumes "try_substitute_or_assign fuel (U v) swapped t1 t2 s = Done (Inl e, s')"
    "firm t1" "firm t2" "firm_subst s" "\<not> is_reference t2"
  shows "hopeless t1 t2 s"
proof -
  obtain x where x: "t1 = MVar x"
    using assms(1) by (cases t1) (auto simp: try_substitute_or_assign_def)
  show ?thesis
  proof (cases "s x")
    case None
    then show ?thesis using assms x
      by (auto simp: try_substitute_or_assign_def obind_Done_iff cyclic_hopeless split: if_splits)
  next
    case (Some s1)
    then have f: "firm s1" using assms(4) by (simp add: firm_subst_def)
    have "hopeless s1 t2 s"
    proof (cases swapped)
      case True
      then have "U v t2 s1 s = Done (Inl e, s')" using assms(1) x Some
        by (auto simp: try_substitute_or_assign_def elim!: ubind_cases)
      then show ?thesis using U_err f assms by (intro hopeless_swap [of t2]) auto
    next
      case False
      then have "U v s1 t2 s = Done (Inl e, s')" using assms(1) x Some
        by (auto simp: try_substitute_or_assign_def elim!: ubind_cases)
      then show ?thesis using U_err f assms by auto
    qed
    then show ?thesis using var_err Some x by simp
  qed
qed

lemma mode_sub: "mode b v \<Longrightarrow> mode b (sub_variance v)"
  by (cases v) (auto simp: mode_def)

lemma shapes_ok:
  assumes "unify_shapes fuel U v t1 t2 s = Done (Inr r, s')"
    "firm t1" "firm t2" "firm_subst s"
  shows "unified v t1 t2 s r s'"
proof -
  have vec: "list_all firm rs \<and> firm_subst s' \<and> s \<subseteq>\<^sub>m s'
     \<and> (\<forall>b \<sigma>. mode b v \<longrightarrow> solves b \<sigma> s' \<longrightarrow> list_all2 (same b \<sigma>) ts1 ts2 \<and> list_all2 (same b \<sigma>) ts1 rs)
     \<and> (\<forall>b \<sigma>. solves b \<sigma> s \<longrightarrow> list_all2 (same b \<sigma>) ts1 ts2 \<longrightarrow> solves b \<sigma> s')"
    if "unify_vec (U (sub_variance v)) ts1 ts2 nm s = Done (Inr rs, s')" "list_all firm ts1" "list_all firm ts2"
    for ts1 ts2 nm rs s'
    using vec_ok [OF that assms(4)] mode_sub by blast
  have el: "firm r \<and> firm_subst s2 \<and> s1 \<subseteq>\<^sub>m s2
     \<and> (\<forall>b \<sigma>. mode b v \<longrightarrow> solves b \<sigma> s2 \<longrightarrow> same b \<sigma> e1 e2 \<and> same b \<sigma> e1 r)
     \<and> (\<forall>b \<sigma>. solves b \<sigma> s1 \<longrightarrow> same b \<sigma> e1 e2 \<longrightarrow> solves b \<sigma> s2)"
    if "U (sub_variance v) e1 e2 s1 = Done (Inr r, s2)" "firm e1" "firm e2" "firm_subst s1" for e1 e2 s1 r s2
    using U_ok [OF that] mode_sub unfolding unified_def by blast
  show ?thesis
  proof (cases t1)
    case (MPrimitive p)
    then show ?thesis using assms
      by (cases t2) (auto simp: unify_shapes_def unified_def mode_def dest!: mismatch_Inl split: if_splits)
  next
    case (MTuple ts)
    then show ?thesis using assms
      by (cases t2) (auto simp: unify_shapes_def unified_def dest!: mismatch_Inl vec elim!: ubind_cases)
  next
    case (MVector e)
    then show ?thesis using assms
      by (cases t2) (auto simp: unify_shapes_def unified_def dest!: mismatch_Inl el elim!: ubind_cases)
  next
    case (MDatatype m k ts)
    then show ?thesis using assms
      by (cases t2) (auto simp: unify_shapes_def unified_def dest!: mismatch_Inl vec elim!: ubind_cases split: if_splits)
  next
    case (MTypeDomain e)
    then show ?thesis using assms
      by (cases t2) (auto simp: unify_shapes_def unified_def dest!: mismatch_Inl el elim!: ubind_cases)
  next
    case (MTypeParameter i)
    then show ?thesis using assms
      by (cases t2) (auto simp: unify_shapes_def unified_same dest!: mismatch_Inl split: if_splits)
  next
    case (MFun ts1 r1)
    show ?thesis
    proof (cases t2)
      case (MFun ts2 r2)
      obtain rs s1 q where u: "unify_vec (U (sub_variance v)) ts1 ts2 ''functions'' s = Done (Inr rs, s1)"
        "U (sub_variance v) r1 r2 s1 = Done (Inr q, s')" "r = MFun rs q"
        using assms(1) MFun \<open>t1 = MFun ts1 r1\<close> by (auto simp: unify_shapes_def Let_def elim!: ubind_cases)
      have a: "list_all firm ts1" "list_all firm ts2" "firm r1" "firm r2"
        using assms(2,3) MFun \<open>t1 = MFun ts1 r1\<close> by auto
      note h = vec [OF u(1) a(1,2)]
      then have f: "firm_subst s1" by simp
      note k = el [OF u(2) a(3,4) f]
      show ?thesis unfolding u(3) MFun \<open>t1 = MFun ts1 r1\<close>
        using h k solves_mono [of _ _ s' s1] map_le_trans [of s s1 s'] unfolding unified_def by auto
    qed (use assms \<open>t1 = MFun ts1 r1\<close> in \<open>auto simp: unify_shapes_def dest!: mismatch_Inl\<close>)
  qed (use assms in \<open>cases t2; auto simp: unify_shapes_def dest!: mismatch_Inl\<close>)+
qed

lemma shapes_err:
  assumes "unify_shapes fuel U v t1 t2 s = Done (Inl e, s')" "firm t1" "firm t2" "firm_subst s"
    "\<not> is_reference t1" "\<not> is_reference t2" "\<forall>x. t1 \<noteq> MVar x" "\<forall>x. t2 \<noteq> MVar x"
  shows "hopeless t1 t2 s"
proof -
  have vec: "\<not> list_all2 (same False \<sigma>) ts1 ts2"
    if "unify_vec (U (sub_variance v)) ts1 ts2 nm s = Done (Inl e, s1)" "list_all firm ts1" "list_all firm ts2"
      "solves False \<sigma> s" for ts1 ts2 nm s1 e \<sigma>
    using vec_err [OF that(1-3) assms(4) that(4)] .
  have el: "\<not> same False \<sigma> e1 e2"
    if "U (sub_variance v) e1 e2 s = Done (Inl e, s1)" "firm e1" "firm e2" "solves False \<sigma> s" for e1 e2 s1 e \<sigma>
    using U_err [OF that(1-3) assms(4)] that(4) by (simp add: hopeless_def)
  show ?thesis
  proof (cases t1)
    case (MPrimitive p)
    then show ?thesis using assms
      by (cases t2) (auto simp: unify_shapes_def hopeless_def, auto simp: same_def)
  next
    case (MTuple ts)
    then show ?thesis using assms
      by (cases t2) (auto simp: unify_shapes_def hopeless_def elim!: ubind_cases dest: vec, auto simp: same_def)
  next
    case (MVector x)
    then show ?thesis using assms
      by (cases t2) (auto simp: unify_shapes_def hopeless_def elim!: ubind_cases dest: el, auto simp: same_def)
  next
    case (MDatatype m k ts)
    then show ?thesis using assms
      by (cases t2) (auto simp: unify_shapes_def hopeless_def elim!: ubind_cases dest: vec split: if_splits, auto simp: same_def)
  next
    case (MTypeDomain x)
    then show ?thesis using assms
      by (cases t2) (auto simp: unify_shapes_def hopeless_def elim!: ubind_cases dest: el, auto simp: same_def)
  next
    case (MTypeParameter i)
    then show ?thesis using assms
      by (cases t2) (auto simp: unify_shapes_def hopeless_def split: if_splits, auto simp: same_def)
  next
    case (MFun ts1 r1)
    show ?thesis
    proof (cases t2)
      case (MFun ts2 r2)
      have a: "list_all firm ts1" "list_all firm ts2" "firm r1" "firm r2"
        using assms(2,3) MFun \<open>t1 = MFun ts1 r1\<close> by auto
      consider "unify_vec (U (sub_variance v)) ts1 ts2 ''functions'' s = Done (Inl e, s')"
        | rs s1 where "unify_vec (U (sub_variance v)) ts1 ts2 ''functions'' s = Done (Inr rs, s1)"
          "U (sub_variance v) r1 r2 s1 = Done (Inl e, s')"
        using assms(1) MFun \<open>t1 = MFun ts1 r1\<close> by (auto simp: unify_shapes_def Let_def elim!: ubind_cases)
      then show ?thesis
      proof cases
        case 1
        then show ?thesis using vec [OF 1 a(1,2)] MFun \<open>t1 = MFun ts1 r1\<close> by (auto simp: hopeless_def)
      next
        case (2 rs s1)
        note h = vec_ok [OF 2(1) a(1,2) assms(4)]
        then have "hopeless r1 r2 s1" using U_err [OF 2(2) a(3,4)] by simp
        then show ?thesis using h MFun \<open>t1 = MFun ts1 r1\<close> by (auto simp: hopeless_def)
      qed
    qed (use assms \<open>t1 = MFun ts1 r1\<close> in \<open>auto simp: hopeless_def same_def\<close>)
  qed (use assms in auto)
qed

lemma firm_skip_reference [simp]: "firm (skip_reference t) = firm t"
  by (cases t) auto

lemma hopeless_refs [simp]:
  "hopeless (MReference m t1) t2 s = hopeless t1 t2 s"
  "hopeless t1 (MReference m t2) s = hopeless t1 t2 s"
  "hopeless t1 (skip_reference t2) s = hopeless t1 t2 s"
  by (simp_all add: hopeless_def)

lemma unified_refs:
  "unified (sub_variance v) t1 t2 s r s' \<Longrightarrow> unified v (MReference m t1) t2 s (MReference m r) s'"
  "unified (sub_variance v) t1 t2 s r s' \<Longrightarrow> unified v t1 (MReference m t2) s (MReference m r) s'"
  "unified v t1 (skip_reference t2) s r s' \<longleftrightarrow> unified v t1 t2 s r s'"
  unfolding unified_def using mode_sub by auto

lemma spec_ref1:
  assumes "unify_spec (sub_variance v) b1 (skip_reference t2) s res"
  shows "unify_spec v (MReference m b1) t2 s (ubind res (\<lambda>r s. uok (MReference m r) s))"
  using assms unfolding unify_spec_def
  by (cases res rule: ures_cases) (simp_all add: uok_def unified_refs)

lemma spec_ref2:
  assumes "unify_spec (sub_variance v) t1 b2 s res"
  shows "unify_spec v t1 (MReference m b2) s (ubind res (\<lambda>r s. uok (MReference m r) s))"
  using assms unfolding unify_spec_def
  by (cases res rule: ures_cases) (simp_all add: uok_def unified_refs)

lemma plain_ok:
  assumes "unify_plain fuel U v t1 t2 s = Done (Inr r, s')" "firm t1" "firm t2" "firm_subst s"
  shows "unified v t1 t2 s r s'"
proof -
  obtain o1 s1 where o1: "try_substitute_or_assign fuel (U v) False t1 t2 s = Done (Inr o1, s1)"
    using assms(1) unfolding unify_plain_def by (auto elim!: ubind_cases)
  show ?thesis
  proof (cases o1)
    case (Some rt)
    then show ?thesis using o1 assms try_some [of fuel v False t1 t2 s rt s1] by (simp add: unify_plain_def)
  next
    case None
    have s1: "s1 = s" using try_none o1 None by blast
    obtain o2 s2 where o2: "try_substitute_or_assign fuel (U v) True t2 t1 s = Done (Inr o2, s2)"
      using assms(1) o1 None s1 unfolding unify_plain_def by (auto elim!: ubind_cases)
    show ?thesis
    proof (cases o2)
      case (Some rt)
      then have "unified v t2 t1 s r s'"
        using o1 o2 None s1 assms try_some [of fuel v True t2 t1 s rt s2] by (simp add: unify_plain_def)
      then show ?thesis by (rule unified_swap)
    next
      case None
      have "s2 = s" using try_none o2 None by blast
      then have "unify_shapes fuel U v t1 t2 s = Done (Inr r, s')"
        using assms o1 o2 \<open>o1 = None\<close> None s1 by (auto simp: unify_plain_def split: if_splits)
      then show ?thesis using shapes_ok assms by blast
    qed
  qed
qed

lemma plain_err:
  assumes "unify_plain fuel U v t1 t2 s = Done (Inl e, s')" "firm t1" "firm t2" "firm_subst s"
    "\<not> is_reference t1" "\<not> is_reference t2"
  shows "hopeless t1 t2 s"
proof (cases "\<exists>e1 s1. try_substitute_or_assign fuel (U v) False t1 t2 s = Done (Inl e1, s1)")
  case True
  then show ?thesis using try_err assms by blast
next
  case False
  then obtain s1 where o1: "try_substitute_or_assign fuel (U v) False t1 t2 s = Done (Inr None, s1)"
    using assms(1) unfolding unify_plain_def by (auto elim!: ubind_cases split: option.splits)
  then have n1: "s1 = s" "\<forall>x. t1 \<noteq> MVar x" using try_none by blast+
  show ?thesis
  proof (cases "\<exists>e1 s1. try_substitute_or_assign fuel (U v) True t2 t1 s = Done (Inl e1, s1)")
    case True
    then show ?thesis using try_err assms hopeless_swap by blast
  next
    case False
    then obtain s2 where o2: "try_substitute_or_assign fuel (U v) True t2 t1 s = Done (Inr None, s2)"
      using assms(1) o1 n1 unfolding unify_plain_def by (auto elim!: ubind_cases split: option.splits)
    then have n2: "s2 = s" "\<forall>x. t2 \<noteq> MVar x" using try_none by blast+
    have "unify_shapes fuel U v t1 t2 s = Done (Inl e, s')"
      using assms o1 o2 n1 n2 by (auto simp: unify_plain_def split: if_splits)
    then show ?thesis using shapes_err assms n1 n2 by blast
  qed
qed

lemma plain_spec:
  "\<not> is_reference t1 \<Longrightarrow> \<not> is_reference t2 \<Longrightarrow> unify_spec v t1 t2 s (unify_plain fuel U v t1 t2 s)"
  unfolding unify_spec_def using plain_ok [of fuel v t1 t2 s] plain_err [of fuel v t1 t2 s]
  by (cases "unify_plain fuel U v t1 t2 s" rule: ures_cases) simp_all

lemma step_spec: "unify_spec v t1 t2 s (unify_step fuel U v t1 t2 s)"
proof (cases "is_reference t1")
  case True
  then show ?thesis by (cases t1) (auto simp: unify_step_def intro!: spec_ref1 spec)
next
  case False
  show ?thesis
  proof (cases "is_reference t2")
    case True
    then obtain m b2 where "t2 = MReference m b2" by (cases t2) auto
    then have "unify_step fuel U v t1 t2 s = ubind (U (sub_variance v) t1 b2 s) (\<lambda>r s. uok (MReference m r) s)"
      using False by (cases t1) (simp_all add: unify_step_def)
    then show ?thesis using \<open>t2 = MReference m b2\<close> by (simp add: spec_ref2 spec)
  next
    case r2: False
    have "unify_step fuel U v t1 t2 s = unify_plain fuel U v t1 t2 s"
      using False r2 by (cases t1; cases t2) (simp_all add: unify_step_def unify_plain_def)
    then show ?thesis using plain_spec False r2 by simp
  qed
qed

end

lemma unify_meets_spec: "unify_spec v t1 t2 s (unify n v t1 t2 s)"
proof (induction n arbitrary: v t1 t2 s)
  case 0
  then show ?case by (simp add: unify_spec_def)
next
  case (Suc n)
  then have "unify_call (unify n)" by unfold_locales
  then show ?case by (simp add: unify_call.step_spec)
qed

interpretation unification: unify_call "unify n" for n
  by unfold_locales (rule unify_meets_spec)

section \<open>Calls that return\<close>

text \<open>A call returns, with a substitution that satisfies \<open>P\<close>.\<close>

definition halts :: "(subst \<Rightarrow> bool) \<Rightarrow> 'a ures \<Rightarrow> bool" where
  "halts P m \<longleftrightarrow> (\<exists>r s. m = Done (r, s) \<and> P s)"

lemma halts_uok [simp]: "halts P (uok x s) \<longleftrightarrow> P s"
  by (simp add: halts_def uok_def)

lemma halts_err [simp]: "halts P (Done (Inl e, s)) \<longleftrightarrow> P s"
  by (simp add: halts_def)

lemma halts_ubind:
  assumes "halts P m" "\<And>x s. P s \<Longrightarrow> halts P (f x s)"
  shows "halts P (ubind m f)"
proof -
  obtain r s where m: "m = Done (r, s)" "P s" using assms(1) by (auto simp: halts_def)
  then show ?thesis using assms(2) by (cases r) (auto simp: halts_def)
qed

lemma halts_mismatch:
  assumes "specialize fuel s t1 = Done a" "specialize fuel s t2 = Done b" "P s"
  shows "halts P (mismatch fuel t1 t2 s)"
  using assms by (simp add: mismatch_def)

lemma halts_list:
  "\<forall>t1\<in>set ts1. \<forall>t2\<in>set ts2. \<forall>s. P s \<longrightarrow> halts P (U t1 t2 s) \<Longrightarrow> P s \<Longrightarrow> halts P (unify_list U ts1 ts2 s)"
proof (induction U ts1 ts2 s rule: unify_list.induct)
  case (1 U t1 ts1 t2 ts2 s)
  show ?case unfolding unify_list.simps
  proof (rule halts_ubind)
    show "halts P (U t1 t2 s)" using 1 by simp
    fix r s' assume "P s'"
    then show "halts P (ubind (unify_list U ts1 ts2 s') (\<lambda>rs. uok (r # rs)))"
      using 1 by (intro halts_ubind) auto
  qed
qed auto

lemma halts_vec:
  "\<forall>t1\<in>set ts1. \<forall>t2\<in>set ts2. \<forall>s. P s \<longrightarrow> halts P (U t1 t2 s) \<Longrightarrow> P s \<Longrightarrow> halts P (unify_vec U ts1 ts2 name s)"
  by (simp add: unify_vec_def halts_list)

lemma size_in_list: "t \<in> set ts \<Longrightarrow> size t < Suc (size_list size ts)"
  by (simp add: size_list_estimation' less_Suc_eq_le)

lemma halts_shapes:
  assumes P: "P s" and m: "\<And>s. P s \<Longrightarrow> halts P (mismatch fuel t1 t2 s :: MType ures)"
    and rec: "\<And>v' a b s. size a < size t1 \<Longrightarrow> size b < size t2 \<Longrightarrow> mvars a \<subseteq> mvars t1 \<Longrightarrow> mvars b \<subseteq> mvars t2 \<Longrightarrow>
        P s \<Longrightarrow> halts P (U v' a b s)"
  shows "halts P (unify_shapes fuel U v t1 t2 s)"
proof -
  have vec: "halts P (ubind (unify_vec (U v') ts1 ts2 nm s) f)"
    if "\<forall>t\<in>set ts1. size t < size t1 \<and> mvars t \<subseteq> mvars t1" "\<forall>t\<in>set ts2. size t < size t2 \<and> mvars t \<subseteq> mvars t2"
      "\<And>x s. P s \<Longrightarrow> halts P (f x s)" for v' ts1 ts2 nm and f :: "MType list \<Rightarrow> subst \<Rightarrow> MType ures"
    using that P rec by (intro halts_ubind halts_vec) auto
  have one: "halts P (ubind (U v' a b s) f)"
    if "size a < size t1" "size b < size t2" "mvars a \<subseteq> mvars t1" "mvars b \<subseteq> mvars t2" "P s"
      "\<And>x s. P s \<Longrightarrow> halts P (f x s)" for v' a b s and f :: "MType \<Rightarrow> subst \<Rightarrow> MType ures"
    using that rec by (intro halts_ubind) auto
  note mm = m [OF P]
  show ?thesis
  proof (cases t1)
    case (MTuple ts)
    then show ?thesis using mm P by (cases t2) (auto simp: unify_shapes_def intro!: vec dest: size_in_list)
  next
    case (MVector x)
    then show ?thesis using mm P by (cases t2) (auto simp: unify_shapes_def intro!: one)
  next
    case (MDatatype m k ts)
    then show ?thesis using mm P by (cases t2) (auto simp: unify_shapes_def intro!: vec dest: size_in_list)
  next
    case (MTypeDomain x)
    then show ?thesis using mm P by (cases t2) (auto simp: unify_shapes_def intro!: one)
  next
    case (MFun ts1 r1)
    then show ?thesis using mm P
      by (cases t2) (auto simp: unify_shapes_def Let_def less_Suc_eq_le trans_le_add1 size_list_estimation'
        intro!: vec one)
  qed (use mm P in \<open>cases t2; simp add: unify_shapes_def\<close>)+
qed

subsection \<open>Closed types\<close>

lemma osequence_map_returns:
  "(\<And>x. x \<in> set xs \<Longrightarrow> \<exists>u. h x = Done u) \<Longrightarrow> \<exists>us. osequence (map h xs) = Done us"
  by (induction xs) fastforce+

lemma mreplace_closed: "mvars t = {} \<Longrightarrow> \<exists>u. mreplace fuel None subs t = Done u"
proof (induction fuel "None :: MType list option" subs t rule: mreplace.induct)
  case (4 fuel subs mid sid args)
  then show ?case using osequence_map_returns [of args "mreplace fuel None subs"] by auto
next
  case (5 fuel subs args result)
  then show ?case using osequence_map_returns [of args "mreplace fuel None subs"] by auto
next
  case (6 fuel subs args)
  then show ?case using osequence_map_returns [of args "mreplace fuel None subs"] by auto
next
  case (9 fuel subs mid sid args_opt)
  then show ?case using osequence_map_returns [of "the args_opt" "mreplace fuel None subs"]
    by (cases args_opt) auto
qed auto

lemma size_skip_le: "size (skip_reference t) \<le> size t" "mvars (skip_reference t) = mvars t"
  by (cases t; simp)+

lemma mvars_closed_not_var: "mvars t = {} \<Longrightarrow> t \<noteq> MVar x"
  by auto

lemma try_not_var: "(\<forall>x. t1 \<noteq> MVar x) \<Longrightarrow> try_substitute_or_assign fuel U swapped t1 t2 s = uok None s"
  by (cases t1) (simp_all add: try_substitute_or_assign_def)

text \<open>The step on two types that are no references, the first no variable and the second closed.\<close>

lemma step_shapes:
  assumes "\<not> is_reference t1" "\<not> is_reference t2" "\<forall>x. t1 \<noteq> MVar x" "mvars t2 = {}"
  shows "unify_step fuel U v t1 t2 s =
    (if t1 = MError then uok t2 s else if t2 = MError then uok t1 s else unify_shapes fuel U v t1 t2 s)"
proof -
  have "unify_step fuel U v t1 t2 s = unify_plain fuel U v t1 t2 s"
    using assms(1,2) by (cases t1; cases t2) (simp_all add: unify_step_def unify_plain_def)
  moreover have "\<forall>x. t2 \<noteq> MVar x" using assms(4) by auto
  ultimately show ?thesis using assms(3) by (simp add: unify_plain_def try_not_var uok_def)
qed

lemma step_reference1:
  "unify_step fuel U v (MReference m b1) t2 s =
    ubind (U (sub_variance v) b1 (skip_reference t2) s) (\<lambda>r s. uok (MReference m r) s)"
  by (simp add: unify_step_def)

lemma step_reference2:
  "\<not> is_reference t1 \<Longrightarrow> unify_step fuel U v t1 (MReference m b2) s =
    ubind (U (sub_variance v) t1 b2 s) (\<lambda>r s. uok (MReference m r) s)"
  by (cases t1) (simp_all add: unify_step_def)

lemma halts_ground:
  "mvars t1 = {} \<Longrightarrow> mvars t2 = {} \<Longrightarrow> size t1 + size t2 < n \<Longrightarrow> P s \<Longrightarrow> halts P (unify n v t1 t2 s)"
proof (induction n arbitrary: v t1 t2 s)
  case (Suc n)
  note IH = Suc.IH
  consider (r1) m b1 where "t1 = MReference m b1" | (r2) m b2 where "t2 = MReference m b2" "\<not> is_reference t1"
    | (plain) "\<not> is_reference t1" "\<not> is_reference t2" by (cases t1; cases t2) auto
  then show ?case
  proof cases
    case r1
    have "halts P (unify n (sub_variance v) b1 (skip_reference t2) s)"
      using Suc.prems r1 size_skip_le [of t2] by (intro IH) auto
    then show ?thesis unfolding unify.simps r1 step_reference1 by (rule halts_ubind) simp
  next
    case r2
    have "halts P (unify n (sub_variance v) t1 b2 s)" using Suc.prems r2 by (intro IH) auto
    then show ?thesis unfolding unify.simps r2(1) step_reference2 [OF r2(2)] by (rule halts_ubind) simp
  next
    case plain
    have m: "halts P (mismatch n t1 t2 s :: MType ures)" if "P s" for s
    proof -
      obtain a b where "specialize n s t1 = Done a" "specialize n s t2 = Done b"
        using mreplace_closed Suc.prems(1,2) unfolding specialize_def by meson
      then show ?thesis using that by (rule halts_mismatch)
    qed
    have "halts P (unify_shapes n (unify n) v t1 t2 s)"
      using Suc.prems m by (intro halts_shapes) (auto intro!: IH)
    then show ?thesis using plain Suc.prems by (simp add: step_shapes mvars_closed_not_var)
  qed
qed simp

text \<open>Bounded substitutions bind variables of \<open>D\<close> to closed types of size at most \<open>B\<close>.\<close>

definition bounded :: "nat set \<Rightarrow> nat \<Rightarrow> subst \<Rightarrow> bool" where
  "bounded D B s \<longleftrightarrow> dom s \<subseteq> D \<and> (\<forall>x t. s x = Some t \<longrightarrow> mvars t = {} \<and> size t \<le> B)"

lemma contains_mvars: "mty_contains (\<lambda>u. u = MVar v) t \<Longrightarrow> v \<in> mvars t"
  by (induction "\<lambda>u. u = MVar v" t rule: mty_contains.induct)
    (auto simp: list_ex_iff intro: bexI [of _ "MVar v"])

lemma bounded_ranked: "bounded D B s \<Longrightarrow> ranked (\<lambda>x. if x \<in> dom s then 1 else 0) s"
  by (auto simp: bounded_def ranked_def)

lemma specialize_bounded: "bounded D B s \<Longrightarrow> 2 \<le> fuel \<Longrightarrow> \<exists>u. specialize fuel s t = Done u"
  unfolding specialize_def using mreplace_ranked [OF bounded_ranked, of D B s t fuel] by fastforce

lemma halts_match:
  "mvars t1 \<subseteq> D \<Longrightarrow> mvars t2 = {} \<Longrightarrow> size t2 \<le> B \<Longrightarrow> size t1 + size t2 + B + 2 < n \<Longrightarrow> bounded D B s \<Longrightarrow>
   halts (bounded D B) (unify n v t1 t2 s)"
proof (induction n arbitrary: v t1 t2 s)
  case (Suc n)
  note IH = Suc.IH
  consider (r1) m b1 where "t1 = MReference m b1" | (r2) m b2 where "t2 = MReference m b2" "\<not> is_reference t1"
    | (var) x where "t1 = MVar x" "\<not> is_reference t2"
    | (plain) "\<not> is_reference t1" "\<not> is_reference t2" "\<forall>x. t1 \<noteq> MVar x" by (cases t1; cases t2) auto
  then show ?case
  proof cases
    case r1
    have "halts (bounded D B) (unify n (sub_variance v) b1 (skip_reference t2) s)"
      using Suc.prems r1 size_skip_le [of t2] by (intro IH) auto
    then show ?thesis unfolding unify.simps r1 step_reference1 by (rule halts_ubind) simp
  next
    case r2
    have "halts (bounded D B) (unify n (sub_variance v) t1 b2 s)" using Suc.prems r2 by (intro IH) auto
    then show ?thesis unfolding unify.simps r2(1) step_reference2 [OF r2(2)] by (rule halts_ubind) simp
  next
    case var
    have step: "unify (Suc n) v t1 t2 s = unify_plain n (unify n) v t1 t2 s"
      using var by (cases t2) (simp_all add: unify_step_def unify_plain_def)
    have "halts (bounded D B) (try_substitute_or_assign n (unify n v) False t1 t2 s)"
    proof (cases "s x")
      case None
      have "\<not> mty_contains (\<lambda>u. u = MVar x) t2" "t2 \<noteq> MVar x" using contains_mvars Suc.prems(2) by auto
      then show ?thesis using None var Suc.prems
        by (auto simp: try_substitute_or_assign_def bounded_def subst_bind_def)
    next
      case (Some u)
      then have "halts (bounded D B) (unify n v u t2 s)"
        using Suc.prems unfolding bounded_def by (intro halts_ground) (auto, fastforce)
      then show ?thesis using Some var by (simp add: try_substitute_or_assign_def halts_ubind)
    qed
    then obtain r s' where r: "try_substitute_or_assign n (unify n v) False t1 t2 s = Done (r, s')" "bounded D B s'"
      by (auto simp: halts_def)
    have "r \<noteq> Inr None" using unification.try_none r(1) var by blast
    then have "halts (bounded D B) (unify_plain n (unify n) v t1 t2 s)"
      using r by (cases r) (auto simp: unify_plain_def)
    then show ?thesis using step by simp
  next
    case plain
    have m: "halts (bounded D B) (mismatch n t1 t2 s :: MType ures)" if "bounded D B s" for s
      using specialize_bounded [OF that, of n t1] specialize_bounded [OF that, of n t2] that Suc.prems(4)
      by (auto intro: halts_mismatch)
    have "halts (bounded D B) (unify_shapes n (unify n) v t1 t2 s)"
      using Suc.prems m by (intro halts_shapes) (auto intro!: IH)
    then show ?thesis using plain Suc.prems by (simp add: step_shapes)
  qed
qed simp

section \<open>Properties\<close>

text \<open>
  C27: a successful unification is most general: the assignments that solve the new
  substitution are those that solve the old one and make the two types equal, and they
  make the returned type equal to both.  Equality is up to references, and up to
  integer types (\<open>b\<close>) unless the variance disallows that.
\<close>

theorem unify_most_general:
  assumes "unify n v t1 t2 s = Done (Inr r, s')" "firm t1" "firm t2" "firm_subst s" "mode b v"
  shows "(solves b \<sigma> s' \<longleftrightarrow> solves b \<sigma> s \<and> same b \<sigma> t1 t2) \<and> (solves b \<sigma> s' \<longrightarrow> same b \<sigma> t1 r)"
  using unification.U_ok [OF assms(1-4)] assms(5) solves_mono [of b \<sigma> s' s] unfolding unified_def by blast

theorem unify_most_general_witness:
  "solves False (\<lambda>_. MPrimitive PU8) [0 \<mapsto> MPrimitive PU8]
   \<and> unify 3 VDisallow (MVector (MVar 0)) (MVector (MPrimitive PU8)) Map.empty =
       Done (Inr (MVector (MPrimitive PU8)), [0 \<mapsto> MPrimitive PU8])"
proof
  show u: "unify 3 VDisallow (MVector (MVar 0)) (MVector (MPrimitive PU8)) Map.empty =
      Done (Inr (MVector (MPrimitive PU8)), [0 \<mapsto> MPrimitive PU8])"
    by (simp add: eval_nat_numeral unify_step_def try_substitute_or_assign_def unify_shapes_def uok_def subst_bind_def)
  show "solves False (\<lambda>_. MPrimitive PU8) [0 \<mapsto> MPrimitive PU8]"
    using unify_most_general [OF u, of False "\<lambda>_. MPrimitive PU8"]
    by (simp add: firm_subst_def mode_def) (simp add: solves_def same_def)
qed

text \<open>
  C28: when unification reports an error, no assignment that solves the substitution
  makes the two types equal.
\<close>

theorem unify_error_correct:
  assumes "unify n v t1 t2 s = Done (Inl e, s')" "firm t1" "firm t2" "firm_subst s" "solves False \<sigma> s"
  shows "\<not> same False \<sigma> t1 t2"
  using unification.U_err [OF assms(1-4)] assms(5) unfolding hopeless_def by blast

theorem unify_error_correct_witness:
  "\<not> same False (\<lambda>_. MPrimitive PU8) (MPrimitive PBool) (MVector (MVar 0))"
proof (rule unify_error_correct)
  have "specialize 0 Map.empty (MPrimitive PBool) = Done (MPrimitive PBool)"
    "specialize 0 Map.empty (MVector (MVar 0)) = Done (MVector (MVar 0))"
    by (simp_all add: specialize_def)
  then show "unify 1 VDisallow (MPrimitive PBool) (MVector (MVar 0)) Map.empty =
      Done (Inl (TypeMismatch (MPrimitive PBool) (MVector (MVar 0))), Map.empty)"
    by (simp add: unify_step_def try_substitute_or_assign_def unify_shapes_def uok_def mismatch_def)
qed (simp_all add: firm_subst_def solves_def)

text \<open>
  Unification accepts a cycle of two variables: an unbound variable is bound to a
  variable that is already bound to it.  Following the substitution then never ends.
\<close>

theorem unify_accepts_cycle:
  "unify 1 v (MVar 1) (MVar 0) [0 \<mapsto> MVar 1] = Done (Inr (MVar 0), [0 \<mapsto> MVar 1, 1 \<mapsto> MVar 0])
   \<and> get_substitution fuel [0 \<mapsto> MVar 1, 1 \<mapsto> MVar 0] 0 False = Diverged
   \<and> specialize fuel [0 \<mapsto> MVar 1, 1 \<mapsto> MVar 0] (MVar 0) = Diverged"
proof (intro conjI)
  show "unify 1 v (MVar 1) (MVar 0) [0 \<mapsto> MVar 1] = Done (Inr (MVar 0), [0 \<mapsto> MVar 1, 1 \<mapsto> MVar 0])"
    by (simp add: unify_step_def try_substitute_or_assign_def uok_def subst_bind_def)
  have "get_substitution fuel [0 \<mapsto> MVar 1, 1 \<mapsto> MVar 0] 0 False = Diverged
      \<and> get_substitution fuel [0 \<mapsto> MVar 1, 1 \<mapsto> MVar 0] 1 False = Diverged"
    by (induction fuel)
      (simp_all add: get_substitution.simps [of 0] get_substitution.simps [of "Suc k" for k])
  then show "get_substitution fuel [0 \<mapsto> MVar 1, 1 \<mapsto> MVar 0] 0 False = Diverged" by simp
  have "mreplace fuel None (Some [0 \<mapsto> MVar 1, 1 \<mapsto> MVar 0]) (MVar 0) = Diverged
      \<and> mreplace fuel None (Some [0 \<mapsto> MVar 1, 1 \<mapsto> MVar 0]) (MVar 1) = Diverged"
    by (induction fuel) simp_all
  then show "specialize fuel [0 \<mapsto> MVar 1, 1 \<mapsto> MVar 0] (MVar 0) = Diverged" by (simp add: specialize_def)
qed

end
