(* ===== verification/TypeMatching.thy ===== *)
theory TypeMatching
  imports Unification
begin

text \<open>
  Unification of types of two generic contexts (\<open>TypeUnificationAdapter\<close> and
  \<open>TypeInstantiationDerivation\<close> in \<open>move-model/src/ty.rs\<close>).  An instantiation map is
  the list of its entries in the order of its keys, a set of types a list without
  repetitions.  Debug assertions are not part of the model.

  With variables on one side only the adapter is matching: it returns, and what it
  returns is right.  With variables on both sides it may run into the cycles the
  unifier accepts.
\<close>

section \<open>TypeUnificationAdapter\<close>

record adapter =
  type_vars_map :: "(nat \<times> bool \<times> nat) list"
  types_adapted_lhs :: "MType list"
  types_adapted_rhs :: "MType list"

definition count_type_param :: "MType \<Rightarrow> nat \<Rightarrow> nat" where
  "count_type_param t current =
     (case t of MTypeParameter idx \<Rightarrow> max current ((idx + 1) mod 2 ^ 16) | _ \<Rightarrow> current)"

definition type_param_count :: "MType list \<Rightarrow> nat" where
  "type_param_count ts = fold (visit count_type_param) ts 0"

text \<open>The instantiation of one side, and the variables it makes, numbered from \<open>var_count\<close>.\<close>

definition side_inst :: "nat \<Rightarrow> nat option \<Rightarrow> nat \<Rightarrow> MType list" where
  "side_inst var_count boundary count =
     (case boundary of
        None \<Rightarrow> []
      | Some b \<Rightarrow> map MTypeParameter [0..<b] @ map MVar [var_count..<var_count + (count - b)])"

definition side_vars :: "bool \<Rightarrow> nat \<Rightarrow> nat option \<Rightarrow> nat \<Rightarrow> (nat \<times> bool \<times> nat) list" where
  "side_vars is_lhs var_count boundary count =
     (case boundary of
        None \<Rightarrow> []
      | Some b \<Rightarrow> map (\<lambda>k. (var_count + k, is_lhs, b + k)) [0..<count - b])"

definition adapter_new :: "MType list \<Rightarrow> MType list \<Rightarrow> nat option \<Rightarrow> nat option \<Rightarrow> adapter outcome" where
  "adapter_new lhs_types rhs_types lhs_boundary rhs_boundary =
     (let lhs_count = type_param_count lhs_types;
          rhs_count = type_param_count rhs_types;
          lhs_vars = side_vars True 0 lhs_boundary lhs_count;
          lhs_inst = side_inst 0 lhs_boundary lhs_count;
          rhs_vars = side_vars False (length lhs_vars) rhs_boundary rhs_count;
          rhs_inst = side_inst (length lhs_vars) rhs_boundary rhs_count
      in obind (osequence (map (\<lambda>t. mty_instantiate t lhs_inst) lhs_types)) (\<lambda>ls.
         obind (osequence (map (\<lambda>t. mty_instantiate t rhs_inst) rhs_types)) (\<lambda>rs.
           Done \<lparr>type_vars_map = lhs_vars @ rhs_vars, types_adapted_lhs = ls, types_adapted_rhs = rs\<rparr>)))"

definition adapter_new_pair :: "MType \<Rightarrow> MType \<Rightarrow> bool \<Rightarrow> bool \<Rightarrow> adapter outcome" where
  "adapter_new_pair lhs_type rhs_type lhs_vars rhs_vars =
     adapter_new [lhs_type] [rhs_type] (if lhs_vars then Some 0 else None) (if rhs_vars then Some 0 else None)"

definition adapter_new_vec :: "MType list \<Rightarrow> MType list \<Rightarrow> bool \<Rightarrow> bool \<Rightarrow> adapter outcome" where
  "adapter_new_vec lhs_types rhs_types lhs_vars rhs_vars =
     adapter_new lhs_types rhs_types (if lhs_vars then Some 0 else None) (if rhs_vars then Some 0 else None)"

text \<open>The instantiation of one variable; a variable of no side panics.\<close>

definition adapter_subst ::
  "nat \<Rightarrow> (nat \<times> bool \<times> nat) list \<Rightarrow> subst \<Rightarrow> bool \<Rightarrow> nat \<Rightarrow> MType option outcome" where
  "adapter_subst fuel vars s shallow_subst var_idx =
     obind (get_substitution fuel s var_idx shallow_subst) (\<lambda>r. case r of
        None \<Rightarrow> Done None
      | Some (MVar subst_var_idx) \<Rightarrow>
          (case map_of vars subst_var_idx of
             None \<Rightarrow> Panicked
           | Some (_, param_idx) \<Rightarrow> Done (Some (MTypeParameter param_idx)))
      | Some subst_ty \<Rightarrow> Done (Some subst_ty))"

type_synonym param_inst = "(nat \<times> MType) list"

fun collect_insts ::
  "(nat \<Rightarrow> MType option outcome) \<Rightarrow> (nat \<times> bool \<times> nat) list \<Rightarrow> (param_inst \<times> param_inst) outcome" where
  "collect_insts sub [] = Done ([], [])"
| "collect_insts sub ((var_idx, is_lhs, param_idx) # vars) =
     obind (sub var_idx) (\<lambda>r.
       omap (\<lambda>(inst_lhs, inst_rhs).
         case r of
           None \<Rightarrow> (inst_lhs, inst_rhs)
         | Some ty \<Rightarrow> if is_lhs then ((param_idx, ty) # inst_lhs, inst_rhs)
                      else (inst_lhs, (param_idx, ty) # inst_rhs))
       (collect_insts sub vars))"

definition adapter_unify ::
  "nat \<Rightarrow> adapter \<Rightarrow> Variance \<Rightarrow> bool \<Rightarrow> (param_inst \<times> param_inst) option outcome" where
  "adapter_unify fuel a variance shallow_subst =
     obind (unify_vec (unify fuel variance) (types_adapted_lhs a) (types_adapted_rhs a) [] subst_new) (\<lambda>(r, s).
       case r of
         Inl _ \<Rightarrow> Done None
       | Inr _ \<Rightarrow>
           omap Some (collect_insts (adapter_subst fuel (type_vars_map a) s shallow_subst) (type_vars_map a)))"

section \<open>TypeInstantiationDerivation\<close>

text \<open>The entries are in the order of their keys: one below the target is a failed assertion.\<close>

fun add_insts :: "nat \<Rightarrow> param_inst \<Rightarrow> MType list \<Rightarrow> MType list outcome" where
  "add_insts target [] insts = Done insts"
| "add_insts target ((param_idx, inst_ty) # subst) insts =
     (if param_idx \<noteq> target
      then if param_idx > target then add_insts target subst insts else Panicked
      else add_insts target subst (List.insert inst_ty insts))"

definition derive_pair ::
  "nat \<Rightarrow> nat option \<Rightarrow> nat option \<Rightarrow> nat \<Rightarrow> bool \<Rightarrow> MType \<times> MType \<Rightarrow> MType list \<Rightarrow> MType list outcome" where
  "derive_pair fuel lhs_boundary rhs_boundary target target_lhs = (\<lambda>(t_lhs, t_rhs) insts.
     obind (adapter_new [t_lhs] [t_rhs] lhs_boundary rhs_boundary) (\<lambda>a.
     obind (adapter_unify fuel a VAllow False) (\<lambda>rel.
       case rel of
         None \<Rightarrow> Done insts
       | Some (subst_lhs, subst_rhs) \<Rightarrow> add_insts target (if target_lhs then subst_lhs else subst_rhs) insts)))"

definition derive_instantiations_for_target_parameter ::
  "nat \<Rightarrow> MType list \<Rightarrow> MType list \<Rightarrow> bool \<Rightarrow> bool \<Rightarrow> nat \<Rightarrow> bool \<Rightarrow> MType list outcome" where
  "derive_instantiations_for_target_parameter fuel lhs_types rhs_types lhs_vars rhs_vars target target_lhs =
     (let lhs_boundary = (if lhs_vars then Some (if target_lhs then target else 0) else None);
          rhs_boundary = (if rhs_vars then Some (if target_lhs then 0 else target) else None)
      in fold (\<lambda>p r. obind r (derive_pair fuel lhs_boundary rhs_boundary target target_lhs p))
           (List.product lhs_types rhs_types) (Done []))"

definition refine_types :: "bool \<Rightarrow> MType list \<Rightarrow> MType list \<Rightarrow> MType list outcome" where
  "refine_types refine param_insts types =
     omap remdups (osequence (map (\<lambda>t. if refine then mty_instantiate t param_insts else Done t) types))"

record progress_args =
  lhs_types :: "MType list"
  rhs_types :: "MType list"
  lhs_as_var :: bool
  rhs_as_var :: bool
  refine_lhs :: bool
  refine_rhs :: bool
  target_is_lhs :: bool
  mark_error :: bool

definition progress_step :: "nat \<Rightarrow> progress_args \<Rightarrow> nat \<Rightarrow> MType list \<Rightarrow> MType list list outcome" where
  "progress_step fuel a target param_insts =
     obind (refine_types (refine_lhs a) param_insts (lhs_types a)) (\<lambda>refined_lhs.
     obind (refine_types (refine_rhs a) param_insts (rhs_types a)) (\<lambda>refined_rhs.
     obind (derive_instantiations_for_target_parameter fuel refined_lhs refined_rhs
             (lhs_as_var a) (rhs_as_var a) (target mod 2 ^ 16) (target_is_lhs a)) (\<lambda>insts.
       Done (map (\<lambda>inst. param_insts[target := inst])
         (if insts = [] then [if mark_error a then MError else MTypeParameter (target mod 2 ^ 16)]
          else insts)))))"

definition progress_round :: "nat \<Rightarrow> progress_args \<Rightarrow> nat \<Rightarrow> MType list list \<Rightarrow> MType list list outcome" where
  "progress_round fuel a target work_queue =
     omap concat (osequence (map (progress_step fuel a target) work_queue))"

definition progressive_instantiation :: "nat \<Rightarrow> progress_args \<Rightarrow> nat \<Rightarrow> MType list list outcome" where
  "progressive_instantiation fuel a params_arity =
     omap remdups
       (fold (\<lambda>target q. obind q (progress_round fuel a target)) [0..<params_arity]
         (Done [map (\<lambda>i. MTypeParameter (i mod 2 ^ 16)) [0..<params_arity]]))"

section \<open>Matching\<close>

text \<open>Types as they stand in programs and specifications: firm, without variables, with small parameters.\<close>

definition proper :: "MType \<Rightarrow> bool" where
  "proper t \<longleftrightarrow> firm t \<and> mvars t = {} \<and> (\<forall>i\<in>mparams t. i < 2 ^ 16 - 1)"

abbreviation vars_for_params :: "MType \<Rightarrow> MType" where
  "vars_for_params \<equiv> msubst MVar MVar"

lemma visited_params: "firm t \<Longrightarrow> i \<in> mparams t \<Longrightarrow> MTypeParameter i \<in> set (visited t)"
  by (induction t rule: visited.induct) (auto simp: list_all_iff split: option.splits)

lemma fold_count_mono: "c \<le> fold count_type_param us c"
proof (induction us arbitrary: c)
  case (Cons u us)
  have "c \<le> count_type_param u c" by (cases u) (simp_all add: count_type_param_def)
  also have "\<dots> \<le> fold count_type_param us (count_type_param u c)" by (rule Cons.IH)
  finally show ?case by simp
qed simp

lemma fold_count_member:
  "MTypeParameter i \<in> set us \<Longrightarrow> i < 2 ^ 16 - 1 \<Longrightarrow> i < fold count_type_param us c"
proof (induction us arbitrary: c)
  case (Cons u us)
  show ?case
  proof (cases "u = MTypeParameter i")
    case True
    have "i < count_type_param u c" using True Cons.prems(2) by (simp add: count_type_param_def)
    also have "\<dots> \<le> fold count_type_param us (count_type_param u c)" by (rule fold_count_mono)
    finally show ?thesis by simp
  qed (use Cons in auto)
qed simp

lemma type_param_count_concat: "type_param_count ts = fold count_type_param (concat (map visited ts)) 0"
proof -
  have "fold (visit count_type_param) ts c = fold count_type_param (concat (map visited ts)) c" for c
    by (induction ts arbitrary: c) (simp_all add: visit_def)
  then show ?thesis by (simp add: type_param_count_def)
qed

lemma param_bound: "t \<in> set ts \<Longrightarrow> proper t \<Longrightarrow> i \<in> mparams t \<Longrightarrow> i < type_param_count ts"
  unfolding type_param_count_concat proper_def by (rule fold_count_member) (auto intro: visited_params)

lemma size_list_map_same: "\<forall>x\<in>set xs. size (f x) = size x \<Longrightarrow> size_list (\<lambda>x. size (f x)) xs = size_list size xs"
  by (induction xs) auto

lemma size_vars_for_params [simp]: "size (vars_for_params t) = size t"
proof (induction t rule: mvars.induct)
  case (8 m k args)
  then show ?case by (cases args) (auto simp: size_list_map_same [where f = vars_for_params] comp_def)
qed (auto simp: size_list_map_same [where f = vars_for_params] comp_def)

lemma firm_vars_for_params [simp]: "firm (vars_for_params t) = firm t"
  by (induction t rule: firm.induct) (auto simp: list_all_iff)

lemma mvars_vars_for_params [simp]: "mvars (vars_for_params t) = mparams t \<union> mvars t"
proof (induction t rule: mvars.induct)
  case (8 m k args)
  then show ?case by (cases args) auto
qed auto

lemma vars_for_params_inst: "msubst f g (vars_for_params t) = msubst g g t"
  by (simp add: msubst_msubst)

lemma adapter_new_match:
  assumes "\<forall>t\<in>set lhs \<union> set rhs. proper t"
  shows "adapter_new lhs rhs (Some 0) None = Done
    \<lparr>type_vars_map = map (\<lambda>k. (k, True, k)) [0..<type_param_count lhs],
     types_adapted_lhs = map vars_for_params lhs, types_adapted_rhs = rhs\<rparr>"
proof -
  have l: "mty_instantiate t (map MVar [0..<type_param_count lhs]) = Done (vars_for_params t)" if t: "t \<in> set lhs" for t
  proof -
    have p: "\<forall>i\<in>mparams t. i < type_param_count lhs" using param_bound [OF t] t assms by auto
    have e: "msubst (\<lambda>i. map MVar [0..<type_param_count lhs] ! i) MVar t = vars_for_params t"
      using p by (intro msubst_cong) auto
    show ?thesis
    proof (cases "type_param_count lhs = 0")
      case True
      then have "vars_for_params t = msubst MTypeParameter MVar t" using p by (intro msubst_cong) auto
      then show ?thesis using True by (simp add: mty_instantiate_def)
    qed (use p e in \<open>simp add: mty_instantiate_def mreplace_params\<close>)
  qed
  then have "osequence (map (\<lambda>t. mty_instantiate t (map MVar [0..<type_param_count lhs])) lhs) =
      Done (map vars_for_params lhs)"
    by (simp add: osequence_Done_iff cong: map_cong)
  moreover have "osequence (map (\<lambda>t. mty_instantiate t []) rhs) = Done rhs"
    by (simp add: osequence_Done_iff mty_instantiate_def)
  ultimately show ?thesis by (simp add: adapter_new_def side_inst_def side_vars_def)
qed

lemma get_substitution_bounded: "bounded D B s \<Longrightarrow> get_substitution fuel s x False = Done (s x)"
  by (subst get_substitution.simps) (fastforce simp: bounded_def split: option.split MType.split)

lemma collect_match:
  assumes "\<And>k. sub k = Done (s k)"
  shows "collect_insts sub (map (\<lambda>k. (k, True, k)) ks) =
    Done (List.map_filter (\<lambda>k. map_option (Pair k) (s k)) ks, [])"
  by (induction ks) (auto simp: assms map_filter_simps split: option.split)

lemma map_of_map_filter:
  "map_of (List.map_filter (\<lambda>k. map_option (Pair k) (s k)) ks) i = (if i \<in> set ks then s i else None)"
  by (induction ks) (auto simp: map_filter_simps split: option.split)

text \<open>Fuel above the sizes of the two sides.\<close>

definition enough :: "nat \<Rightarrow> MType list \<Rightarrow> MType list \<Rightarrow> bool" where
  "enough fuel lhs rhs \<longleftrightarrow> (\<forall>l\<in>set lhs. size l + 2 * size_list size rhs + 2 < fuel)"

text \<open>The assignment a list of entries stands for.\<close>

definition inst_of :: "param_inst \<Rightarrow> nat \<Rightarrow> MType" where
  "inst_of il i = (case map_of il i of Some t \<Rightarrow> t | None \<Rightarrow> MTypeParameter i)"

lemma distinct_map_filter:
  "distinct ks \<Longrightarrow> distinct (map fst (List.map_filter (\<lambda>k. map_option (Pair k) (s k)) ks))"
proof (induction ks)
  case (Cons k ks)
  have "fst ` set (List.map_filter (\<lambda>k. map_option (Pair k) (s k)) ks) \<subseteq> set ks"
    by (auto simp: List.map_filter_def)
  then show ?case using Cons by (auto simp: map_filter_simps split: option.split)
qed (simp add: map_filter_simps)

lemma vec_match:
  assumes "\<forall>t\<in>set lhs \<union> set rhs. proper t" "enough fuel lhs rhs"
  shows "halts (bounded {..<type_param_count lhs} (size_list size rhs))
    (unify_vec (unify fuel v) (map vars_for_params lhs) rhs name subst_new)"
proof (rule halts_vec, intro ballI allI impI)
  fix l r s assume l: "l \<in> set (map vars_for_params lhs)" and r: "r \<in> set rhs"
    and s: "bounded {..<type_param_count lhs} (size_list size rhs) s"
  obtain l' where l': "l' \<in> set lhs" "l = vars_for_params l'" using l by auto
  have "proper l'" using l' assms(1) by simp
  have r': "mvars r = {}" "size r \<le> size_list size rhs"
    using r assms(1) by (simp add: proper_def) (rule size_list_estimation' [OF r], simp)
  show "halts (bounded {..<type_param_count lhs} (size_list size rhs)) (unify fuel v l r s)"
  proof (rule halts_match [OF _ r' _ s])
    show "mvars l \<subseteq> {..<type_param_count lhs}"
      using l' \<open>proper l'\<close> param_bound [OF l'(1)] by (auto simp: proper_def)
    have "size l' + 2 * size_list size rhs + 2 < fuel" using assms(2) l'(1) by (auto simp: enough_def)
    then show "size l + size r + size_list size rhs + 2 < fuel" using r'(2) l'(2) by simp
  qed
qed (simp add: bounded_def subst_new_def)

lemma same_inst:
  assumes "bounded D B s" "mvars l = {}" "mvars r = {}" "\<And>i. map_of il i = s i"
  shows "same b (inst_of il) (vars_for_params l) r \<longleftrightarrow> er b (msubst (inst_of il) MVar l) = er b r"
proof -
  have "app \<sigma> r = r" for \<sigma>
    using msubst_cong [of r MTypeParameter MTypeParameter \<sigma> MVar] assms(3) by simp
  moreover have "app (inst_of il) (vars_for_params l) = msubst (inst_of il) MVar l"
    unfolding vars_for_params_inst using assms(2) by (intro msubst_cong) auto
  ultimately show ?thesis by (simp add: same_def)
qed

lemma solves_inst_of:
  assumes "bounded D B s" "\<And>i. map_of il i = s i"
  shows "solves b (inst_of il) s"
proof -
  have "app \<sigma> t = t" if "s x = Some t" for x t \<sigma>
    using msubst_cong [of t MTypeParameter MTypeParameter \<sigma> MVar] assms(1) that by (auto simp: bounded_def)
  then show ?thesis using assms(2) by (auto simp: solves_def same_def inst_of_def)
qed

lemma list_all2_cong_members:
  "(\<And>x y. x \<in> set xs \<Longrightarrow> y \<in> set ys \<Longrightarrow> P x y = Q x y) \<Longrightarrow> list_all2 P xs ys = list_all2 Q xs ys"
  by (auto simp: list_all2_conv_all_nth)

definition instance_of :: "bool \<Rightarrow> (nat \<Rightarrow> MType) \<Rightarrow> MType list \<Rightarrow> MType list \<Rightarrow> bool" where
  "instance_of b f lhs rhs \<longleftrightarrow> list_all2 (\<lambda>l r. er b (msubst f MVar l) = er b r) lhs rhs"

text \<open>The adapter with variables on the left matches the left side against the right.\<close>

lemma adapter_match:
  assumes p: "\<forall>t\<in>set lhs \<union> set rhs. proper t" and e: "enough fuel lhs rhs"
    and a: "adapter_new lhs rhs (Some 0) None = Done a"
  shows "\<exists>res. adapter_unify fuel a v False = Done res \<and>
    (case res of
       Some (il, ir) \<Rightarrow> ir = [] \<and> distinct (map fst il) \<and> (\<forall>b. mode b v \<longrightarrow> instance_of b (inst_of il) lhs rhs)
     | None \<Rightarrow> \<forall>f. \<not> instance_of False f lhs rhs)"
proof -
  let ?c = "type_param_count lhs"
  let ?vars = "map (\<lambda>k. (k, True, k)) [0..<?c]"
  have a': "a = \<lparr>type_vars_map = ?vars, types_adapted_lhs = map vars_for_params lhs, types_adapted_rhs = rhs\<rparr>"
    using a adapter_new_match [OF p] by simp
  obtain r s where u: "unify_vec (unify fuel v) (map vars_for_params lhs) rhs [] subst_new = Done (r, s)"
    and s: "bounded {..<?c} (size_list size rhs) s"
    using vec_match [OF p e, of v "[]"] by (auto simp: halts_def)
  have f: "list_all firm (map vars_for_params lhs)" "list_all firm rhs" "firm_subst subst_new"
    using p by (auto simp: list_all_iff proper_def firm_subst_def subst_new_def)
  have closed: "mvars t = {}" if "t \<in> set lhs \<union> set rhs" for t using p that by (simp add: proper_def)
  show ?thesis
  proof (cases r)
    case (Inl err)
    have "\<not> instance_of False f lhs rhs" for f
    proof
      assume i: "instance_of False f lhs rhs"
      have "same False f (vars_for_params l) t = (er False (msubst f MVar l) = er False t)"
        if "l \<in> set lhs" "t \<in> set rhs" for l t
        using that closed msubst_cong [of t MTypeParameter MTypeParameter f MVar]
          msubst_cong [of l f f f MVar]
        by (auto simp: same_def vars_for_params_inst)
      then have "list_all2 (\<lambda>l t. same False f (vars_for_params l) t) lhs rhs"
        using i unfolding instance_of_def by (simp cong: list_all2_cong_members)
      then have "list_all2 (same False f) (map vars_for_params lhs) rhs" by (simp add: list_all2_map1)
      moreover have "solves False f subst_new" by (simp add: solves_def subst_new_def)
      ultimately show False using unification.vec_err [OF u [unfolded Inl] f] by blast
    qed
    then show ?thesis using u Inl a' by (simp add: adapter_unify_def)
  next
    case (Inr rs)
    define il where "il = List.map_filter (\<lambda>k. map_option (Pair k) (s k)) [0..<?c]"
    have m: "map_of il i = s i" for i
      using s unfolding il_def map_of_map_filter bounded_def by (auto simp: domIff subset_iff) (metis not_None_eq)
    have "s k \<noteq> Some (MVar i)" for k i using s by (fastforce simp: bounded_def)
    then have "adapter_subst fuel ?vars s False k = Done (s k)" for k
      by (auto simp: adapter_subst_def get_substitution_bounded [OF s] split: option.split MType.split)
    then have c: "adapter_unify fuel a v False = Done (Some (il, []))"
      using u Inr a' by (simp add: adapter_unify_def collect_match il_def)
    have "instance_of b (inst_of il) lhs rhs" if "mode b v" for b
    proof -
      have "list_all2 (same b (inst_of il)) (map vars_for_params lhs) rhs"
        using unification.vec_ok [OF u [unfolded Inr] f] that solves_inst_of [OF s m] by blast
      then have "list_all2 (\<lambda>l t. same b (inst_of il) (vars_for_params l) t) lhs rhs"
        by (simp add: list_all2_map1)
      then show ?thesis unfolding instance_of_def
        using same_inst [OF s _ _ m] closed by (simp cong: list_all2_cong_members)
    qed
    then show ?thesis using c distinct_map_filter [of "[0..<?c]" s] by (simp add: il_def)
  qed
qed

section \<open>Derived instantiations\<close>

lemma add_insts_above:
  "\<forall>(p, u)\<in>set il. target \<le> p \<Longrightarrow>
   \<exists>out. add_insts target il insts = Done out \<and> set out = set insts \<union> {u. (target, u) \<in> set il}"
proof (induction il arbitrary: insts)
  case (Cons e il)
  obtain p u where e: "e = (p, u)" by fastforce
  have "\<exists>out. add_insts target il js = Done out \<and> set out = set js \<union> {u. (target, u) \<in> set il}" for js
    using Cons by simp
  then show ?case using Cons.prems e by (cases "p = target") fastforce+
qed simp

text \<open>A type for parameter 0 that makes some type on the left equal to one on the right.\<close>

definition derived :: "MType list \<Rightarrow> MType list \<Rightarrow> MType \<Rightarrow> bool" where
  "derived lhs rhs t \<longleftrightarrow> (\<exists>l\<in>set lhs. \<exists>r\<in>set rhs. \<exists>f. f 0 = t \<and> instance_of True f [l] [r])"

lemma derive_pair_match:
  assumes "proper l" "proper r" "size l + 2 * size r + 4 < fuel"
  shows "\<exists>out. derive_pair fuel (Some 0) None 0 True (l, r) insts = Done out
    \<and> (\<forall>u\<in>set out. u \<in> set insts \<or> derived [l] [r] u)"
proof -
  have p: "\<forall>t\<in>set [l] \<union> set [r]. proper t" and e: "enough fuel [l] [r]"
    using assms by (auto simp: enough_def)
  obtain a where a: "adapter_new [l] [r] (Some 0) None = Done a"
    using adapter_new_match [OF p] by blast
  obtain res where res: "adapter_unify fuel a VAllow False = Done res"
    "case res of
       Some (il, ir) \<Rightarrow> ir = [] \<and> distinct (map fst il) \<and> (\<forall>b. mode b VAllow \<longrightarrow> instance_of b (inst_of il) [l] [r])
     | None \<Rightarrow> \<forall>f. \<not> instance_of False f [l] [r]"
    using adapter_match [OF p e a, of VAllow] by blast
  show ?thesis
  proof (cases res)
    case None
    then show ?thesis using a res by (simp add: derive_pair_def)
  next
    case (Some pr)
    obtain il ir where pr: "pr = (il, ir)" by fastforce
    have i: "instance_of True (inst_of il) [l] [r]" "distinct (map fst il)"
      using res(2) Some pr by (auto simp: mode_def)
    then have "derived [l] [r] u" if "(0, u) \<in> set il" for u
      using that unfolding derived_def by (auto intro!: exI [of _ "inst_of il"] simp: inst_of_def)
    moreover obtain out where "add_insts 0 il insts = Done out" "set out = set insts \<union> {u. (0, u) \<in> set il}"
      using add_insts_above [of il 0 insts] by auto
    ultimately show ?thesis using a res(1) Some pr by (simp add: derive_pair_def) blast
  qed
qed

lemma derive_fold:
  "\<forall>(l, r)\<in>set ps. proper l \<and> proper r \<and> size l + 2 * size r + 4 < fuel \<and> l \<in> set lhs \<and> r \<in> set rhs \<Longrightarrow>
   \<forall>u\<in>set insts. derived lhs rhs u \<Longrightarrow>
   \<exists>out. fold (\<lambda>p r. obind r (derive_pair fuel (Some 0) None 0 True p)) ps (Done insts) = Done out
     \<and> (\<forall>u\<in>set out. derived lhs rhs u)"
proof (induction ps arbitrary: insts)
  case (Cons p ps)
  obtain l r where p: "p = (l, r)" by fastforce
  obtain out where out: "derive_pair fuel (Some 0) None 0 True (l, r) insts = Done out"
    "\<forall>u\<in>set out. u \<in> set insts \<or> derived [l] [r] u"
    using derive_pair_match [of l r fuel insts] Cons.prems p by auto
  have "\<forall>u\<in>set out. derived lhs rhs u"
  proof
    fix u assume "u \<in> set out"
    then consider "u \<in> set insts" | "derived [l] [r] u" using out(2) by blast
    then show "derived lhs rhs u"
    proof cases
      case 2
      then show ?thesis using Cons.prems(1) p unfolding derived_def by auto
    qed (use Cons.prems(2) in simp)
  qed
  then show ?case using Cons.IH [of out] Cons.prems(1) out(1) p by simp
qed simp

section \<open>Properties\<close>

text \<open>
  C29: with the type parameters of the left side as variables and the right side as it is,
  the adapter returns.  Its answer is an instantiation that makes the left side equal to
  the right, or that there is none.
\<close>

theorem adapter_matches:
  assumes "\<forall>t\<in>set lhs \<union> set rhs. proper t" "enough fuel lhs rhs"
  shows "\<exists>a res. adapter_new_vec lhs rhs True False = Done a \<and> adapter_unify fuel a v False = Done res \<and>
    (case res of
       Some (il, ir) \<Rightarrow> ir = [] \<and> (\<forall>b. mode b v \<longrightarrow> instance_of b (inst_of il) lhs rhs)
     | None \<Rightarrow> \<forall>f. \<not> instance_of False f lhs rhs)"
proof -
  obtain a where a: "adapter_new lhs rhs (Some 0) None = Done a"
    using adapter_new_match [OF assms(1)] by blast
  obtain res where "adapter_unify fuel a v False = Done res"
    "case res of
       Some (il, ir) \<Rightarrow> ir = [] \<and> distinct (map fst il) \<and> (\<forall>b. mode b v \<longrightarrow> instance_of b (inst_of il) lhs rhs)
     | None \<Rightarrow> \<forall>f. \<not> instance_of False f lhs rhs"
    using adapter_match [OF assms a, of v] by blast
  then show ?thesis using a
    by (intro exI [of _ a] exI [of _ res]) (auto simp: adapter_new_vec_def split: option.splits)
qed

theorem adapter_matches_witness:
  "\<exists>a res. adapter_new_vec [MVector (MTypeParameter 0)] [MVector (MPrimitive PBool)] True False = Done a
    \<and> adapter_unify 9 a VDisallow False = Done res"
  using adapter_matches [of "[MVector (MTypeParameter 0)]" "[MVector (MPrimitive PBool)]" 9 VDisallow]
  by (auto simp: proper_def enough_def)

text \<open>
  With variables on both sides the adapter may not return: unification makes a cycle
  of two variables, and following it to read off the instantiation never ends.
\<close>

theorem adapter_loops:
  "\<exists>a. adapter_new_vec (map MTypeParameter [0, 0, 1, 1]) (map MTypeParameter [0, 1, 1, 0]) True True = Done a
     \<and> (\<forall>fuel. adapter_unify fuel a v False = Diverged)"
proof -
  have n: "adapter_new_vec (map MTypeParameter [0, 0, 1, 1]) (map MTypeParameter [0, 1, 1, 0]) True True =
    Done \<lparr>type_vars_map = [(0, True, 0), (1, True, 1), (2, False, 0), (3, False, 1)],
      types_adapted_lhs = map MVar [0, 0, 1, 1], types_adapted_rhs = map MVar [2, 3, 3, 2]\<rparr>"
    by (simp add: adapter_new_vec_def adapter_new_def type_param_count_def visit_def count_type_param_def
        side_inst_def side_vars_def mty_instantiate_def Let_def upt_rec)
  have g: "get_substitution fuel [0 \<mapsto> MVar 2, 2 \<mapsto> MVar 3, 1 \<mapsto> MVar 3, 3 \<mapsto> MVar 2] 2 False = Diverged
      \<and> get_substitution fuel [0 \<mapsto> MVar 2, 2 \<mapsto> MVar 3, 1 \<mapsto> MVar 3, 3 \<mapsto> MVar 2] 3 False = Diverged" for fuel
    by (induction fuel)
      (simp_all add: get_substitution.simps [of 0] get_substitution.simps [of "Suc k" for k])
  have g0: "get_substitution fuel [0 \<mapsto> MVar 2, 2 \<mapsto> MVar 3, 1 \<mapsto> MVar 3, 3 \<mapsto> MVar 2] 0 False = Diverged" for fuel
    using g by (subst get_substitution.simps) (simp split: nat.split)
  have u: "unify_vec (unify (Suc (Suc k)) v) (map MVar [0, 0, 1, 1]) (map MVar [2, 3, 3, 2]) [] subst_new =
    Done (Inr [MVar 2, MVar 3, MVar 3, MVar 2], [0 \<mapsto> MVar 2, 2 \<mapsto> MVar 3, 1 \<mapsto> MVar 3, 3 \<mapsto> MVar 2])" for k
    by (simp add: unify_vec_def subst_new_def unify_step_def try_substitute_or_assign_def uok_def subst_bind_def
        fun_upd_twist)
  have small: "unify_vec (unify n v) (map MVar [0, 0, 1, 1]) (map MVar [2, 3, 3, 2]) [] subst_new = Diverged"
    if "n = 0 \<or> n = 1" for n
    using that by (auto simp: unify_vec_def subst_new_def unify_step_def try_substitute_or_assign_def uok_def subst_bind_def)
  have "adapter_unify fuel
    \<lparr>type_vars_map = [(0, True, 0), (1, True, 1), (2, False, 0), (3, False, 1)],
      types_adapted_lhs = map MVar [0, 0, 1, 1], types_adapted_rhs = map MVar [2, 3, 3, 2]\<rparr> v False = Diverged" for fuel
  proof (cases "fuel = 0 \<or> fuel = 1")
    case True
    then show ?thesis using small by (simp add: adapter_unify_def)
  next
    case False
    then obtain k where "fuel = Suc (Suc k)" by (metis One_nat_def not0_implies_Suc)
    then show ?thesis using u [of k] g0 by (simp add: adapter_unify_def adapter_subst_def del: unify.simps)
  qed
  then show ?thesis using n by blast
qed

text \<open>
  C30: deriving the instantiations of the first type parameter of the left side returns,
  and each of them makes some type of the left side equal to one of the right, up to
  references and integer types.
\<close>

theorem derive_sound:
  assumes "\<forall>l\<in>set lhs. \<forall>r\<in>set rhs. proper l \<and> proper r \<and> size l + 2 * size r + 4 < fuel"
  shows "\<exists>insts. derive_instantiations_for_target_parameter fuel lhs rhs True False 0 True = Done insts
    \<and> list_all (derived lhs rhs) insts"
  using derive_fold [of "List.product lhs rhs" fuel lhs rhs "[]"] assms
  by (auto simp: derive_instantiations_for_target_parameter_def list_all_iff)

theorem derive_sound_witness:
  "\<exists>insts. derive_instantiations_for_target_parameter 9 [MTypeParameter 0] [MPrimitive PBool] True False 0 True = Done insts
    \<and> list_all (derived [MTypeParameter 0] [MPrimitive PBool]) insts"
  by (rule derive_sound) (simp add: proper_def)

end
