(* ===== verification/SpecExp.thy ===== *)
theory SpecExp
  imports MoveTy
begin

text \<open>
  The expressions of specifications (\<open>move-stackless-bytecode/src/ast.rs\<close>) and their
  rewriting (\<open>exp_rewriter.rs\<close>).  Symbols, node ids and ids of the model are numbers.
  \<open>Exp\<close> is an interned \<open>ExpData\<close>, so the test that a subterm was not changed is equality,
  and the node that is rebuilt from unchanged parts is the node itself.

  The closures that the rewriting calls may change what they capture: \<open>rewrite_exp\<close> is a
  computation over that state.
\<close>

section \<open>Expressions\<close>

datatype QuantKind = QForall | QExists | QChoose | QChooseMin

fun is_choice :: "QuantKind \<Rightarrow> bool" where
  "is_choice k = (k = QChoose \<or> k = QChooseMin)"

datatype TraceKind = TraceUser | TraceAuto | TraceSubAuto

datatype Value =
    VAddress nat
  | VNumber int
  | VBool bool
  | VByteArray "8 word list"
  | VAddressArray "nat list"
  | VVector "Value list"

datatype (plugins only: size) ExpOp =
    EPack nat nat | ETuple | ESelect nat nat nat | EUpdateField nat nat nat | EResult nat | EIndex | ESlice
  | ERange | EAdd | ESub | EMul | EMod | EDiv | EBitOr | EBitAnd | EXor | EShl | EShr | EImplies | EIff
  | EAnd | EOr | EEq | EIdentical | ENeq | ELt | EGt | ELe | EGe
  | ENot | ECast
  | ELen | ETypeValue | ETypeDomain | EResourceDomain | EGlobal "nat option" | EExists "nat option"
  | ECanModify | EOld | ETrace TraceKind | EEmptyVec | ESingleVec | EUpdateVec | EConcatVec | EIndexOfVec
  | EContainsVec | EInRangeRange | EInRangeVec | ERangeVec | EMaxU8 | EMaxU16 | EMaxU32 | EMaxU64
  | EMaxU128 | EMaxU256 | EBv2Int | EInt2Bv
  | EAbortFlag | EAbortCode | EWellFormed | EBoxValue | EUnboxValue | EEmptyEventStore
  | EExtendEventStore | EEventStoreIncludes | EEventStoreIncludedIn
  | ENoOp

datatype ExpData =
    EInvalid nat
  | EValue nat Value
  | ELocalVar nat nat
  | ETemporary nat nat
  | ECall nat ExpOp "ExpData list"
  | EInvoke nat ExpData "ExpData list"
  | ELambda nat "LocalVarDecl list" ExpData
  | EQuant nat QuantKind "(LocalVarDecl \<times> ExpData) list" "ExpData list list" "ExpData option" ExpData
  | EBlock nat "LocalVarDecl list" ExpData
  | EIfElse nat ExpData ExpData ExpData
and LocalVarDecl = LocalVarDecl (decl_id: nat) (decl_name: nat) (decl_binding: "ExpData option")

fun node_id :: "ExpData \<Rightarrow> nat" where
  "node_id (EInvalid i) = i"
| "node_id (EValue i _) = i"
| "node_id (ELocalVar i _) = i"
| "node_id (ETemporary i _) = i"
| "node_id (ECall i _ _) = i"
| "node_id (EInvoke i _ _) = i"
| "node_id (ELambda i _ _) = i"
| "node_id (EQuant i _ _ _ _ _) = i"
| "node_id (EBlock i _ _) = i"
| "node_id (EIfElse i _ _ _) = i"

lemma size_concat [termination_simp]:
  "\<exists>xs\<in>set xss. x \<in> set xs \<Longrightarrow> f x < Suc (m + (size_list (size_list f) xss + n))"
proof -
  assume "\<exists>xs\<in>set xss. x \<in> set xs"
  then obtain xs where "x \<in> set xs" "xs \<in> set xss" by blast
  then have "f x \<le> size_list f xs" "size_list f xs \<le> size_list (size_list f) xss"
    by (auto intro: size_list_estimation')
  then show ?thesis by linarith
qed

section \<open>Visiting\<close>

fun visit_pre_post :: "(bool \<Rightarrow> ExpData \<Rightarrow> 's \<Rightarrow> 's) \<Rightarrow> ExpData \<Rightarrow> 's \<Rightarrow> 's" where
  "visit_pre_post f (ECall i oper args) s =
     f True (ECall i oper args) (fold (visit_pre_post f) args (f False (ECall i oper args) s))"
| "visit_pre_post f (EInvoke i target args) s =
     f True (EInvoke i target args)
       (fold (visit_pre_post f) args (visit_pre_post f target (f False (EInvoke i target args) s)))"
| "visit_pre_post f (ELambda i decls body) s =
     f True (ELambda i decls body) (visit_pre_post f body (f False (ELambda i decls body) s))"
| "visit_pre_post f (EQuant i kind ranges triggers cond body) s =
     (let e = EQuant i kind ranges triggers cond body;
          s = f False e s;
          s = fold (\<lambda>(d, rng) s. visit_pre_post f rng
                (case d of LocalVarDecl _ _ None \<Rightarrow> s | LocalVarDecl _ _ (Some b) \<Rightarrow> visit_pre_post f b s)) ranges s;
          s = fold (visit_pre_post f) (concat triggers) s;
          s = (case cond of None \<Rightarrow> s | Some c \<Rightarrow> visit_pre_post f c s)
      in f True e (visit_pre_post f body s))"
| "visit_pre_post f (EBlock i decls body) s =
     f True (EBlock i decls body) (visit_pre_post f body
       (fold (\<lambda>d s. case d of LocalVarDecl _ _ None \<Rightarrow> s | LocalVarDecl _ _ (Some b) \<Rightarrow> visit_pre_post f b s) decls
         (f False (EBlock i decls body) s)))"
| "visit_pre_post f (EIfElse i c t e) s =
     f True (EIfElse i c t e)
       (visit_pre_post f e (visit_pre_post f t (visit_pre_post f c (f False (EIfElse i c t e) s))))"
| "visit_pre_post f e s = f True e (f False e s)"

definition exp_visit :: "(ExpData \<Rightarrow> 's \<Rightarrow> 's) \<Rightarrow> ExpData \<Rightarrow> 's \<Rightarrow> 's" where
  "exp_visit f = visit_pre_post (\<lambda>up e s. if up then f e s else s)"

definition exp_any :: "(ExpData \<Rightarrow> bool) \<Rightarrow> ExpData \<Rightarrow> bool" where
  "exp_any p e = exp_visit (\<lambda>e found. if found then found else p e) e False"

definition node_ids :: "ExpData \<Rightarrow> nat list" where
  "node_ids e = exp_visit (\<lambda>e ids. ids @ [node_id e]) e []"

fun bound_names :: "ExpData \<Rightarrow> nat list" where
  "bound_names (ELambda _ decls _) = map decl_name decls"
| "bound_names (EBlock _ decls _) = map decl_name decls"
| "bound_names (EQuant _ _ ranges _ _ _) = map (decl_name \<circ> fst) ranges"
| "bound_names _ = []"

text \<open>The visitor of \<open>free_vars\<close>: its state is the variables found and the shadowed names.
  \<open>remove1\<close> removes one instance of a name, as the code does.\<close>

definition free_vars_visitor ::
  "(nat \<Rightarrow> 't) \<Rightarrow> bool \<Rightarrow> ExpData \<Rightarrow> (nat \<times> 't) list \<times> nat list \<Rightarrow> (nat \<times> 't) list \<times> nat list" where
  "free_vars_visitor node_type up e = (\<lambda>(vars, shadowed).
     if \<not> up then (vars, shadowed @ bound_names e)
     else
       (let shadowed = fold remove1 (bound_names e) shadowed
        in case e of
             ELocalVar i x \<Rightarrow>
               if x \<notin> set shadowed \<and> \<not> list_ex (\<lambda>(s, _). s = x) vars
               then (vars @ [(x, node_type i)], shadowed)
               else (vars, shadowed)
           | _ \<Rightarrow> (vars, shadowed)))"

definition exp_free_vars :: "(nat \<Rightarrow> 't) \<Rightarrow> ExpData \<Rightarrow> (nat \<times> 't) list" where
  "exp_free_vars node_type e = fst (visit_pre_post (free_vars_visitor node_type) e ([], []))"

definition free_local_vars_with_node_id :: "ExpData \<Rightarrow> nat \<rightharpoonup> nat" where
  "free_local_vars_with_node_id e = exp_visit (\<lambda>e vars. case e of
       ELocalVar i x \<Rightarrow> if x \<in> dom vars then vars else vars(x \<mapsto> i)
     | _ \<Rightarrow> vars) e (\<lambda>_. None)"

definition used_temporaries :: "(nat \<Rightarrow> 't) \<Rightarrow> ExpData \<Rightarrow> (nat \<times> 't) list" where
  "used_temporaries node_type e = exp_visit (\<lambda>e temps. case e of
       ETemporary i idx \<Rightarrow>
         if list_ex (\<lambda>(j, _). j = idx) temps then temps else temps @ [(idx, node_type i)]
     | _ \<Rightarrow> temps) e []"

definition exp_is_pure :: "(nat \<Rightarrow> MType) \<Rightarrow> ExpData \<Rightarrow> bool" where
  "exp_is_pure node_type e = exp_visit (\<lambda>e pure. case e of
       ETemporary i _ \<Rightarrow> if is_mutable_reference (node_type i) then False else pure
     | ECall _ (EExists _) _ \<Rightarrow> False
     | ECall _ (EGlobal _) _ \<Rightarrow> False
     | _ \<Rightarrow> pure) e True"

definition exp_module_usage :: "ExpData \<Rightarrow> nat set \<Rightarrow> nat set" where
  "exp_module_usage = exp_visit (\<lambda>e usage. case e of
       ECall _ (EPack mid _) _ \<Rightarrow> insert mid usage
     | ECall _ (ESelect mid _ _) _ \<Rightarrow> insert mid usage
     | ECall _ (EUpdateField mid _ _) _ \<Rightarrow> insert mid usage
     | _ \<Rightarrow> usage)"

definition struct_usage :: "ExpData \<Rightarrow> (nat \<times> nat) set \<Rightarrow> (nat \<times> nat) set" where
  "struct_usage = exp_visit (\<lambda>e usage. case e of
       ECall _ (ESelect mid sid _) _ \<Rightarrow> insert (mid, sid) usage
     | ECall _ (EUpdateField mid sid _) _ \<Rightarrow> insert (mid, sid) usage
     | ECall _ (EPack mid sid) _ \<Rightarrow> insert (mid, sid) usage
     | _ \<Rightarrow> usage)"

definition field_usage :: "ExpData \<Rightarrow> ((nat \<times> nat) \<times> nat) set \<Rightarrow> ((nat \<times> nat) \<times> nat) set" where
  "field_usage = exp_visit (\<lambda>e usage. case e of
       ECall _ (ESelect mid sid fid) _ \<Rightarrow> insert ((mid, sid), fid) usage
     | ECall _ (EUpdateField mid sid fid) _ \<Rightarrow> insert ((mid, sid), fid) usage
     | _ \<Rightarrow> usage)"

section \<open>Rewriting\<close>

text \<open>The functions of the trait that its implementations provide.  \<open>rewrite_top\<close> is the
  replacement that \<open>ExpData::rewrite\<close> tries before it descends (its \<open>Err\<close> hands the
  expression back).\<close>

record 's rewriter =
  rewrite_top :: "ExpData \<Rightarrow> ('s, ExpData option) comp"
  rewrite_node_id :: "nat \<Rightarrow> ('s, nat option) comp"
  rewrite_local_var :: "nat \<Rightarrow> nat \<Rightarrow> ('s, ExpData option) comp"
  rewrite_temporary :: "nat \<Rightarrow> nat \<Rightarrow> ('s, ExpData option) comp"

definition default_rewriter :: "'s rewriter" where
  "default_rewriter = \<lparr>rewrite_top = \<lambda>_. sret None, rewrite_node_id = \<lambda>_. sret None,
     rewrite_local_var = \<lambda>_ _. sret None, rewrite_temporary = \<lambda>_ _. sret None\<rparr>"

definition internal_rewrite_id :: "'s rewriter \<Rightarrow> nat \<Rightarrow> ('s, nat) comp" where
  "internal_rewrite_id r i = sbind (rewrite_node_id r i) (\<lambda>n. sret (case n of None \<Rightarrow> i | Some j \<Rightarrow> j))"

definition or_descend :: "('s, ExpData option) comp \<Rightarrow> ('s, ExpData) comp \<Rightarrow> ('s, ExpData) comp" where
  "or_descend m descend = sbind m (\<lambda>new. case new of None \<Rightarrow> descend | Some e \<Rightarrow> sret e)"

text \<open>The declarations of a quantifier have no binding (an assertion of the code).\<close>

definition quant_decl :: "'s rewriter \<Rightarrow> LocalVarDecl \<Rightarrow> ('s, LocalVarDecl) comp" where
  "quant_decl r d = (if decl_binding d = None
     then sbind (internal_rewrite_id r (decl_id d)) (\<lambda>i. sret (LocalVarDecl i (decl_name d) None))
     else (\<lambda>_. Panicked))"

fun rewrite_exp :: "'s rewriter \<Rightarrow> ExpData \<Rightarrow> ('s, ExpData) comp"
  and rewrite_decl :: "'s rewriter \<Rightarrow> LocalVarDecl \<Rightarrow> ('s, LocalVarDecl) comp" where
  "rewrite_exp r (EInvalid i) = or_descend (rewrite_top r (EInvalid i)) (sret (EInvalid i))"
| "rewrite_exp r (EValue i v) = or_descend (rewrite_top r (EValue i v))
     (sbind (internal_rewrite_id r i) (\<lambda>j. sret (EValue j v)))"
| "rewrite_exp r (ELocalVar i x) = or_descend (rewrite_top r (ELocalVar i x))
     (sbind (internal_rewrite_id r i) (\<lambda>j.
        or_descend (rewrite_local_var r j x) (sret (ELocalVar j x))))"
| "rewrite_exp r (ETemporary i idx) = or_descend (rewrite_top r (ETemporary i idx))
     (sbind (internal_rewrite_id r i) (\<lambda>j.
        or_descend (rewrite_temporary r j idx) (sret (ETemporary j idx))))"
| "rewrite_exp r (ECall i oper args) = or_descend (rewrite_top r (ECall i oper args))
     (sbind (internal_rewrite_id r i) (\<lambda>j.
        sbind (smapM (rewrite_exp r) args) (\<lambda>args. sret (ECall j oper args))))"
| "rewrite_exp r (EInvoke i target args) = or_descend (rewrite_top r (EInvoke i target args))
     (sbind (internal_rewrite_id r i) (\<lambda>j.
        sbind (rewrite_exp r target) (\<lambda>target.
        sbind (smapM (rewrite_exp r) args) (\<lambda>args. sret (EInvoke j target args)))))"
| "rewrite_exp r (ELambda i decls body) = or_descend (rewrite_top r (ELambda i decls body))
     (sbind (internal_rewrite_id r i) (\<lambda>j.
        sbind (smapM (rewrite_decl r) decls) (\<lambda>decls.
        sbind (rewrite_exp r body) (\<lambda>body. sret (ELambda j decls body)))))"
| "rewrite_exp r (EBlock i decls body) = or_descend (rewrite_top r (EBlock i decls body))
     (sbind (internal_rewrite_id r i) (\<lambda>j.
        sbind (smapM (rewrite_decl r) decls) (\<lambda>decls.
        sbind (rewrite_exp r body) (\<lambda>body. sret (EBlock j decls body)))))"
| "rewrite_exp r (EQuant i kind ranges triggers cond body) =
     or_descend (rewrite_top r (EQuant i kind ranges triggers cond body))
     (sbind (internal_rewrite_id r i) (\<lambda>j.
        sbind (smapM (\<lambda>(d, rng). sbind (quant_decl r d) (\<lambda>d.
                 sbind (rewrite_exp r rng) (\<lambda>rng. sret (d, rng)))) ranges) (\<lambda>ranges.
        sbind (smapM (smapM (rewrite_exp r)) triggers) (\<lambda>triggers.
        sbind (smap_option (rewrite_exp r) cond) (\<lambda>cond.
        sbind (rewrite_exp r body) (\<lambda>body. sret (EQuant j kind ranges triggers cond body)))))))"
| "rewrite_exp r (EIfElse i c t e) = or_descend (rewrite_top r (EIfElse i c t e))
     (sbind (internal_rewrite_id r i) (\<lambda>j.
        sbind (rewrite_exp r c) (\<lambda>c.
        sbind (rewrite_exp r t) (\<lambda>t.
        sbind (rewrite_exp r e) (\<lambda>e. sret (EIfElse j c t e))))))"
| "rewrite_decl r (LocalVarDecl i name binding) =
     sbind (internal_rewrite_id r i) (\<lambda>j.
        sbind (smap_option (rewrite_exp r) binding) (\<lambda>binding. sret (LocalVarDecl j name binding)))"

text \<open>\<open>ExpData::rewrite\<close>, and the \<open>ExpRewriter\<close> of a replacer without type arguments.  Its
  \<open>shadowed\<close> list is empty throughout: nothing pushes to it, as the \<open>rewrite_enter_scope\<close> of
  the trait does nothing and is not redefined.\<close>

definition exp_rewrite :: "(ExpData \<Rightarrow> ('s, ExpData option) comp) \<Rightarrow> ExpData \<Rightarrow> ('s, ExpData) comp" where
  "exp_rewrite f = rewrite_exp (default_rewriter\<lparr>rewrite_top := f\<rparr>)"

definition exp_rewrite_node_id :: "(nat \<Rightarrow> ('s, nat option) comp) \<Rightarrow> ExpData \<Rightarrow> ('s, ExpData) comp" where
  "exp_rewrite_node_id f = rewrite_exp (default_rewriter\<lparr>rewrite_node_id := f\<rparr>)"

datatype RewriteTarget = TargetLocalVar nat | TargetTemporary nat

definition replacer_rewriter :: "(nat \<Rightarrow> RewriteTarget \<Rightarrow> ('s, ExpData option) comp) \<Rightarrow> 's rewriter" where
  "replacer_rewriter replacer = default_rewriter\<lparr>
     rewrite_local_var := \<lambda>i x. replacer i (TargetLocalVar x),
     rewrite_temporary := \<lambda>i idx. replacer i (TargetTemporary idx)\<rparr>"

text \<open>\<open>Bytecode::remap_exp\<close>.\<close>

definition remap_exp :: "(nat \<Rightarrow> ('s, nat) comp) \<Rightarrow> ExpData \<Rightarrow> ('s, ExpData) comp" where
  "remap_exp f = rewrite_exp (replacer_rewriter (\<lambda>i target. case target of
       TargetTemporary idx \<Rightarrow> sbind (f idx) (\<lambda>idx. sret (Some (ETemporary i idx)))
     | TargetLocalVar _ \<Rightarrow> sret None))"

section \<open>What an expression denotes\<close>

text \<open>A reference semantics, over any interpretation of the values and the operations: the
  specification against which a renaming of temporaries is stated.  \<open>te\<close> gives the
  temporaries, \<open>le\<close> the local variables; the meaning of a binder is a function of the local
  variables.\<close>

record 'v interp =
  i_invalid :: 'v
  i_value :: "Value \<Rightarrow> 'v"
  i_call :: "nat \<Rightarrow> ExpOp \<Rightarrow> 'v list \<Rightarrow> 'v"
  i_invoke :: "'v \<Rightarrow> 'v list \<Rightarrow> 'v"
  i_lambda :: "nat list \<Rightarrow> 'v option list \<Rightarrow> (nat \<Rightarrow> 'v) \<Rightarrow> ((nat \<Rightarrow> 'v) \<Rightarrow> 'v) \<Rightarrow> 'v"
  i_quant :: "QuantKind \<Rightarrow> nat list \<Rightarrow> 'v list \<Rightarrow> (nat \<Rightarrow> 'v) \<Rightarrow> ((nat \<Rightarrow> 'v) \<Rightarrow> 'v option) \<Rightarrow> ((nat \<Rightarrow> 'v) \<Rightarrow> 'v) \<Rightarrow> 'v"
  i_if :: "'v \<Rightarrow> 'v \<Rightarrow> 'v \<Rightarrow> 'v"

fun exp_val :: "('v, 'z) interp_scheme \<Rightarrow> (nat \<Rightarrow> 'v) \<Rightarrow> (nat \<Rightarrow> 'v) \<Rightarrow> ExpData \<Rightarrow> 'v"
  and decl_val :: "('v, 'z) interp_scheme \<Rightarrow> (nat \<Rightarrow> 'v) \<Rightarrow> (nat \<Rightarrow> 'v) \<Rightarrow> LocalVarDecl \<Rightarrow> 'v option" where
  "exp_val I te le (EInvalid i) = i_invalid I"
| "exp_val I te le (EValue i v) = i_value I v"
| "exp_val I te le (ELocalVar i x) = le x"
| "exp_val I te le (ETemporary i idx) = te idx"
| "exp_val I te le (ECall i oper args) = i_call I i oper (map (exp_val I te le) args)"
| "exp_val I te le (EInvoke i target args) = i_invoke I (exp_val I te le target) (map (exp_val I te le) args)"
| "exp_val I te le (ELambda i decls body) =
     i_lambda I (map decl_name decls) (map (decl_val I te le) decls) le (\<lambda>le'. exp_val I te le' body)"
| "exp_val I te le (EQuant i kind ranges triggers cond body) =
     i_quant I kind (map (decl_name \<circ> fst) ranges) (map (\<lambda>(d, rng). exp_val I te le rng) ranges) le
       (\<lambda>le'. map_option (exp_val I te le') cond) (\<lambda>le'. exp_val I te le' body)"
| "exp_val I te le (EBlock i decls body) =
     exp_val I te (override_on le (\<lambda>x. case map_of (map (\<lambda>d. (decl_name d, decl_val I te le d)) decls) x of
         Some (Some v) \<Rightarrow> v | _ \<Rightarrow> i_invalid I) (decl_name ` set decls)) body"
| "exp_val I te le (EIfElse i c t e) = i_if I (exp_val I te le c) (exp_val I te le t) (exp_val I te le e)"
| "decl_val I te le (LocalVarDecl i name binding) = map_option (exp_val I te le) binding"

text \<open>The temporaries of an expression, and expressions whose quantified names have no
  binding.\<close>

fun exp_temps :: "ExpData \<Rightarrow> nat set" and decl_temps :: "LocalVarDecl \<Rightarrow> nat set" where
  "exp_temps (ETemporary i idx) = {idx}"
| "exp_temps (ECall i oper args) = (\<Union>e\<in>set args. exp_temps e)"
| "exp_temps (EInvoke i target args) = exp_temps target \<union> (\<Union>e\<in>set args. exp_temps e)"
| "exp_temps (ELambda i decls body) = (\<Union>d\<in>set decls. decl_temps d) \<union> exp_temps body"
| "exp_temps (EQuant i kind ranges triggers cond body) =
     (\<Union>(d, e)\<in>set ranges. decl_temps d \<union> exp_temps e) \<union> (\<Union>e\<in>set (concat triggers). exp_temps e)
       \<union> (\<Union>e\<in>set_option cond. exp_temps e) \<union> exp_temps body"
| "exp_temps (EBlock i decls body) = (\<Union>d\<in>set decls. decl_temps d) \<union> exp_temps body"
| "exp_temps (EIfElse i c t e) = exp_temps c \<union> exp_temps t \<union> exp_temps e"
| "exp_temps e = {}"
| "decl_temps (LocalVarDecl i name binding) = (\<Union>e\<in>set_option binding. exp_temps e)"

fun plain_quants :: "ExpData \<Rightarrow> bool" and plain_decl :: "LocalVarDecl \<Rightarrow> bool" where
  "plain_quants (ECall i oper args) = (\<forall>e\<in>set args. plain_quants e)"
| "plain_quants (EInvoke i target args) = (plain_quants target \<and> (\<forall>e\<in>set args. plain_quants e))"
| "plain_quants (ELambda i decls body) = ((\<forall>d\<in>set decls. plain_decl d) \<and> plain_quants body)"
| "plain_quants (EQuant i kind ranges triggers cond body) =
     ((\<forall>(d, e)\<in>set ranges. decl_binding d = None \<and> plain_quants e) \<and> (\<forall>e\<in>set (concat triggers). plain_quants e)
       \<and> (\<forall>e\<in>set_option cond. plain_quants e) \<and> plain_quants body)"
| "plain_quants (EBlock i decls body) = ((\<forall>d\<in>set decls. plain_decl d) \<and> plain_quants body)"
| "plain_quants (EIfElse i c t e) = (plain_quants c \<and> plain_quants t \<and> plain_quants e)"
| "plain_quants e = True"
| "plain_decl (LocalVarDecl i name binding) = (\<forall>e\<in>set_option binding. plain_quants e)"

text \<open>The renaming of temporaries as a function.\<close>

fun rename_exp :: "(nat \<Rightarrow> nat) \<Rightarrow> ExpData \<Rightarrow> ExpData" and rename_decl :: "(nat \<Rightarrow> nat) \<Rightarrow> LocalVarDecl \<Rightarrow> LocalVarDecl" where
  "rename_exp f (ETemporary i idx) = ETemporary i (f idx)"
| "rename_exp f (ECall i oper args) = ECall i oper (map (rename_exp f) args)"
| "rename_exp f (EInvoke i target args) = EInvoke i (rename_exp f target) (map (rename_exp f) args)"
| "rename_exp f (ELambda i decls body) = ELambda i (map (rename_decl f) decls) (rename_exp f body)"
| "rename_exp f (EQuant i kind ranges triggers cond body) =
     EQuant i kind (map (\<lambda>(d, e). (d, rename_exp f e)) ranges) (map (map (rename_exp f)) triggers)
       (map_option (rename_exp f) cond) (rename_exp f body)"
| "rename_exp f (EBlock i decls body) = EBlock i (map (rename_decl f) decls) (rename_exp f body)"
| "rename_exp f (EIfElse i c t e) = EIfElse i (rename_exp f c) (rename_exp f t) (rename_exp f e)"
| "rename_exp f e = e"
| "rename_decl f (LocalVarDecl i name binding) = LocalVarDecl i name (map_option (rename_exp f) binding)"

lemma or_descend_sret [simp]:
  "or_descend (sret None) d = d" "or_descend (sret (Some e)) d = sret e"
  by (simp_all add: or_descend_def)

lemma replacer_rewriter_simps [simp]:
  "rewrite_top (replacer_rewriter f) e = sret None" "rewrite_node_id (replacer_rewriter f) i = sret None"
  "rewrite_local_var (replacer_rewriter f) i x = f i (TargetLocalVar x)"
  "rewrite_temporary (replacer_rewriter f) i idx = f i (TargetTemporary idx)"
  by (simp_all add: replacer_rewriter_def default_rewriter_def)

lemma internal_rewrite_id_plain [simp]: "internal_rewrite_id (replacer_rewriter f) i = sret i"
  by (simp add: internal_rewrite_id_def)

lemma quant_decl_plain: "decl_binding d = None \<Longrightarrow> quant_decl (replacer_rewriter f) d = sret d"
  by (cases d) (simp add: quant_decl_def)


definition renamer :: "(nat \<Rightarrow> nat) \<Rightarrow> 's rewriter" where
  "renamer f = replacer_rewriter (\<lambda>i target. case target of
       TargetTemporary idx \<Rightarrow> sbind (sret (f idx)) (\<lambda>idx. sret (Some (ETemporary i idx)))
     | TargetLocalVar _ \<Rightarrow> sret None)"

lemma renamer_simps [simp]:
  "rewrite_top (renamer f) e = sret None" "internal_rewrite_id (renamer f) i = sret i"
  "rewrite_local_var (renamer f) i x = sret None"
  "rewrite_temporary (renamer f) i idx = sret (Some (ETemporary i (f idx)))"
  by (simp_all add: renamer_def)

lemma renamer_quant_decl [simp]: "decl_binding d = None \<Longrightarrow> quant_decl (renamer f) d = sret d"
  by (simp add: renamer_def quant_decl_plain)

lemma rename_ranges:
  fixes r :: "'s rewriter"
  assumes "r = renamer f" "\<forall>(d, e)\<in>set ranges. decl_binding d = None \<and> rewrite_exp r e = sret (rename_exp f e)"
  shows "smapM (\<lambda>(d, rng). sbind (quant_decl r d) (\<lambda>d. sbind (rewrite_exp r rng) (\<lambda>rng. sret (d, rng)))) ranges
    = sret (map (\<lambda>(d, e). (d, rename_exp f e)) ranges)"
  by (rule smapM_sret) (use assms in \<open>auto split: prod.splits\<close>)

lemma remap_rename:
  "plain_quants e \<Longrightarrow> rewrite_exp (renamer f :: 's rewriter) e = sret (rename_exp f e)"
  "plain_decl d \<Longrightarrow> rewrite_decl (renamer f :: 's rewriter) d = sret (rename_decl f d)"
proof (induction f e and f d rule: rename_exp_rename_decl.induct)
  case (5 f i kind ranges triggers cond body)
  have "smapM (smapM (rewrite_exp (renamer f :: 's rewriter))) triggers = sret (map (map (rename_exp f)) triggers)"
    using 5 by (intro smapM_sret) auto
  moreover have ranges: "\<forall>(d, e)\<in>set ranges. decl_binding d = None
      \<and> rewrite_exp (renamer f :: 's rewriter) e = sret (rename_exp f e)"
    using 5 by fastforce
  moreover have "smap_option (rewrite_exp (renamer f :: 's rewriter)) cond = sret (map_option (rename_exp f) cond)"
    using 5 by (intro smap_option_sret) auto
  moreover have "rewrite_exp (renamer f :: 's rewriter) body = sret (rename_exp f body)" using 5 by simp
  ultimately show ?case by (simp add: rename_ranges [OF refl ranges])
next
  case (9 f i name binding)
  then show ?case by (cases binding) auto
qed auto

lemma rename_decl_name [simp]: "decl_name (rename_decl f d) = decl_name d"
  by (cases d) simp

text \<open>A renamed expression denotes what the expression denotes over the renamed temporaries.\<close>

lemma exp_val_rename:
  "exp_val I te le (rename_exp f e) = exp_val I (\<lambda>x. te (f x)) le e"
  "decl_val I te le (rename_decl f d) = decl_val I (\<lambda>x. te (f x)) le d"
proof (induction f e and f d arbitrary: le and le rule: rename_exp_rename_decl.induct)
  case (5 f i kind ranges triggers cond body)
  have "map (\<lambda>(d, e). exp_val I te le e) (map (\<lambda>(d, e). (d, rename_exp f e)) ranges)
        = map (\<lambda>(d, e). exp_val I (\<lambda>x. te (f x)) le e) ranges"
    using 5 by fastforce
  moreover have "map_option (exp_val I te le') (map_option (rename_exp f) cond) = map_option (exp_val I (\<lambda>x. te (f x)) le') cond" for le'
    by (cases cond) (use 5(3) in simp_all)
  moreover have "map (decl_name \<circ> fst) (map (\<lambda>(d, e). (d, rename_exp f e)) ranges) = map (decl_name \<circ> fst) ranges"
    by auto
  ultimately show ?case by (simp only: rename_exp.simps exp_val.simps 5(4))
next
  case (6 f i decls body)
  have "map (\<lambda>d. (decl_name d, decl_val I te le d)) (map (rename_decl f) decls)
        = map (\<lambda>d. (decl_name d, decl_val I (\<lambda>x. te (f x)) le d)) decls"
    using 6(1) by auto
  moreover have "decl_name ` set (map (rename_decl f) decls) = decl_name ` set decls"
    by (auto simp: image_image)
  ultimately show ?case by (simp only: rename_exp.simps exp_val.simps 6(2))
qed (auto simp: option.map_comp comp_def cong: map_cong intro: option.map_cong)

text \<open>Temporaries that the expression does not name do not matter.\<close>

lemma exp_val_temps:
  "(\<And>x. x \<in> exp_temps e \<Longrightarrow> te x = te' x) \<Longrightarrow> exp_val I te le e = exp_val I te' le e"
  "(\<And>x. x \<in> decl_temps d \<Longrightarrow> te x = te' x) \<Longrightarrow> decl_val I te le d = decl_val I te' le d"
proof (induction e and d arbitrary: le and le rule: exp_temps_decl_temps.induct)
  case (5 i kind ranges triggers cond body)
  have "map (\<lambda>(d, e). exp_val I te le e) ranges = map (\<lambda>(d, e). exp_val I te' le e) ranges"
    using 5(2) 5(6) by fastforce
  moreover have "map_option (exp_val I te le') cond = map_option (exp_val I te' le') cond" for le'
    by (cases cond) (use 5(4) 5(6) in auto)
  moreover have "exp_val I te le' body = exp_val I te' le' body" for le' by (rule 5(5)) (use 5(6) in auto)
  ultimately show ?case by (simp only: exp_val.simps)
next
  case (6 i decls body)
  have "decl_val I te le d = decl_val I te' le d" if "d \<in> set decls" for d
    by (rule 6(1)) (use that 6(3) in auto)
  then have "map (\<lambda>d. (decl_name d, decl_val I te le d)) decls = map (\<lambda>d. (decl_name d, decl_val I te' le d)) decls"
    by auto
  moreover have "exp_val I te le' body = exp_val I te' le' body" for le' by (rule 6(2)) (use 6(3) in auto)
  ultimately show ?case by (simp only: exp_val.simps)
next
  case (4 i decls body)
  have "decl_val I te le d = decl_val I te' le d" if "d \<in> set decls" for d
    by (rule 4(1)) (use that 4(3) in auto)
  then have "map (decl_val I te le) decls = map (decl_val I te' le) decls" by auto
  moreover have "exp_val I te le' body = exp_val I te' le' body" for le' by (rule 4(2)) (use 4(3) in auto)
  ultimately show ?case by (simp only: exp_val.simps)
next
  case (2 i oper args)
  have "map (exp_val I te le) args = map (exp_val I te' le) args" using 2 by auto
  then show ?case by (simp only: exp_val.simps)
next
  case (3 i target args)
  have "map (exp_val I te le) args = map (exp_val I te' le) args"
    by (rule map_cong [OF refl], rule 3(2)) (use 3(3) in auto)
  moreover have "exp_val I te le target = exp_val I te' le target" using 3 by auto
  ultimately show ?case by (simp only: exp_val.simps)
next
  case (9 i name binding)
  then show ?case by (cases binding) auto
qed auto

section \<open>Properties\<close>

text \<open>C39: Renaming the temporaries of an expression whose quantified names have no binding
  returns, leaves what the closure captures alone when the renaming does, and the result
  denotes under any interpretation what the expression denotes when every temporary has the
  value of its new name.\<close>

theorem remap_exp_correct:
  assumes "plain_quants e"
  shows "\<exists>e'. (\<forall>s :: 's. remap_exp (\<lambda>x. sret (f x)) e s = Done (e', s))
      \<and> (\<forall>(I :: 'v interp) te le. exp_val I te le e' = exp_val I (\<lambda>x. te (f x)) le e)"
proof (intro exI conjI allI)
  show "remap_exp (\<lambda>x. sret (f x)) e s = Done (rename_exp f e, s)" for s :: 's
    using remap_rename(1) [OF assms, of f, where 's = 's] by (simp add: remap_exp_def renamer_def sret_apply)
  show "exp_val I te le (rename_exp f e) = exp_val I (\<lambda>x. te (f x)) le e" for I :: "'v interp" and te le
    by (rule exp_val_rename)
qed

theorem remap_exp_correct_witness:
  "\<exists>e'. (\<forall>s :: unit. remap_exp (\<lambda>x. sret (x + 1)) (EIfElse 0 (ETemporary 1 3) (ELocalVar 2 0) (ETemporary 3 4)) s = Done (e', s))
     \<and> (\<forall>(I :: nat interp) te le. exp_val I te le e'
         = exp_val I (\<lambda>x. te (x + 1)) le (EIfElse 0 (ETemporary 1 3) (ELocalVar 2 0) (ETemporary 3 4)))"
  using remap_exp_correct [of "EIfElse 0 (ETemporary 1 3) (ELocalVar 2 0) (ETemporary 3 4)" "\<lambda>x. x + 1",
      where 's = unit and 'v = nat] by simp

end
