(* ===== verification/FlowGraph.thy ===== *)
theory FlowGraph
  imports Outcomes "HOL-Library.Sublist"
begin

text \<open>
  Control flow graphs (\<open>move-stackless-bytecode/src/graph.rs\<close>): construction, the
  natural loop of a back edge, the acyclicity test and the numbering of the nodes by
  \<open>postorder_visit\<close>.  A stack is a list with its top first, a \<open>BTreeSet\<close> that is
  iterated over a sorted list.  An index into a map panics without the key.

  \<open>postorder_visit\<close> marks a node as visited when it is pushed, not when it is entered,
  so its numbers are not those of a depth-first search.  What the dominators need holds
  nevertheless: every node but the entry has a predecessor with a larger number.
\<close>

section \<open>Graphs\<close>

record 'a graph =
  g_entry :: 'a
  g_nodes :: "'a list"
  g_edges :: "('a \<times> 'a) list"
  predecessors :: "'a \<rightharpoonup> 'a list"
  successors :: "'a \<rightharpoonup> 'a list"

definition add_link :: "'a :: linorder \<Rightarrow> 'a \<Rightarrow> ('a \<rightharpoonup> 'a list) \<Rightarrow> ('a \<rightharpoonup> 'a list)" where
  "add_link x y m = (case m x of None \<Rightarrow> m | Some l \<Rightarrow> m(x \<mapsto> insort_insert y l))"

definition graph_new :: "'a :: linorder \<Rightarrow> 'a list \<Rightarrow> ('a \<times> 'a) list \<Rightarrow> 'a graph" where
  "graph_new entry nodes edges =
     (let empty = (\<lambda>x. if x \<in> set nodes then Some [] else None)
      in \<lparr>g_entry = entry, g_nodes = nodes, g_edges = edges,
          predecessors = fold (\<lambda>(u, v). add_link v u) edges empty,
          successors = fold (\<lambda>(u, v). add_link u v) edges empty\<rparr>)"

text \<open>Pushing the nodes of a list that were not seen before.\<close>

definition push_new :: "'a list \<Rightarrow> 'a list \<times> 'a set \<Rightarrow> 'a list \<times> 'a set" where
  "push_new = fold (\<lambda>x (stack, seen). if x \<in> seen then (stack, seen) else (x # stack, insert x seen))"

section \<open>Natural loops\<close>

record 'a NaturalLoop =
  loop_header :: 'a
  loop_latch :: 'a
  loop_body :: "'a set"

definition natural_step :: "'a graph \<Rightarrow> 'a list \<times> 'a set \<Rightarrow> ('a list \<times> 'a set) outcome" where
  "natural_step g = (\<lambda>(stack, body).
     case stack of
       [] \<Rightarrow> Done (stack, body)
     | m # rest \<Rightarrow> obind (at (predecessors g) m) (\<lambda>ps. Done (push_new ps (rest, body))))"

definition natural_loop :: "'a graph \<Rightarrow> 'a \<times> 'a \<Rightarrow> 'a NaturalLoop outcome" where
  "natural_loop g = (\<lambda>(latch, header).
     omap (\<lambda>(_, body). \<lparr>loop_header = header, loop_latch = latch, loop_body = body\<rparr>)
       (loop (\<lambda>(stack, _). stack \<noteq> []) (natural_step g)
         (if latch \<noteq> header then ([latch], {header, latch}) else ([], {header}))))"

section \<open>Acyclicity\<close>

text \<open>The scan of the successors: \<open>None\<close> when one of them is in progress.\<close>

fun scan_successors :: "'a list \<Rightarrow> 'a list \<times> ('a \<rightharpoonup> bool) \<Rightarrow> ('a list \<times> ('a \<rightharpoonup> bool)) option" where
  "scan_successors [] st = Some st"
| "scan_successors (s # ss) (stack, visited) =
     (case visited s of
        Some True \<Rightarrow> None
      | Some False \<Rightarrow> scan_successors ss (stack, visited)
      | None \<Rightarrow> scan_successors ss (s # stack, visited(s \<mapsto> False)))"

definition acyclic_step ::
  "'a graph \<Rightarrow> ('a list \<times> ('a \<rightharpoonup> bool)) option \<Rightarrow> ('a list \<times> ('a \<rightharpoonup> bool)) option outcome" where
  "acyclic_step g st = (case st of
       Some (n # stack, visited) \<Rightarrow>
         obind (at visited n) (\<lambda>active.
           if active then Done (Some (stack, visited(n \<mapsto> False)))
           else obind (at (successors g) n) (\<lambda>ss.
             Done (scan_successors ss (n # stack, visited(n \<mapsto> True)))))
     | _ \<Rightarrow> Done st)"

definition is_acyclic :: "'a graph \<Rightarrow> bool outcome" where
  "is_acyclic g =
     omap (\<lambda>st. st \<noteq> None)
       (loop (\<lambda>st. case st of None \<Rightarrow> False | Some (stack, _) \<Rightarrow> stack \<noteq> []) (acyclic_step g)
         (Some ([g_entry g], [g_entry g \<mapsto> False])))"

section \<open>Numbering\<close>

record 'a DomRelation =
  node_to_postorder_num :: "'a \<rightharpoonup> nat"
  postorder_num_to_node :: "'a list"
  idom_tree :: "nat \<rightharpoonup> nat"

type_synonym 'a visit_state = "'a list \<times> 'a set \<times> 'a set \<times> 'a DomRelation"

definition postorder_step :: "'a graph \<Rightarrow> 'a visit_state \<Rightarrow> 'a visit_state outcome" where
  "postorder_step g = (\<lambda>(stack, visited, grey, d).
     case stack of
       [] \<Rightarrow> Done (stack, visited, grey, d)
     | cur # rest \<Rightarrow>
         if cur \<in> grey then
           Done (rest, visited, grey,
             d\<lparr>postorder_num_to_node := postorder_num_to_node d @ [cur],
               node_to_postorder_num := (node_to_postorder_num d)(cur \<mapsto> length (postorder_num_to_node d))\<rparr>)
         else obind (at (successors g) cur) (\<lambda>children.
           let (stack', visited') = push_new children (stack, visited)
           in Done (stack', visited', insert cur grey, d)))"

definition postorder_visit :: "'a graph \<Rightarrow> 'a DomRelation \<Rightarrow> 'a DomRelation outcome" where
  "postorder_visit g d =
     omap (\<lambda>(_, _, _, d). d)
       (loop (\<lambda>(stack, _). stack \<noteq> []) (postorder_step g) ([g_entry g], {g_entry g}, {}, d))"

definition dr_is_reachable :: "'a DomRelation \<Rightarrow> 'a \<Rightarrow> bool" where
  "dr_is_reachable d x = (node_to_postorder_num d x \<noteq> None)"

section \<open>Well-formed graphs\<close>

definition well_formed :: "'a graph \<Rightarrow> bool" where
  "well_formed g \<longleftrightarrow> g_entry g \<in> set (g_nodes g)
     \<and> set (g_edges g) \<subseteq> set (g_nodes g) \<times> set (g_nodes g)
     \<and> (\<forall>u\<in>set (g_nodes g). \<exists>l. successors g u = Some l \<and> set l = {v. (u, v) \<in> set (g_edges g)})
     \<and> (\<forall>v\<in>set (g_nodes g). \<exists>l. predecessors g v = Some l \<and> set l = {u. (u, v) \<in> set (g_edges g)})"

lemma set_insort_insert [simp]: "set (insort_insert x xs) = insert x (set xs)"
  by (simp add: set_insort_insert)

lemma add_link_apply:
  "add_link x y m z = (if z = x then map_option (insort_insert y) (m x) else m z)"
  by (auto simp: add_link_def split: option.split)

lemma fold_add_link:
  "m x = Some l \<Longrightarrow>
   \<exists>l'. fold (\<lambda>e. add_link (f e) (h e)) es m x = Some l' \<and> set l' = set l \<union> h ` {e \<in> set es. f e = x}"
proof (induction es arbitrary: m l)
  case (Cons e es)
  define l1 where "l1 = (if x = f e then insort_insert (h e) l else l)"
  have "add_link (f e) (h e) m x = Some l1" using Cons.prems by (auto simp: add_link_apply l1_def)
  then show ?case using Cons.IH [of "add_link (f e) (h e) m" l1] by (auto simp: l1_def)
qed simp

lemma graph_new_simps [simp]:
  "g_entry (graph_new entry nodes edges) = entry" "g_nodes (graph_new entry nodes edges) = nodes"
  "g_edges (graph_new entry nodes edges) = edges"
  by (simp_all add: graph_new_def Let_def)

lemma graph_new_well_formed:
  assumes "entry \<in> set nodes" "set edges \<subseteq> set nodes \<times> set nodes"
  shows "well_formed (graph_new entry nodes edges)"
proof -
  let ?empty = "\<lambda>x. if x \<in> set nodes then Some [] else None"
  have im: "snd ` {e \<in> set edges. fst e = u} = {v. (u, v) \<in> set edges}"
    "fst ` {e \<in> set edges. snd e = u} = {v. (v, u) \<in> set edges}" for u by force+
  have s: "successors (graph_new entry nodes edges) = fold (\<lambda>e. add_link (fst e) (snd e)) edges ?empty"
    "predecessors (graph_new entry nodes edges) = fold (\<lambda>e. add_link (snd e) (fst e)) edges ?empty"
    by (simp_all add: graph_new_def case_prod_beta' Let_def)
  have "\<exists>l. successors (graph_new entry nodes edges) u = Some l \<and> set l = {v. (u, v) \<in> set edges}
      \<and> (\<exists>l. predecessors (graph_new entry nodes edges) u = Some l \<and> set l = {v. (v, u) \<in> set edges})"
    if "u \<in> set nodes" for u
    using fold_add_link [of ?empty u "[]" fst snd edges] fold_add_link [of ?empty u "[]" snd fst edges] that
    unfolding s im by auto
  then show ?thesis using assms unfolding well_formed_def graph_new_simps by blast
qed

lemma push_new_correct:
  "\<exists>new. push_new xs (stack, seen) = (rev new @ stack, seen \<union> set xs)
     \<and> set new = set xs - seen \<and> distinct new"
proof (induction xs arbitrary: stack seen)
  case (Cons x xs)
  show ?case
  proof (cases "x \<in> seen")
    case True
    then show ?thesis using Cons.IH [of stack seen] by (auto simp: push_new_def insert_absorb)
  next
    case False
    obtain new where "push_new xs (x # stack, insert x seen) = (rev new @ x # stack, insert x seen \<union> set xs)"
      "set new = set xs - insert x seen" "distinct new" using Cons.IH by blast
    then show ?thesis using False by (intro exI [of _ "x # new"]) (auto simp: push_new_def)
  qed
qed (simp add: push_new_def)

section \<open>Natural loops are natural\<close>

text \<open>The nodes that reach the latch without passing the header.\<close>

definition reaches_latch :: "'a graph \<Rightarrow> 'a \<Rightarrow> 'a \<Rightarrow> 'a \<Rightarrow> bool" where
  "reaches_latch g header latch x \<longleftrightarrow> latch \<noteq> header
     \<and> (x, latch) \<in> {(u, v) \<in> set (g_edges g). u \<noteq> header \<and> v \<noteq> header}\<^sup>*"

definition natural_inv :: "'a graph \<Rightarrow> 'a \<Rightarrow> 'a \<Rightarrow> 'a list \<times> 'a set \<Rightarrow> bool" where
  "natural_inv g header latch = (\<lambda>(stack, body).
     header \<in> body \<and> (latch \<noteq> header \<longrightarrow> latch \<in> body) \<and> body \<subseteq> set (g_nodes g)
     \<and> set stack \<subseteq> body - {header}
     \<and> (\<forall>x\<in>body - {header}. reaches_latch g header latch x)
     \<and> (\<forall>x\<in>body - {header} - set stack. \<forall>u. (u, x) \<in> set (g_edges g) \<longrightarrow> u \<in> body))"

lemma natural_inv_step:
  assumes wf: "well_formed g" and inv: "natural_inv g h l (m # rest, body)"
  shows "\<exists>new. natural_step g (m # rest, body) = Done (rev new @ rest, body \<union> set new)
    \<and> distinct new \<and> set new \<inter> body = {} \<and> natural_inv g h l (rev new @ rest, body \<union> set new)"
proof -
  have i: "h \<in> body" "l \<noteq> h \<longrightarrow> l \<in> body" "body \<subseteq> set (g_nodes g)" "m \<in> body" "m \<noteq> h" "set rest \<subseteq> body - {h}"
    "\<forall>x\<in>body - {h}. reaches_latch g h l x"
    "\<forall>x\<in>body - {h} - set (m # rest). \<forall>u. (u, x) \<in> set (g_edges g) \<longrightarrow> u \<in> body"
    using inv by (simp_all add: natural_inv_def)
  then have m: "m \<in> set (g_nodes g)" by blast
  obtain ps where ps: "predecessors g m = Some ps" "set ps = {u. (u, m) \<in> set (g_edges g)}"
    using wf m unfolding well_formed_def by blast
  obtain new where new: "push_new ps (rest, body) = (rev new @ rest, body \<union> set ps)"
    "set new = set ps - body" "distinct new" using push_new_correct [of ps rest body] by auto
  have eq: "body \<union> set ps = body \<union> set new" using new(2) by blast
  have n: "set new \<subseteq> set (g_nodes g)" using new(2) ps(2) wf unfolding well_formed_def by auto
  have "reaches_latch g h l m" using i(4,5,7) by blast
  then have r: "reaches_latch g h l u" if "u \<in> set new" for u
  proof -
    have "u \<noteq> h" using that new(2) i(1) by blast
    then have "(u, m) \<in> {(u, v) \<in> set (g_edges g). u \<noteq> h \<and> v \<noteq> h}"
      using that i(5) new(2) ps(2) by simp
    then show ?thesis using \<open>reaches_latch g h l m\<close> unfolding reaches_latch_def
      by (meson converse_rtrancl_into_rtrancl)
  qed
  have c: "u \<in> body \<union> set new"
    if "x \<in> body" "x \<noteq> h" "x \<notin> set rest" "(u, x) \<in> set (g_edges g)" for x u
  proof (cases "x = m")
    case True
    then show ?thesis using that(4) new(2) ps(2) by simp
  next
    case False
    then have "x \<in> body - {h} - set (m # rest)" using that by simp
    then show ?thesis using i(8) that(4) by blast
  qed
  have "natural_inv g h l (rev new @ rest, body \<union> set new)"
    unfolding natural_inv_def prod.case
  proof (intro conjI)
    show "\<forall>x\<in>body \<union> set new - {h}. reaches_latch g h l x" using r i(7) by blast
    show "\<forall>x\<in>body \<union> set new - {h} - set (rev new @ rest). \<forall>u. (u, x) \<in> set (g_edges g) \<longrightarrow> u \<in> body \<union> set new"
      by (intro ballI allI impI c) auto
    show "set (rev new @ rest) \<subseteq> body \<union> set new - {h}" using i(1,6) new(2) by auto
  qed (use i(1-3) n in blast)+
  moreover have "natural_step g (m # rest, body) = Done (rev new @ rest, body \<union> set new)"
    by (simp add: natural_step_def ps(1) new(1) eq)
  moreover have "set new \<inter> body = {}" using new(2) by blast
  ultimately show ?thesis using new(3) by blast
qed

lemma natural_loop_total:
  assumes wf: "well_formed g" and e: "(l, h) \<in> set (g_edges g)"
  shows "\<exists>body. natural_loop g (l, h) = Done \<lparr>loop_header = h, loop_latch = l, loop_body = body\<rparr>
    \<and> body = insert h {x. reaches_latch g h l x}"
proof -
  let ?n = "card (set (g_nodes g))"
  let ?m = "\<lambda>(stack, body). 2 * (?n - card body) + length stack :: nat"
  let ?s = "if l \<noteq> h then ([l], {h, l}) else ([], {h})"
  have n: "l \<in> set (g_nodes g)" "h \<in> set (g_nodes g)" using wf e by (auto simp: well_formed_def)
  have "\<exists>t. loop (\<lambda>(stack, _). stack \<noteq> []) (natural_step g) ?s = Done t
      \<and> natural_inv g h l t \<and> \<not> (\<lambda>(stack, _). stack \<noteq> []) t"
  proof (rule loop_measure [where m = ?m])
    show "natural_inv g h l ?s" using n by (auto simp: natural_inv_def reaches_latch_def)
    fix s assume s: "natural_inv g h l s" "(\<lambda>(stack, _). stack \<noteq> []) s"
    then obtain m rest body where [simp]: "s = (m # rest, body)" by (cases s; cases "fst s") auto
    obtain new where new: "natural_step g (m # rest, body) = Done (rev new @ rest, body \<union> set new)"
      "distinct new" "set new \<inter> body = {}" "natural_inv g h l (rev new @ rest, body \<union> set new)"
      using natural_inv_step [OF wf, of h l m rest body] s(1) by auto
    have sub: "body \<union> set new \<subseteq> set (g_nodes g)" using new(4) by (auto simp: natural_inv_def)
    have "card (body \<union> set new) = card body + length new"
      using new(2,3) sub by (subst card_Un_disjoint) (auto simp: distinct_card intro: finite_subset)
    moreover have "card (body \<union> set new) \<le> ?n" using sub by (simp add: card_mono)
    ultimately show "\<exists>s'. natural_step g s = Done s' \<and> natural_inv g h l s' \<and> ?m s' < ?m s"
      using new by simp
  qed
  then obtain body where b: "loop (\<lambda>(stack, _). stack \<noteq> []) (natural_step g) ?s = Done ([], body)"
    "natural_inv g h l ([], body)" by auto
  have "x \<in> body" if "reaches_latch g h l x" for x
  proof -
    have "l \<noteq> h" and "(x, l) \<in> {(u, v) \<in> set (g_edges g). u \<noteq> h \<and> v \<noteq> h}\<^sup>*"
      using that by (auto simp: reaches_latch_def)
    from this(2) show ?thesis
      by (induction rule: converse_rtrancl_induct) (use b(2) \<open>l \<noteq> h\<close> in \<open>auto simp: natural_inv_def\<close>)
  qed
  moreover have "h \<in> body" "\<forall>x\<in>body - {h}. reaches_latch g h l x" using b(2) by (simp_all add: natural_inv_def)
  ultimately have "body = insert h {x. reaches_latch g h l x}" by blast
  then show ?thesis using b(1) by (simp add: natural_loop_def)
qed

section \<open>The numbering\<close>

definition reachable :: "'a graph \<Rightarrow> 'a set" where
  "reachable g = {x. (g_entry g, x) \<in> (set (g_edges g))\<^sup>*}"

definition parented :: "'a graph \<Rightarrow> 'a list \<Rightarrow> bool" where
  "parented g L \<longleftrightarrow> (\<forall>v\<in>set L. v \<noteq> g_entry g \<longrightarrow> (\<exists>u. subseq [v, u] L \<and> (u, v) \<in> set (g_edges g)))"

definition numbered :: "'a DomRelation \<Rightarrow> bool" where
  "numbered d \<longleftrightarrow> (\<forall>x i. node_to_postorder_num d x = Some i \<longleftrightarrow>
     i < length (postorder_num_to_node d) \<and> postorder_num_to_node d ! i = x)"

lemma numbered_add:
  assumes "numbered d" "x \<notin> set (postorder_num_to_node d)"
  shows "numbered (d\<lparr>postorder_num_to_node := postorder_num_to_node d @ [x],
     node_to_postorder_num := (node_to_postorder_num d)(x \<mapsto> length (postorder_num_to_node d))\<rparr>)"
  using assms by (auto simp: numbered_def nth_append less_Suc_eq)

lemma parented_insert:
  assumes "parented g (A @ cur # st)" "\<forall>v\<in>set new. (cur, v) \<in> set (g_edges g)"
  shows "parented g (A @ new @ cur # st)"
proof -
  have s: "subseq (A @ cur # st) (A @ new @ cur # st)" by (simp add: list_emb_append_mono subseq_drop_many)
  have "\<exists>u. subseq [v, u] (A @ new @ cur # st) \<and> (u, v) \<in> set (g_edges g)"
    if v: "v \<in> set (A @ new @ cur # st)" "v \<noteq> g_entry g" for v
  proof (cases "v \<in> set new")
    case True
    then have "subseq [v] (A @ new)" by (simp add: subseq_singleton_left)
    moreover have "subseq [cur] (cur # st)" by simp
    ultimately have "subseq ([v] @ [cur]) ((A @ new) @ cur # st)" by (rule list_emb_append_mono)
    then show ?thesis using True assms(2) by auto
  next
    case False
    then obtain u where "subseq [v, u] (A @ cur # st)" "(u, v) \<in> set (g_edges g)"
      using v assms(1) by (auto simp: parented_def)
    then show ?thesis using s subseq_order.trans by blast
  qed
  then show ?thesis unfolding parented_def by blast
qed

definition visit_inv :: "'a graph \<Rightarrow> 'a visit_state \<Rightarrow> bool" where
  "visit_inv g = (\<lambda>(stack, visited, grey, d). let ord = postorder_num_to_node d; L = ord @ stack in
     distinct L \<and> set L = visited \<and> L \<noteq> [] \<and> last L = g_entry g \<and> visited \<subseteq> reachable g
     \<and> grey \<subseteq> visited \<and> set ord \<subseteq> grey
     \<and> (\<forall>u\<in>grey. \<forall>v. (u, v) \<in> set (g_edges g) \<longrightarrow> v \<in> visited)
     \<and> parented g L \<and> numbered d)"

lemma reachable_nodes: "well_formed g \<Longrightarrow> reachable g \<subseteq> set (g_nodes g)"
proof
  fix x assume wf: "well_formed g" and "x \<in> reachable g"
  then have "(g_entry g, x) \<in> (set (g_edges g))\<^sup>*" by (simp add: reachable_def)
  then show "x \<in> set (g_nodes g)" by induction (use wf in \<open>auto simp: well_formed_def\<close>)
qed

lemma visit_inv_finish:
  assumes "visit_inv g (cur # rest, visited, grey, d)" "cur \<in> grey"
  shows "\<exists>d'. postorder_step g (cur # rest, visited, grey, d) = Done (rest, visited, grey, d')
    \<and> visit_inv g (rest, visited, grey, d') \<and> postorder_num_to_node d' = postorder_num_to_node d @ [cur]"
proof -
  have "cur \<notin> set (postorder_num_to_node d)" using assms(1) by (simp add: visit_inv_def Let_def)
  then show ?thesis using assms numbered_add [of d cur]
    by (simp add: postorder_step_def visit_inv_def Let_def)
qed

lemma visit_inv_enter:
  assumes wf: "well_formed g" and inv: "visit_inv g (cur # rest, visited, grey, d)" and c: "cur \<notin> grey"
  shows "\<exists>stack' visited'. postorder_step g (cur # rest, visited, grey, d) = Done (stack', visited', insert cur grey, d)
    \<and> visit_inv g (stack', visited', insert cur grey, d)"
proof -
  let ?ord = "postorder_num_to_node d"
  have i: "distinct (?ord @ cur # rest)" "set (?ord @ cur # rest) = visited" "last (?ord @ cur # rest) = g_entry g"
    "visited \<subseteq> reachable g" "grey \<subseteq> visited" "set ?ord \<subseteq> grey"
    "\<forall>u\<in>grey. \<forall>v. (u, v) \<in> set (g_edges g) \<longrightarrow> v \<in> visited" "parented g (?ord @ cur # rest)" "numbered d"
    using inv unfolding visit_inv_def Let_def prod.case by blast+
  have cur: "cur \<in> reachable g" "cur \<in> visited" using i(2,4) by auto
  obtain cs where cs: "successors g cur = Some cs" "set cs = {v. (cur, v) \<in> set (g_edges g)}"
    using wf cur reachable_nodes unfolding well_formed_def by blast
  obtain new where new: "push_new cs (cur # rest, visited) = (rev new @ cur # rest, visited \<union> set cs)"
    "set new = set cs - visited" "distinct new" using push_new_correct [of cs "cur # rest" visited] by auto
  have r: "set cs \<subseteq> reachable g"
    using cur(1) cs(2) unfolding reachable_def by (auto intro: rtrancl_into_rtrancl)
  have "visit_inv g (rev new @ cur # rest, visited \<union> set cs, insert cur grey, d)"
    unfolding visit_inv_def Let_def prod.case
  proof (intro conjI)
    show "distinct (?ord @ rev new @ cur # rest)"
      using i(1) i(2) [symmetric] new(2,3) by auto
    show "set (?ord @ rev new @ cur # rest) = visited \<union> set cs" using i(2) [symmetric] new(2) by auto
    show "last (?ord @ rev new @ cur # rest) = g_entry g" using i(3) by simp
    show "parented g (?ord @ rev new @ cur # rest)"
      by (rule parented_insert [OF i(8)]) (use new(2) cs(2) in auto)
    show "\<forall>u\<in>insert cur grey. \<forall>v. (u, v) \<in> set (g_edges g) \<longrightarrow> v \<in> visited \<union> set cs"
      using i(7) cs(2) by blast
  qed (use i(4-6,9) r cur(2) in blast)+
  then show ?thesis using c cs(1) new(1) by (simp add: postorder_step_def)
qed

lemma postorder_visit_total:
  assumes wf: "well_formed g" and d: "numbered d" "postorder_num_to_node d = []"
  shows "\<exists>d' order. postorder_visit g d = Done d' \<and> postorder_num_to_node d' = order \<and> numbered d'
    \<and> distinct order \<and> set order = reachable g \<and> order \<noteq> [] \<and> last order = g_entry g \<and> parented g order
    \<and> idom_tree d' = idom_tree d"
proof -
  let ?n = "card (set (g_nodes g))"
  let ?P = "\<lambda>(stack, visited, grey, d'). visit_inv g (stack, visited, grey, d') \<and> idom_tree d' = idom_tree d"
  let ?m = "\<lambda>(stack :: 'a list, visited :: 'a set, grey :: 'a set, d' :: 'a DomRelation).
    (?n - card grey) + (?n - length (postorder_num_to_node d'))"
  have "\<exists>t. loop (\<lambda>(stack, _). stack \<noteq> []) (postorder_step g) ([g_entry g], {g_entry g}, {}, d) = Done t
      \<and> ?P t \<and> \<not> (\<lambda>(stack, _). stack \<noteq> []) t"
  proof (rule loop_measure [where m = ?m])
    show "?P ([g_entry g], {g_entry g}, {}, d)"
      using d by (simp add: visit_inv_def reachable_def parented_def)
    fix s assume s: "?P s" "(\<lambda>(stack, _). stack \<noteq> []) s"
    then obtain cur rest visited grey d' where [simp]: "s = (cur # rest, visited, grey, d')"
      by (cases s; cases "fst s") auto
    have inv: "visit_inv g (cur # rest, visited, grey, d')" and k: "idom_tree d' = idom_tree d" using s(1) by simp_all
    have sub: "visited \<subseteq> set (g_nodes g)" "grey \<subseteq> visited" "set (postorder_num_to_node d') \<subseteq> grey"
      "cur \<in> visited" "distinct (postorder_num_to_node d' @ cur # rest)"
      using inv reachable_nodes [OF wf] by (auto simp: visit_inv_def Let_def)
    show "\<exists>s'. postorder_step g s = Done s' \<and> ?P s' \<and> ?m s' < ?m s"
    proof (cases "cur \<in> grey")
      case True
      obtain d'' where d'': "postorder_step g s = Done (rest, visited, grey, d'')"
        "visit_inv g (rest, visited, grey, d'')" "postorder_num_to_node d'' = postorder_num_to_node d' @ [cur]"
        using visit_inv_finish [OF inv True] by auto
      have "idom_tree d'' = idom_tree d'" using d''(1) True by (auto simp: postorder_step_def)
      moreover have "length (postorder_num_to_node d'') \<le> ?n"
      proof -
        have "set (postorder_num_to_node d'') \<subseteq> set (g_nodes g)" "distinct (postorder_num_to_node d'')"
          using d''(3) sub by auto
        then show ?thesis by (metis card_mono distinct_card List.finite_set)
      qed
      ultimately show ?thesis using d'' k by simp
    next
      case False
      obtain stack' visited' where v: "postorder_step g s = Done (stack', visited', insert cur grey, d')"
        "visit_inv g (stack', visited', insert cur grey, d')"
        using visit_inv_enter [OF wf inv False] by auto
      have "insert cur grey \<subseteq> set (g_nodes g)" using sub by blast
      then have "card (insert cur grey) \<le> ?n" by (simp add: card_mono)
      moreover have "finite grey" using sub finite_subset by (metis List.finite_set)
      ultimately show ?thesis using v False k by simp
    qed
  qed
  then obtain visited grey d' where t:
    "loop (\<lambda>(stack, _). stack \<noteq> []) (postorder_step g) ([g_entry g], {g_entry g}, {}, d) = Done ([], visited, grey, d')"
    "visit_inv g ([], visited, grey, d')" "idom_tree d' = idom_tree d" by auto
  have i: "set (postorder_num_to_node d') = visited" "grey = visited" "g_entry g \<in> visited" "visited \<subseteq> reachable g"
    using t(2) last_in_set by (fastforce simp: visit_inv_def Let_def)+
  have cl: "v \<in> visited" if "u \<in> visited" "(u, v) \<in> set (g_edges g)" for u v
    using t(2) that i(2) unfolding visit_inv_def Let_def prod.case by blast
  have "x \<in> visited" if "x \<in> reachable g" for x
  proof -
    have "(g_entry g, x) \<in> (set (g_edges g))\<^sup>*" using that by (simp add: reachable_def)
    then show ?thesis by induction (use i(3) cl in auto)
  qed
  then have "set (postorder_num_to_node d') = reachable g" using i by blast
  then show ?thesis using t by (simp add: postorder_visit_def visit_inv_def Let_def)
qed

section \<open>Properties\<close>

text \<open>
  C33: the natural loop of a back edge is its header with the nodes that reach the latch
  without passing the header, and its computation ends.
\<close>

theorem natural_loop_correct:
  assumes "well_formed g" "(latch, header) \<in> set (g_edges g)"
  shows "natural_loop g (latch, header) = Done
    \<lparr>loop_header = header, loop_latch = latch, loop_body = insert header {x. reaches_latch g header latch x}\<rparr>"
  using natural_loop_total [OF assms] by blast

theorem natural_loop_correct_witness:
  "natural_loop (graph_new (1 :: nat) [1, 2, 3] [(1, 2), (2, 3), (3, 2)]) (3, 2) = Done
    \<lparr>loop_header = 2, loop_latch = 3,
     loop_body = insert 2 {x. reaches_latch (graph_new (1 :: nat) [1, 2, 3] [(1, 2), (2, 3), (3, 2)]) 2 3 x}\<rparr>"
  by (rule natural_loop_correct) (auto intro: graph_new_well_formed)

text \<open>
  C34: the numbering ends, on exactly the nodes reachable from the entry, and gives every
  one of them but the entry a predecessor with a larger number.
\<close>

theorem postorder_visit_correct:
  assumes "well_formed g" "numbered d" "postorder_num_to_node d = []"
  shows "\<exists>d'. postorder_visit g d = Done d' \<and> numbered d' \<and> distinct (postorder_num_to_node d')
    \<and> (\<forall>x. dr_is_reachable d' x \<longleftrightarrow> x \<in> reachable g)
    \<and> last (postorder_num_to_node d') = g_entry g \<and> parented g (postorder_num_to_node d')"
proof -
  obtain d' where d': "postorder_visit g d = Done d'" "numbered d'" "distinct (postorder_num_to_node d')"
    "set (postorder_num_to_node d') = reachable g" "last (postorder_num_to_node d') = g_entry g"
    "parented g (postorder_num_to_node d')"
    using postorder_visit_total [OF assms] by auto
  have "dr_is_reachable d' x \<longleftrightarrow> x \<in> set (postorder_num_to_node d')" for x
    using d'(2) by (auto simp: dr_is_reachable_def numbered_def in_set_conv_nth)
  then show ?thesis using d' by auto
qed

theorem postorder_visit_correct_witness:
  "\<exists>d'. postorder_visit (graph_new (1 :: nat) [1, 2, 3] [(1, 2), (1, 3)])
      \<lparr>node_to_postorder_num = Map.empty, postorder_num_to_node = [], idom_tree = Map.empty\<rparr> = Done d'
    \<and> last (postorder_num_to_node d') = 1"
proof -
  have "well_formed (graph_new (1 :: nat) [1, 2, 3] [(1, 2), (1, 3)])" by (rule graph_new_well_formed) auto
  then show ?thesis
    using postorder_visit_correct [of "graph_new (1 :: nat) [1, 2, 3] [(1, 2), (1, 3)]"
        "\<lparr>node_to_postorder_num = Map.empty, postorder_num_to_node = [], idom_tree = Map.empty\<rparr>"]
    by (auto simp: numbered_def)
qed

end
