(* ===== verification/Dominators.thy ===== *)
theory Dominators
  imports FlowGraph
begin

text \<open>
  The dominators of a flow graph by the algorithm of Cooper, Harvey and Kennedy, and
  the natural loops of a reducible graph (\<open>DomRelation\<close> and \<open>compute_reducible\<close> in
  \<open>move-stackless-bytecode/src/graph.rs\<close>).

  \<open>compute_dominators\<close> keeps one tree of immediate dominators over the postorder
  numbers, and walks up that tree while it changes it.  The proof follows the chains of
  the tree.  From below: a chain never loses a dominator.  From above: after \<open>k\<close> passes
  the chain of a node stays on every path to it with fewer than \<open>k\<close> steps from a smaller
  number to a larger one.  A simple path has fewer than \<open>n\<close> such steps, so after \<open>n\<close>
  passes the chains are the dominators and the next pass changes nothing.
\<close>

section \<open>The code\<close>

definition num_nodes :: "'a DomRelation \<Rightarrow> nat" where
  "num_nodes d = card (dom (node_to_postorder_num d))"

definition entry_num :: "'a DomRelation \<Rightarrow> nat" where
  "entry_num d = num_nodes d - 1"

definition dom_intersect :: "(nat \<rightharpoonup> nat) \<Rightarrow> nat \<Rightarrow> nat \<Rightarrow> nat outcome" where
  "dom_intersect T x y =
     omap fst (loop (\<lambda>(finger1, finger2). finger1 \<noteq> finger2)
       (\<lambda>(finger1, finger2).
          obind (loop (\<lambda>f. f < finger2) (at T) finger1) (\<lambda>finger1.
          obind (loop (\<lambda>f. f < finger1) (at T) finger2) (\<lambda>finger2. Done (finger1, finger2))))
       (x, y))"

text \<open>One predecessor in the search for a new immediate dominator; \<open>n\<close> stands for none yet.\<close>

definition consider_pred :: "('a \<rightharpoonup> nat) \<Rightarrow> nat \<Rightarrow> (nat \<rightharpoonup> nat) \<Rightarrow> 'a \<Rightarrow> nat \<Rightarrow> nat outcome" where
  "consider_pred num n T p new_idom =
     (case num p of
        None \<Rightarrow> Done new_idom
      | Some pred_num \<Rightarrow>
          if T pred_num = None then Done new_idom
          else if new_idom = n then Done pred_num
          else dom_intersect T pred_num new_idom)"

definition process_node :: "'a graph \<Rightarrow> 'a DomRelation \<Rightarrow> nat \<Rightarrow> (nat \<rightharpoonup> nat) \<times> bool \<Rightarrow> ((nat \<rightharpoonup> nat) \<times> bool) outcome" where
  "process_node g d node_num = (\<lambda>(T, changed).
     if node_num < length (postorder_num_to_node d) then
       obind (at (predecessors g) (postorder_num_to_node d ! node_num)) (\<lambda>preds.
       obind (ofold (consider_pred (node_to_postorder_num d) (num_nodes d) T) preds (num_nodes d)) (\<lambda>new_idom.
         if new_idom = num_nodes d then Panicked
         else if T node_num = Some new_idom then Done (T, changed)
         else Done (T(node_num \<mapsto> new_idom), True)))
     else Panicked)"

definition dominator_pass :: "'a graph \<Rightarrow> 'a DomRelation \<Rightarrow> (nat \<rightharpoonup> nat) \<Rightarrow> ((nat \<rightharpoonup> nat) \<times> bool) outcome" where
  "dominator_pass g d T = ofold (process_node g d) (rev [0..<num_nodes d - 1]) (T, False)"

definition compute_dominators :: "'a graph \<Rightarrow> 'a DomRelation \<Rightarrow> 'a DomRelation outcome" where
  "compute_dominators g d =
     omap (\<lambda>(T, _). d\<lparr>idom_tree := T\<rparr>)
       (loop (\<lambda>(_, changed). changed) (\<lambda>(T, _). dominator_pass g d T)
         ((idom_tree d)(entry_num d \<mapsto> entry_num d), True))"

definition dom_relation_new :: "'a graph \<Rightarrow> 'a DomRelation outcome" where
  "dom_relation_new g =
     obind (postorder_visit g
         \<lparr>node_to_postorder_num = Map.empty, postorder_num_to_node = [], idom_tree = Map.empty\<rparr>)
       (compute_dominators g)"

definition is_dominated_by :: "'a DomRelation \<Rightarrow> 'a \<Rightarrow> 'a \<Rightarrow> bool outcome" where
  "is_dominated_by d x y =
     obind (at (node_to_postorder_num d) x) (\<lambda>x_num.
     obind (at (node_to_postorder_num d) y) (\<lambda>y_num.
       omap (\<lambda>cur_num. cur_num = y_num)
         (loop (\<lambda>cur_num. cur_num \<noteq> y_num \<and> cur_num \<noteq> entry_num d) (at (idom_tree d)) x_num)))"

definition sort_edge :: "'a DomRelation \<Rightarrow> 'a \<times> 'a \<Rightarrow> ('a \<times> 'a) list \<times> ('a \<times> 'a) list \<Rightarrow> (('a \<times> 'a) list \<times> ('a \<times> 'a) list) outcome" where
  "sort_edge d e = (\<lambda>(back_edges, non_back_edges).
     if \<not> dr_is_reachable d (fst e) then Done (back_edges, non_back_edges)
     else omap (\<lambda>b. if b then (back_edges @ [e], non_back_edges) else (back_edges, non_back_edges @ [e]))
       (is_dominated_by d (fst e) (snd e)))"

definition compute_reducible :: "'a :: linorder graph \<Rightarrow> 'a NaturalLoop list option outcome" where
  "compute_reducible g =
     obind (dom_relation_new g) (\<lambda>d.
     obind (ofold (sort_edge d) (g_edges g) ([], [])) (\<lambda>(back_edges, non_back_edges).
     obind (is_acyclic (graph_new (g_entry g) (g_nodes g) non_back_edges)) (\<lambda>acyclic.
       if acyclic then omap Some (osequence (map (natural_loop g) back_edges)) else Done None)))"

section \<open>Trees of immediate dominators\<close>

abbreviation anc :: "(nat \<rightharpoonup> nat) \<Rightarrow> nat \<Rightarrow> nat \<Rightarrow> bool" where
  "anc T \<equiv> (\<lambda>b a. T b = Some a)\<^sup>*\<^sup>*"

text \<open>Links go up to larger numbers, and the root \<open>n - 1\<close> is its own parent.\<close>

definition good :: "nat \<Rightarrow> (nat \<rightharpoonup> nat) \<Rightarrow> bool" where
  "good n T \<longleftrightarrow> 0 < n \<and> T (n - 1) = Some (n - 1)
     \<and> (\<forall>b a. T b = Some a \<longrightarrow> b < n \<and> a < n \<and> a \<in> dom T \<and> (b \<noteq> n - 1 \<longrightarrow> b < a))"

lemma good_link: "good n T \<Longrightarrow> T b = Some a \<Longrightarrow> b < n \<and> a < n \<and> a \<in> dom T \<and> b \<le> a \<and> (b \<noteq> n - 1 \<longrightarrow> b < a)"
  unfolding good_def by (metis le_eq_less_or_eq option.inject)

lemma anc_le: "anc T c y \<Longrightarrow> good n T \<Longrightarrow> c \<le> y"
  by (induction rule: rtranclp_induct) (auto dest: good_link)

lemma anc_dom: "anc T c y \<Longrightarrow> good n T \<Longrightarrow> c \<in> dom T \<Longrightarrow> y \<in> dom T"
  by (induction rule: rtranclp_induct) (auto dest: good_link)

lemma anc_root: "anc T (n - 1) y \<Longrightarrow> good n T \<Longrightarrow> y = n - 1"
  by (induction rule: rtranclp_induct) (auto simp: good_def)

lemma anc_first: "T c = Some a \<Longrightarrow> anc T c y \<Longrightarrow> y \<noteq> c \<Longrightarrow> anc T a y"
  by (erule converse_rtranclpE) auto

lemma anc_linear: "anc T c x \<Longrightarrow> good n T \<Longrightarrow> anc T c y \<Longrightarrow> x \<le> y \<Longrightarrow> anc T x y"
proof (induction rule: converse_rtranclp_induct)
  case (step c a)
  show ?case
  proof (cases "y = c")
    case True
    then have "x = c" using step anc_le [of T a x n] good_link [of n T c a] by auto
    then show ?thesis using True by simp
  next
    case False
    then show ?thesis using step anc_first [of T c a y] by blast
  qed
qed

lemma anc_antisym: "good n T \<Longrightarrow> (\<And>w. anc T x w \<longleftrightarrow> anc T y w) \<Longrightarrow> x = y"
  using anc_le by (metis le_antisym rtranclp.rtrancl_refl)

lemma walk_up:
  assumes T: "good n T" and ab: "a \<in> dom T" "b \<in> dom T"
  shows "\<exists>a'. loop (\<lambda>f. f < b) (at T) a = Done a' \<and> a' \<in> dom T \<and> a \<le> a' \<and> b \<le> a'
    \<and> (\<forall>w. anc T a' w \<and> anc T b w \<longleftrightarrow> anc T a w \<and> anc T b w)"
proof -
  let ?P = "\<lambda>f. f \<in> dom T \<and> a \<le> f \<and> (\<forall>w. anc T f w \<and> anc T b w \<longleftrightarrow> anc T a w \<and> anc T b w)"
  have "\<exists>a'. loop (\<lambda>f. f < b) (at T) a = Done a' \<and> ?P a' \<and> \<not> a' < b"
  proof (rule loop_measure [where m = "\<lambda>f. n - f"])
    show "?P a" using ab by simp
    fix f assume f: "?P f" "f < b"
    obtain f' where f': "T f = Some f'" using f(1) by blast
    have "b < n" using ab(2) T by (auto dest: good_link)
    then have lt: "f < f'" "f' < n" using good_link [OF T f'] f(2) by auto
    have "anc T f w \<longleftrightarrow> anc T f' w" if "anc T b w" for w
      using anc_le [OF that T] f(2) f' anc_first [of T f f' w] by (auto intro: converse_rtranclp_into_rtranclp)
    then have "?P f'" using f(1) good_link [OF T f'] by auto
    then show "\<exists>s'. at T f = Done s' \<and> ?P s' \<and> n - s' < n - f" using f' lt by simp
  qed
  then show ?thesis using leI by blast
qed

lemma intersect_total:
  assumes T: "good n T" and xy: "x \<in> dom T" "y \<in> dom T"
  shows "\<exists>z. dom_intersect T x y = Done z \<and> z \<in> dom T \<and> (\<forall>w. anc T z w \<longleftrightarrow> anc T x w \<and> anc T y w)"
proof -
  let ?P = "\<lambda>(a, b). a \<in> dom T \<and> b \<in> dom T \<and> (\<forall>w. anc T a w \<and> anc T b w \<longleftrightarrow> anc T x w \<and> anc T y w)"
  let ?c = "\<lambda>(finger1, finger2).
          obind (loop (\<lambda>f. f < finger2) (at T) finger1) (\<lambda>finger1.
          obind (loop (\<lambda>f. f < finger1) (at T) finger2) (\<lambda>finger2. Done (finger1, finger2)))"
  have "\<exists>t. loop (\<lambda>(a, b). a \<noteq> b) ?c (x, y) = Done t \<and> ?P t \<and> \<not> (\<lambda>(a, b). a \<noteq> b) t"
  proof (rule loop_measure [where m = "\<lambda>(a, b). (n - a) + (n - b)"])
    show "?P (x, y)" using xy by simp
    fix s assume s: "?P s" "(\<lambda>(a, b). a \<noteq> b) s"
    obtain a b where [simp]: "s = (a, b)" by fastforce
    obtain a' where a': "loop (\<lambda>f. f < b) (at T) a = Done a'" "a' \<in> dom T" "a \<le> a'" "b \<le> a'"
      "\<forall>w. anc T a' w \<and> anc T b w \<longleftrightarrow> anc T a w \<and> anc T b w"
      using walk_up [OF T, of a b] s(1) by auto
    obtain b' where b': "loop (\<lambda>f. f < a') (at T) b = Done b'" "b' \<in> dom T" "b \<le> b'" "a' \<le> b'"
      "\<forall>w. anc T b' w \<and> anc T a' w \<longleftrightarrow> anc T b w \<and> anc T a' w"
      using walk_up [OF T, of b a'] s(1) a'(2) by auto
    have "b' < n" using b'(2) T by (auto dest: good_link)
    then have "(n - a') + (n - b') < (n - a) + (n - b)" using a' b' s(2) by auto
    moreover have "?P (a', b')" using a' b' s(1) by auto
    ultimately show "\<exists>s'. ?c s = Done s' \<and> ?P s' \<and> (\<lambda>(a, b). (n - a) + (n - b)) s' < (\<lambda>(a, b). (n - a) + (n - b)) s"
      using a'(1) b'(1) by simp
  qed
  then show ?thesis by (auto simp: dom_intersect_def)
qed

section \<open>Dominance over numbers\<close>

text \<open>Paths from the entry \<open>e\<close>, listed from their end; \<open>P\<close> gives the predecessors of a number.\<close>

inductive walk :: "(nat \<Rightarrow> nat set) \<Rightarrow> nat \<Rightarrow> nat \<Rightarrow> nat list \<Rightarrow> bool" for P e where
  walk_entry: "walk P e e [e]"
| walk_step: "walk P e p xs \<Longrightarrow> p \<in> P c \<Longrightarrow> walk P e c (c # xs)"

inductive_cases walk_cases: "walk P e c xs"

definition dominates :: "(nat \<Rightarrow> nat set) \<Rightarrow> nat \<Rightarrow> nat \<Rightarrow> nat \<Rightarrow> bool" where
  "dominates P e y c \<longleftrightarrow> (\<forall>xs. walk P e c xs \<longrightarrow> y \<in> set xs)"

definition flow :: "nat \<Rightarrow> (nat \<Rightarrow> nat set) \<Rightarrow> bool" where
  "flow n P \<longleftrightarrow> 0 < n \<and> (\<forall>b<n. P b \<subseteq> {..<n}) \<and> (\<forall>b<n - 1. \<exists>p\<in>P b. b < p)"

lemma dominates_pred: "dominates P e y b \<Longrightarrow> y \<noteq> b \<Longrightarrow> p \<in> P b \<Longrightarrow> dominates P e y p"
  unfolding dominates_def by (metis set_ConsD walk_step)

lemma walk_hd: "walk P e c xs \<Longrightarrow> \<exists>ys. xs = c # ys"
  by (induction rule: walk.induct) auto

lemma walk_bound: "walk P e c xs \<Longrightarrow> flow n P \<Longrightarrow> e < n \<Longrightarrow> c < n \<Longrightarrow> set xs \<subseteq> {..<n}"
  by (induction rule: walk.induct) (auto simp: flow_def)

lemma walk_suffix: "walk P e c xs \<Longrightarrow> q \<in> set xs \<Longrightarrow> \<exists>zs ys. xs = zs @ ys \<and> walk P e q ys"
proof (induction rule: walk.induct)
  case (walk_step p xs c)
  then show ?case
  proof (cases "q = c")
    case True
    then show ?thesis using walk.walk_step [OF walk_step.hyps]
      by (intro exI [of _ "[]"] exI [of _ "c # xs"]) simp
  next
    case False
    then obtain zs ys where "xs = zs @ ys" "walk P e q ys" using walk_step by auto
    then show ?thesis by - (rule exI [of _ "c # zs"], rule exI [of _ ys], simp)
  qed
qed (auto intro: walk_entry exI [of _ "[]"])

lemma walk_simple: "walk P e c xs \<Longrightarrow> \<exists>ys. walk P e c ys \<and> distinct ys \<and> set ys \<subseteq> set xs"
proof (induction rule: walk.induct)
  case (walk_step p xs c)
  then obtain ys where ys: "walk P e p ys" "distinct ys" "set ys \<subseteq> set xs" by blast
  show ?case
  proof (cases "c \<in> set ys")
    case True
    then obtain zs us where "ys = zs @ us" "walk P e c us" using walk_suffix ys(1) by blast
    then show ?thesis using ys by (intro exI [of _ us]) auto
  next
    case False
    then show ?thesis using ys walk.walk_step [OF ys(1) walk_step.hyps(2)] by (intro exI [of _ "c # ys"]) auto
  qed
qed (auto intro: walk_entry exI [of _ "[e]"])

text \<open>The steps of a path that lead from a smaller number to a larger one, or stay.\<close>

fun retreats :: "nat list \<Rightarrow> nat" where
  "retreats (c # p # xs) = (if p \<le> c then 1 else 0) + retreats (p # xs)"
| "retreats _ = 0"

lemma retreats_suffix: "retreats ys \<le> retreats (zs @ ys)"
proof (induction zs)
  case (Cons z zs)
  then show ?case by (cases "zs @ ys") auto
qed simp

lemma retreats_length: "retreats xs \<le> length xs - 1"
  by (induction xs rule: retreats.induct) auto

section \<open>One update of the tree\<close>

text \<open>Node \<open>b\<close> gets the nearest common ancestor \<open>z\<close> of its predecessors in the tree.\<close>

definition common :: "(nat \<Rightarrow> nat set) \<Rightarrow> (nat \<rightharpoonup> nat) \<Rightarrow> nat \<Rightarrow> nat \<Rightarrow> bool" where
  "common P T b z \<longleftrightarrow> z \<in> dom T \<and> b < z \<and> (\<forall>w. anc T z w \<longleftrightarrow> (\<forall>p\<in>P b \<inter> dom T. anc T p w))"

text \<open>No chain loses a dominator, and a dominator above a link dominates the upper end.\<close>

definition keeps :: "nat \<Rightarrow> (nat \<Rightarrow> nat set) \<Rightarrow> (nat \<rightharpoonup> nat) \<Rightarrow> bool" where
  "keeps n P T \<longleftrightarrow> (\<forall>c\<in>dom T. \<forall>y. dominates P (n - 1) y c \<longrightarrow> anc T c y)
     \<and> (\<forall>c a y. T c = Some a \<longrightarrow> a < y \<longrightarrow> dominates P (n - 1) y c \<longrightarrow> dominates P (n - 1) y a)"

lemma good_update:
  assumes "good n T" "common P T b z" "b < n - 1"
  shows "good n (T(b \<mapsto> z))"
proof -
  have "z < n" using assms(1,2) by (auto simp: common_def dest: good_link)
  then show ?thesis using assms by (auto simp: good_def common_def)
qed

lemma anc_update_above:
  assumes "good n T" "b < x"
  shows "anc (T(b \<mapsto> z)) x w \<longleftrightarrow> anc T x w"
proof
  assume "anc (T(b \<mapsto> z)) x w"
  then have "anc T x w \<and> x \<le> w"
  proof (induction rule: rtranclp_induct)
    case (step y w)
    then have "T y = Some w" using assms(2) by auto
    moreover have "y \<le> w" using good_link [OF assms(1) calculation] by blast
    ultimately show ?case using step by (meson le_trans rtranclp.rtrancl_into_rtrancl)
  qed simp
  then show "anc T x w" by simp
next
  assume "anc T x w"
  then have "anc (T(b \<mapsto> z)) x w \<and> x \<le> w"
  proof (induction rule: rtranclp_induct)
    case (step y w)
    then have "(T(b \<mapsto> z)) y = Some w" using assms(2) by auto
    moreover have "y \<le> w" using good_link [OF assms(1) step(2)] by blast
    ultimately show ?case using step by (meson le_trans rtranclp.rtrancl_into_rtrancl)
  qed simp
  then show "anc (T(b \<mapsto> z)) x w" by simp
qed

lemma anc_update_split: "anc T c y \<Longrightarrow> anc (T(b \<mapsto> z)) c y \<or> anc (T(b \<mapsto> z)) c b \<and> anc T b y"
proof (induction rule: converse_rtranclp_induct)
  case (step c a)
  show ?case
  proof (cases "c = b")
    case True
    then show ?thesis using step by (auto intro: converse_rtranclp_into_rtranclp)
  next
    case False
    then have "(T(b \<mapsto> z)) c = Some a" using step by simp
    then show ?thesis using step by (auto intro: converse_rtranclp_into_rtranclp)
  qed
qed simp

lemma anc_update_back: "anc (T(b \<mapsto> z)) c b \<Longrightarrow> anc T c b"
proof (induction rule: converse_rtranclp_induct)
  case (step c a)
  then show ?case by (cases "c = b") (auto intro: converse_rtranclp_into_rtranclp)
qed simp

lemma keeps_chain:
  "anc T c a \<Longrightarrow> keeps n P T \<Longrightarrow> good n T \<Longrightarrow> a < y \<Longrightarrow> dominates P (n - 1) y c \<Longrightarrow> dominates P (n - 1) y a"
proof (induction rule: rtranclp_induct)
  case (step a' a)
  then have "dominates P (n - 1) y a'" using good_link [of n T a' a] by auto
  then show ?case using step by (auto simp: keeps_def)
qed simp

lemma keeps_update:
  assumes T: "good n T" "keeps n P T" and z: "common P T b z" and b: "b < n - 1"
    and p: "p \<in> P b" "p \<in> dom T"
  shows "keeps n P (T(b \<mapsto> z))"
proof -
  have pz: "anc T p z" using z p by (auto simp: common_def)
  have above: "anc (T(b \<mapsto> z)) z w \<longleftrightarrow> anc T z w" for w
    by (rule anc_update_above [OF T(1)]) (use z in \<open>simp add: common_def\<close>)
  have self: "anc (T(b \<mapsto> z)) b y" if y: "dominates P (n - 1) y b" for y
  proof (cases "y = b")
    case False
    have "anc T q y" if "q \<in> P b \<inter> dom T" for q
      using that dominates_pred [OF y False] T(2) by (auto simp: keeps_def)
    then have "anc T z y" using z by (simp add: common_def)
    then show ?thesis using above by (auto intro: converse_rtranclp_into_rtranclp)
  qed simp
  have "anc (T(b \<mapsto> z)) c y" if c: "c \<in> dom T" "c \<noteq> b" and y: "dominates P (n - 1) y c" for c y
  proof -
    have "anc T c y" using T(2) c y by (simp add: keeps_def)
    then consider "anc (T(b \<mapsto> z)) c y" | "anc (T(b \<mapsto> z)) c b" "anc T b y" "y \<noteq> b"
      using anc_update_split [of T c y b z] by auto
    then show ?thesis
    proof cases
      case 2
      have "b < y" using anc_le [OF 2(2) T(1)] 2(3) by simp
      have "anc T c b" using anc_update_back [OF 2(1)] .
      then have "dominates P (n - 1) y b" using keeps_chain T \<open>b < y\<close> y by blast
      then show ?thesis using self 2(1) by (meson rtranclp_trans)
    qed
  qed
  moreover have "dominates P (n - 1) y z" if "z < y" "dominates P (n - 1) y b" for y
  proof -
    have "y \<noteq> b" using that(1) z by (auto simp: common_def)
    then have "dominates P (n - 1) y p" using dominates_pred that(2) p(1) by blast
    then show ?thesis using keeps_chain [OF pz T(2,1) that(1)] by blast
  qed
  ultimately show ?thesis using T(2) self unfolding keeps_def by (auto split: if_splits)
qed

section \<open>One pass\<close>

text \<open>Chains stay on the paths with fewer than \<open>k\<close> retreating steps.\<close>

definition tight :: "nat \<Rightarrow> (nat \<Rightarrow> nat set) \<Rightarrow> nat \<Rightarrow> (nat \<rightharpoonup> nat) \<Rightarrow> bool" where
  "tight n P k T \<longleftrightarrow> (\<forall>c<n. \<forall>xs. walk P (n - 1) c xs \<longrightarrow> retreats xs < k \<longrightarrow>
     c \<in> dom T \<and> (\<forall>y. anc T c y \<longrightarrow> y \<in> set xs))"

text \<open>In the middle of a pass from \<open>T0\<close>, with the numbers from \<open>m\<close> upwards done.\<close>

definition mid :: "nat \<Rightarrow> (nat \<Rightarrow> nat set) \<Rightarrow> nat \<Rightarrow> (nat \<rightharpoonup> nat) \<Rightarrow> nat \<Rightarrow> (nat \<rightharpoonup> nat) \<Rightarrow> bool" where
  "mid n P k T0 m T \<longleftrightarrow> good n T \<and> keeps n P T \<and> {m..<n} \<subseteq> dom T \<and> dom T0 \<subseteq> dom T \<and> (\<forall>c<m. T c = T0 c)
     \<and> (\<forall>c xs. m \<le> c \<longrightarrow> c < n \<longrightarrow> walk P (n - 1) c xs \<longrightarrow> retreats xs \<le> k \<longrightarrow> (\<forall>y. anc T c y \<longrightarrow> y \<in> set xs))"

lemma mid_start:
  assumes "good n T" "keeps n P T"
  shows "mid n P k T (n - 1) T"
proof -
  have "y \<in> set xs" if "n - 1 \<le> c" "c < n" "walk P (n - 1) c xs" "anc T c y" for c xs y
  proof -
    have c: "c = n - 1" using that by simp
    then have "y = n - 1" using anc_root that(4) assms(1) by blast
    then show ?thesis using walk_hd [OF that(3)] c by auto
  qed
  moreover have "{n - 1..<n} \<subseteq> dom T"
  proof
    fix x assume "x \<in> {n - 1..<n}"
    then have "x = n - 1" by auto
    then show "x \<in> dom T" using assms(1) by (auto simp: good_def)
  qed
  ultimately show ?thesis using assms unfolding mid_def by blast
qed

lemma anc_split_old:
  "anc T p y \<Longrightarrow> \<forall>c<m. T c = T0 c \<Longrightarrow> anc T0 p y \<or> (\<exists>q\<ge>m. anc T0 p q \<and> anc T q y)"
proof (induction rule: converse_rtranclp_induct)
  case (step p a)
  show ?case
  proof (cases "p < m")
    case True
    then have "T0 p = Some a" using step by simp
    then show ?thesis using step by (auto intro: converse_rtranclp_into_rtranclp)
  next
    case False
    then show ?thesis using step.hyps by (auto intro: converse_rtranclp_into_rtranclp exI [of _ p])
  qed
qed simp

lemma mid_tight:
  "mid n P k T0 m T \<Longrightarrow> m \<le> c \<Longrightarrow> c < n \<Longrightarrow> walk P (n - 1) c xs \<Longrightarrow> retreats xs \<le> k \<Longrightarrow>
   anc T c y \<Longrightarrow> y \<in> set xs"
  unfolding mid_def by blast

lemma mid_pred:
  assumes m: "mid n P k T0 (Suc b) T" and T0: "good n T0" "tight n P k T0" and b: "b < n - 1"
    and w: "walk P (n - 1) p xs" "p < n" and r: "retreats (b # xs) \<le> k" and y: "anc T p y"
  shows "y \<in> set xs"
proof (cases "b < p")
  case True
  have "retreats xs \<le> k" using r retreats_suffix [of xs "[b]"] by simp
  then show ?thesis using mid_tight [OF m _ w(2,1)] True y by simp
next
  case False
  obtain xs' where xs: "xs = p # xs'" using walk_hd [OF w(1)] by blast
  have lt: "retreats xs < k" using r False xs by simp
  then have old: "z \<in> set xs" if "anc T0 p z" for z using T0 w that unfolding tight_def by blast
  have "\<forall>c<Suc b. T c = T0 c" using m unfolding mid_def by blast
  then consider "anc T0 p y" | q where "Suc b \<le> q" "anc T0 p q" "anc T q y" using anc_split_old [OF y] by blast
  then show ?thesis
  proof cases
    case (2 q)
    obtain zs ys where ys: "xs = zs @ ys" "walk P (n - 1) q ys" using walk_suffix [OF w(1) old [OF 2(2)]] by blast
    have "p \<in> dom T0" using T0(2) w lt unfolding tight_def by blast
    then have "q < n" using anc_dom [OF 2(2) T0(1)] good_link [OF T0(1)] by blast
    moreover have "retreats ys \<le> k" using retreats_suffix [of ys zs] lt ys(1) by simp
    ultimately have "y \<in> set ys" using mid_tight [OF m 2(1)] 2(3) ys(2) by blast
    then show ?thesis using ys(1) by simp
  qed (use old in blast)
qed

lemma mid_step:
  assumes f: "flow n P" and m: "mid n P k T0 (Suc b) T" and T0: "good n T0" "tight n P k T0"
    and b: "b < n - 1" and z: "common P T b z"
  shows "mid n P k T0 b (T(b \<mapsto> z))"
proof -
  have T: "good n T" "keeps n P T" "{Suc b..<n} \<subseteq> dom T" "dom T0 \<subseteq> dom T" "\<forall>c<Suc b. T c = T0 c"
    using m unfolding mid_def by blast+
  have g: "good n (T(b \<mapsto> z))" using good_update [OF T(1) z b] .
  have Pb: "P b \<subseteq> {..<n}" using f b by (simp add: flow_def)
  obtain p where p: "p \<in> P b" "b < p" using f b unfolding flow_def by blast
  then have "p \<in> {Suc b..<n}" using Pb by auto
  then have "p \<in> dom T" using T(3) by blast
  then have kp: "keeps n P (T(b \<mapsto> z))" using keeps_update [OF T(1,2) z b p(1)] by blast
  have "y \<in> set xs"
    if c: "b \<le> c" "c < n" and w: "walk P (n - 1) c xs" "retreats xs \<le> k" and y: "anc (T(b \<mapsto> z)) c y" for c xs y
  proof (cases "c = b")
    case False
    then have "anc T c y" using anc_update_above [OF T(1), of b c z y] c y by simp
    then show ?thesis using mid_tight [OF m _ c(2) w] False c(1) by simp
  next
    case True
    show ?thesis
    proof (cases "y = b")
      case True
      then show ?thesis using walk_hd [OF w(1)] \<open>c = b\<close> by auto
    next
      case False
      have "anc (T(b \<mapsto> z)) z y" using anc_first [of "T(b \<mapsto> z)" b z y] y \<open>c = b\<close> False by simp
      then have zy: "anc T z y" using anc_update_above [OF T(1), of b z z y] z by (simp add: common_def)
      obtain q us where q: "xs = b # us" "walk P (n - 1) q us" "q \<in> P b"
        using w(1) \<open>c = b\<close> b by (auto elim: walk_cases)
      have "q < n" using Pb q(3) by blast
      have "y \<in> set us" if "anc T q y"
        by (rule mid_pred [OF m T0 b q(2) \<open>q < n\<close> _ that]) (use w(2) q(1) in simp)
      moreover have "anc T q y"
      proof -
        have "q \<in> dom T"
        proof (cases "b < q")
          case True
          then have "q \<in> {Suc b..<n}" using \<open>q < n\<close> by simp
          then show ?thesis using T(3) by blast
        next
          case False
          obtain us' where "us = q # us'" using walk_hd [OF q(2)] by blast
          then have "retreats us < k" using w(2) q(1) False by simp
          then have "q \<in> dom T0" using T0(2) q(2) \<open>q < n\<close> unfolding tight_def by blast
          then show ?thesis using T(4) by blast
        qed
        then show ?thesis using z q(3) zy by (simp add: common_def)
      qed
      ultimately show ?thesis using q(1) by simp
    qed
  qed
  moreover have "{b..<n} \<subseteq> dom (T(b \<mapsto> z))"
  proof
    fix x assume "x \<in> {b..<n}"
    then have "x = b \<or> x \<in> {Suc b..<n}" by auto
    then show "x \<in> dom (T(b \<mapsto> z))" using T(3) by auto
  qed
  moreover have "dom T0 \<subseteq> dom (T(b \<mapsto> z))" using T(4) by auto
  moreover have "\<forall>c<b. (T(b \<mapsto> z)) c = T0 c" using T(5) by simp
  ultimately show ?thesis using g kp unfolding mid_def by blast
qed

text \<open>What holds between two passes.\<close>

definition between :: "nat \<Rightarrow> (nat \<Rightarrow> nat set) \<Rightarrow> nat \<Rightarrow> (nat \<rightharpoonup> nat) \<Rightarrow> bool" where
  "between n P k T \<longleftrightarrow> good n T \<and> keeps n P T \<and> tight n P k T \<and> (0 < k \<longrightarrow> {..<n} \<subseteq> dom T)"

lemma mid_finish: "mid n P k T0 0 T \<Longrightarrow> between n P (Suc k) T"
  unfolding mid_def between_def tight_def by (auto simp: less_Suc_eq_le)

text \<open>The chains are the dominators.\<close>

definition exact :: "nat \<Rightarrow> (nat \<Rightarrow> nat set) \<Rightarrow> (nat \<rightharpoonup> nat) \<Rightarrow> bool" where
  "exact n P T \<longleftrightarrow> good n T \<and> {..<n} \<subseteq> dom T \<and> (\<forall>c<n. \<forall>y. anc T c y \<longleftrightarrow> dominates P (n - 1) y c)"

lemma between_exact:
  assumes f: "flow n P" and T: "between n P n T"
  shows "exact n P T"
proof -
  have n: "0 < n" using f by (simp add: flow_def)
  have d: "{..<n} \<subseteq> dom T" using T n by (simp add: between_def)
  have "anc T c y \<longleftrightarrow> dominates P (n - 1) y c" if c: "c < n" for c y
  proof
    assume y: "anc T c y"
    show "dominates P (n - 1) y c" unfolding dominates_def
    proof (intro allI impI)
      fix xs assume "walk P (n - 1) c xs"
      then obtain ys where ys: "walk P (n - 1) c ys" "distinct ys" "set ys \<subseteq> set xs" using walk_simple by blast
      have "set ys \<subseteq> {..<n}" using walk_bound [OF ys(1) f] c n by simp
      then have "length ys \<le> n" using ys(2) by (metis card_lessThan card_mono distinct_card finite_lessThan)
      then have "retreats ys < n" using retreats_length [of ys] n by simp
      then have "y \<in> set ys" using T c ys(1) y unfolding between_def tight_def by blast
      then show "y \<in> set xs" using ys(3) by blast
    qed
  next
    assume "dominates P (n - 1) y c"
    then show "anc T c y" using T d c unfolding between_def keeps_def by blast
  qed
  then show ?thesis using T d unfolding exact_def between_def by blast
qed

lemma exact_unique:
  assumes "exact n P T" "exact n P T'"
  shows "T = T'"
proof
  fix b
  have eq: "anc T c y \<longleftrightarrow> anc T' c y" if "c < n" for c y using assms that by (simp add: exact_def)
  have g: "good n T" "good n T'" using assms by (simp_all add: exact_def)
  show "T b = T' b"
  proof (cases "b < n")
    case True
    then obtain a a' where a: "T b = Some a" "T' b = Some a'" using assms unfolding exact_def by blast
    show ?thesis
    proof (cases "b = n - 1")
      case True
      then show ?thesis using g by (simp add: good_def)
    next
      case False
      have lt: "b < a" "b < a'" using good_link g a False by blast+
      have "anc T' b a" "anc T b a'" using eq [OF True] a by auto
      then have "anc T' a' a" "anc T a a'" using anc_first a lt by (metis less_irrefl)+
      then have "a = a'" using anc_le g by (metis le_antisym)
      then show ?thesis using a by simp
    qed
  next
    case False
    then have "b \<notin> dom T" "b \<notin> dom T'" using good_link g by blast+
    then show ?thesis by (simp add: domIff)
  qed
qed

section \<open>The passes of the code\<close>

text \<open>A numbering as \<open>postorder_visit\<close> leaves it.\<close>

definition ordered :: "'a graph \<Rightarrow> 'a DomRelation \<Rightarrow> bool" where
  "ordered g d \<longleftrightarrow> well_formed g \<and> numbered d \<and> distinct (postorder_num_to_node d)
     \<and> set (postorder_num_to_node d) = reachable g \<and> postorder_num_to_node d \<noteq> []
     \<and> last (postorder_num_to_node d) = g_entry g \<and> parented g (postorder_num_to_node d)"

definition pred_nums :: "'a graph \<Rightarrow> 'a DomRelation \<Rightarrow> nat \<Rightarrow> nat set" where
  "pred_nums g d b = {i. \<exists>u. (u, postorder_num_to_node d ! b) \<in> set (g_edges g) \<and> node_to_postorder_num d u = Some i}"

lemma num_nodes_length: "ordered g d \<Longrightarrow> num_nodes d = length (postorder_num_to_node d)"
proof -
  assume o: "ordered g d"
  have "dom (node_to_postorder_num d) = set (postorder_num_to_node d)"
    using o by (auto simp: ordered_def numbered_def in_set_conv_nth)
  moreover have "distinct (postorder_num_to_node d)" using o by (simp add: ordered_def)
  ultimately show ?thesis by (simp only: num_nodes_def distinct_card)
qed

lemma num_nth: "ordered g d \<Longrightarrow> i < length (postorder_num_to_node d) \<Longrightarrow>
  node_to_postorder_num d (postorder_num_to_node d ! i) = Some i"
  by (simp add: ordered_def numbered_def)

lemma nth_num: "ordered g d \<Longrightarrow> node_to_postorder_num d u = Some i \<Longrightarrow>
  i < length (postorder_num_to_node d) \<and> postorder_num_to_node d ! i = u"
  by (simp add: ordered_def numbered_def)

lemma subseq_pair_nth: "subseq [x, y] L \<Longrightarrow> \<exists>i j. i < j \<and> j < length L \<and> L ! i = x \<and> L ! j = y"
proof (induction L)
  case (Cons z L)
  show ?case
  proof (cases "subseq [x, y] L")
    case True
    then obtain i j where "i < j" "j < length L" "L ! i = x" "L ! j = y" using Cons.IH by blast
    then show ?thesis by (intro exI [of _ "Suc i"] exI [of _ "Suc j"]) auto
  next
    case False
    then have "z = x" "y \<in> set L" using Cons.prems by (auto simp: subseq_singleton_left split: if_splits)
    then obtain j where "j < length L" "L ! j = y" by (auto simp: in_set_conv_nth)
    then show ?thesis using \<open>z = x\<close> by (intro exI [of _ 0] exI [of _ "Suc j"]) auto
  qed
qed simp

lemma ordered_flow: "ordered g d \<Longrightarrow> flow (num_nodes d) (pred_nums g d)"
proof -
  let ?L = "postorder_num_to_node d"
  assume o: "ordered g d"
  note n = num_nodes_length [OF o]
  have "\<exists>p\<in>pred_nums g d b. b < p" if b: "b < length ?L - 1" for b
  proof -
    have last: "?L ! (length ?L - 1) = g_entry g" using o last_conv_nth [of ?L] by (simp add: ordered_def)
    have "?L ! b \<noteq> ?L ! (length ?L - 1)" using o b by (simp add: ordered_def nth_eq_iff_index_eq)
    then have "?L ! b \<noteq> g_entry g" "?L ! b \<in> set ?L" using last b by auto
    then obtain u where u: "subseq [?L ! b, u] ?L" "(u, ?L ! b) \<in> set (g_edges g)"
      using o unfolding ordered_def parented_def by blast
    obtain i j where ij: "i < j" "j < length ?L" "?L ! i = ?L ! b" "?L ! j = u" using subseq_pair_nth [OF u(1)] by blast
    have "i = b" using ij b o by (auto simp: ordered_def nth_eq_iff_index_eq)
    moreover have "j \<in> pred_nums g d b" using u(2) ij num_nth [OF o] by (auto simp: pred_nums_def)
    ultimately show ?thesis using ij by blast
  qed
  moreover have "pred_nums g d b \<subseteq> {..<length ?L}" for b using nth_num [OF o] by (auto simp: pred_nums_def)
  ultimately show ?thesis using o n by (simp add: flow_def ordered_def)
qed

lemma consider_some:
  assumes T: "good n T"
  shows "new \<in> dom T \<Longrightarrow> \<exists>z. ofold (consider_pred num n T) ps new = Done z \<and> z \<in> dom T
    \<and> (\<forall>w. anc T z w \<longleftrightarrow> anc T new w \<and> (\<forall>p\<in>set ps. \<forall>i\<in>dom T. num p = Some i \<longrightarrow> anc T i w))"
proof (induction ps arbitrary: new)
  case (Cons p ps)
  have "new \<noteq> n" using Cons.prems T by (auto dest: good_link)
  show ?case
  proof (cases "\<exists>i. num p = Some i \<and> i \<in> dom T")
    case True
    then obtain i where i: "num p = Some i" "i \<in> dom T" by blast
    obtain z where z: "dom_intersect T i new = Done z" "z \<in> dom T" "\<forall>w. anc T z w \<longleftrightarrow> anc T i w \<and> anc T new w"
      using intersect_total [OF T i(2) Cons.prems] by blast
    have "consider_pred num n T p new = Done z" using i z(1) \<open>new \<noteq> n\<close> by (auto simp: consider_pred_def)
    then show ?thesis using Cons.IH [OF z(2)] z(3) i by auto
  next
    case False
    then have "consider_pred num n T p new = Done new" by (auto simp: consider_pred_def split: option.split)
    then show ?thesis using Cons.IH [OF Cons.prems] False by auto
  qed
qed simp

lemma consider_none:
  assumes T: "good n T" and ex: "\<exists>p\<in>set ps. \<exists>i\<in>dom T. num p = Some i"
  shows "\<exists>z. ofold (consider_pred num n T) ps n = Done z \<and> z \<in> dom T
    \<and> (\<forall>w. anc T z w \<longleftrightarrow> (\<forall>p\<in>set ps. \<forall>i\<in>dom T. num p = Some i \<longrightarrow> anc T i w))"
  using ex
proof (induction ps)
  case (Cons p ps)
  show ?case
  proof (cases "\<exists>i. num p = Some i \<and> i \<in> dom T")
    case True
    then obtain i where i: "num p = Some i" "i \<in> dom T" by blast
    then have "consider_pred num n T p n = Done i" by (auto simp: consider_pred_def)
    then show ?thesis using consider_some [OF T i(2), of num ps] i by auto
  next
    case False
    then have "consider_pred num n T p n = Done n" by (auto simp: consider_pred_def split: option.split)
    moreover have "\<exists>p\<in>set ps. \<exists>i\<in>dom T. num p = Some i" using Cons.prems False by auto
    then obtain z where "ofold (consider_pred num n T) ps n = Done z" "z \<in> dom T"
      "\<forall>w. anc T z w \<longleftrightarrow> (\<forall>p\<in>set ps. \<forall>i\<in>dom T. num p = Some i \<longrightarrow> anc T i w)" using Cons.IH by blast
    ultimately show ?thesis using False by (intro exI [of _ z]) auto
  qed
qed simp

lemma process_total:
  assumes o: "ordered g d" and T: "good (num_nodes d) T" and b: "b < num_nodes d - 1"
    and p: "p \<in> pred_nums g d b" "p \<in> dom T" "b < p"
  shows "\<exists>z. process_node g d b (T, ch) = Done (T(b \<mapsto> z), ch \<or> T b \<noteq> Some z) \<and> common (pred_nums g d) T b z"
proof -
  let ?L = "postorder_num_to_node d" and ?num = "node_to_postorder_num d" and ?n = "num_nodes d"
  have bL: "b < length ?L" using b num_nodes_length [OF o] by simp
  then have "?L ! b \<in> set (g_nodes g)" using o reachable_nodes unfolding ordered_def by (metis nth_mem subsetD)
  then obtain ps where ps: "predecessors g (?L ! b) = Some ps" "set ps = {u. (u, ?L ! b) \<in> set (g_edges g)}"
    using o unfolding ordered_def well_formed_def by blast
  have nums: "{i. \<exists>p\<in>set ps. ?num p = Some i} = pred_nums g d b" using ps(2) by (auto simp: pred_nums_def)
  then have "\<exists>p\<in>set ps. \<exists>i\<in>dom T. ?num p = Some i" using p by blast
  then obtain z where z: "ofold (consider_pred ?num ?n T) ps ?n = Done z" "z \<in> dom T"
    "\<forall>w. anc T z w \<longleftrightarrow> (\<forall>p\<in>set ps. \<forall>i\<in>dom T. ?num p = Some i \<longrightarrow> anc T i w)"
    using consider_none [OF T, of ps ?num] by blast
  have "(\<forall>p\<in>set ps. \<forall>i\<in>dom T. ?num p = Some i \<longrightarrow> anc T i w) \<longleftrightarrow>
      (\<forall>i\<in>pred_nums g d b \<inter> dom T. anc T i w)" for w
    unfolding nums [symmetric] by blast
  then have z3: "\<forall>w. anc T z w \<longleftrightarrow> (\<forall>i\<in>pred_nums g d b \<inter> dom T. anc T i w)" using z(3) by simp
  have "anc T p z" using z3 p by blast
  then have "b < z" using anc_le T p(3) by fastforce
  then have c: "common (pred_nums g d) T b z" using z(2) z3 by (simp add: common_def)
  have "z \<noteq> ?n" using good_link [OF T] z(2) by blast
  then have "process_node g d b (T, ch) = (if T b = Some z then Done (T, ch) else Done (T(b \<mapsto> z), True))"
    using bL ps(1) z(1) by (simp add: process_node_def)
  then have "process_node g d b (T, ch) = Done (T(b \<mapsto> z), ch \<or> T b \<noteq> Some z)" by (simp add: fun_upd_idem)
  then show ?thesis using c by blast
qed

lemma pass_rest:
  assumes o: "ordered g d" and T0: "good (num_nodes d) T0" "tight (num_nodes d) (pred_nums g d) k T0"
  shows "m \<le> num_nodes d - 1 \<Longrightarrow> mid (num_nodes d) (pred_nums g d) k T0 m T \<Longrightarrow>
    \<exists>T'. ofold (process_node g d) (rev [0..<m]) (T, T \<noteq> T0) = Done (T', T' \<noteq> T0)
      \<and> mid (num_nodes d) (pred_nums g d) k T0 0 T'"
proof (induction m arbitrary: T)
  case (Suc b)
  let ?n = "num_nodes d"
  have b: "b < ?n - 1" using Suc.prems(1) by simp
  have T: "good ?n T" "{Suc b..<?n} \<subseteq> dom T" "T b = T0 b"
    using Suc.prems(2) unfolding mid_def by blast+
  obtain p where p: "p \<in> pred_nums g d b" "b < p" using ordered_flow [OF o] b unfolding flow_def by blast
  have "p < ?n" using p(1) nth_num [OF o] num_nodes_length [OF o] by (auto simp: pred_nums_def)
  then have "p \<in> {Suc b..<?n}" using p(2) by simp
  then have "p \<in> dom T" using T(2) by blast
  then obtain z where z: "process_node g d b (T, T \<noteq> T0) = Done (T(b \<mapsto> z), T \<noteq> T0 \<or> T b \<noteq> Some z)"
    "common (pred_nums g d) T b z"
    using process_total [OF o T(1) b p(1) _ p(2)] by blast
  have "(T \<noteq> T0 \<or> T b \<noteq> Some z) = (T(b \<mapsto> z) \<noteq> T0)"
    using T(3) by (metis fun_upd_apply fun_upd_triv)
  then have z1: "process_node g d b (T, T \<noteq> T0) = Done (T(b \<mapsto> z), T(b \<mapsto> z) \<noteq> T0)" using z(1) by simp
  have mm: "mid ?n (pred_nums g d) k T0 b (T(b \<mapsto> z))"
    by (rule mid_step [OF ordered_flow [OF o] Suc.prems(2) T0 b z(2)])
  then obtain T' where T': "ofold (process_node g d) (rev [0..<b]) (T(b \<mapsto> z), T(b \<mapsto> z) \<noteq> T0) = Done (T', T' \<noteq> T0)"
    "mid ?n (pred_nums g d) k T0 0 T'"
    using Suc.IH [OF _ mm] b less_imp_le_nat by blast
  have "ofold (process_node g d) (rev [0..<Suc b]) (T, T \<noteq> T0) = Done (T', T' \<noteq> T0)"
    using z1 T'(1) by simp
  then show ?case using T'(2) by blast
qed auto

lemma pass_total:
  assumes o: "ordered g d" and T: "between (num_nodes d) (pred_nums g d) k T"
  shows "\<exists>T'. dominator_pass g d T = Done (T', T' \<noteq> T) \<and> between (num_nodes d) (pred_nums g d) (Suc k) T'"
proof -
  have T': "good (num_nodes d) T" "keeps (num_nodes d) (pred_nums g d) T" "tight (num_nodes d) (pred_nums g d) k T"
    using T unfolding between_def by blast+
  obtain T'' where "ofold (process_node g d) (rev [0..<num_nodes d - 1]) (T, T \<noteq> T) = Done (T'', T'' \<noteq> T)"
    "mid (num_nodes d) (pred_nums g d) k T 0 T''"
    using pass_rest [OF o T'(1,3) order_refl mid_start [OF T'(1,2)]] by blast
  then show ?thesis using mid_finish by (fastforce simp: dominator_pass_def)
qed

section \<open>The loop ends with the dominators\<close>

lemma between_start: "flow n P \<Longrightarrow> between n P 0 [n - 1 \<mapsto> n - 1]"
proof -
  assume f: "flow n P"
  have "anc [n - 1 \<mapsto> n - 1] (n - 1) y" if "dominates P (n - 1) y (n - 1)" for y
    using that walk_entry [of P "n - 1"] by (auto simp: dominates_def)
  then show ?thesis using f by (auto simp: between_def good_def keeps_def tight_def flow_def split: if_splits)
qed

lemma fixpoint_exact:
  assumes o: "ordered g d" and T: "between (num_nodes d) (pred_nums g d) k T" "k \<le> num_nodes d"
    and fp: "dominator_pass g d T = Done (T, False)"
  shows "exact (num_nodes d) (pred_nums g d) T"
proof -
  have step: "between (num_nodes d) (pred_nums g d) (Suc j) T" if "between (num_nodes d) (pred_nums g d) j T" for j
    using pass_total [OF o that] fp by auto
  have "between (num_nodes d) (pred_nums g d) (k + j) T" for j
    by (induction j) (use T step in auto)
  then have "between (num_nodes d) (pred_nums g d) (num_nodes d) T" using T(2) by (metis le_add_diff_inverse)
  then show ?thesis using between_exact [OF ordered_flow [OF o]] by blast
qed

lemma compute_dominators_total:
  assumes o: "ordered g d" and e: "idom_tree d = Map.empty"
  shows "\<exists>T. compute_dominators g d = Done (d\<lparr>idom_tree := T\<rparr>) \<and> exact (num_nodes d) (pred_nums g d) T"
proof -
  let ?n = "num_nodes d" and ?P = "pred_nums g d"
  have f: "flow ?n ?P" using ordered_flow [OF o] .
  let ?Q = "\<lambda>j (T, changed). if changed then \<exists>k\<le>?n. j = Suc ?n - k \<and> between ?n ?P k T
      else exact ?n ?P T"
  have "\<exists>t j. loop (\<lambda>(_, changed). changed) (\<lambda>(T, _). dominator_pass g d T) ([?n - 1 \<mapsto> ?n - 1], True) = Done t
      \<and> ?Q j t \<and> \<not> (\<lambda>(_, changed). changed) t"
  proof (rule loop_total)
    show "?Q (Suc ?n) ([?n - 1 \<mapsto> ?n - 1], True)" using between_start [OF f] by force
    fix j s assume s: "?Q j s" "(\<lambda>(_, changed). changed) s"
    then obtain T where [simp]: "s = (T, True)" by (cases s) auto
    obtain k where k: "k \<le> ?n" "j = Suc ?n - k" "between ?n ?P k T" using s(1) by auto
    obtain T' where T': "dominator_pass g d T = Done (T', T' \<noteq> T)" "between ?n ?P (Suc k) T'"
      using pass_total [OF o k(3)] by blast
    show "\<exists>s' j'. (\<lambda>(T, _). dominator_pass g d T) s = Done s' \<and> j' < j \<and> ?Q j' s'"
    proof (cases "T' = T")
      case True
      then have "exact ?n ?P T" using fixpoint_exact [OF o k(3,1)] T'(1) by simp
      then show ?thesis using T'(1) True k(1,2) by (intro exI [of _ "(T, False)"] exI [of _ 0]) simp
    next
      case False
      have "k \<noteq> ?n"
      proof
        assume "k = ?n"
        then have "exact ?n ?P T" using between_exact [OF f] k(3) by simp
        have all: "{..<?n} \<subseteq> dom T'" "good ?n T'" "keeps ?n ?P T'" using T'(2) by (simp_all add: between_def)
        have "tight ?n ?P ?n T'" using T'(2) \<open>k = ?n\<close> by (auto simp: between_def tight_def)
        then have "exact ?n ?P T'" using between_exact [OF f] all by (simp add: between_def)
        then show False using exact_unique \<open>exact ?n ?P T\<close> False by blast
      qed
      then have "?Q (Suc ?n - Suc k) (T', True)" using k(1) T'(2) by (auto intro!: exI [of _ "Suc k"])
      moreover have "Suc ?n - Suc k < j" using k(1,2) by simp
      ultimately show ?thesis using T'(1) False by (intro exI [of _ "(T', True)"] exI [of _ "Suc ?n - Suc k"]) simp
    qed
  qed
  then obtain T where "loop (\<lambda>(_, changed). changed) (\<lambda>(T, _). dominator_pass g d T) ([?n - 1 \<mapsto> ?n - 1], True) = Done (T, False)"
    "exact ?n ?P T" by auto
  then show ?thesis using e by (intro exI [of _ T]) (simp add: compute_dominators_def entry_num_def)
qed

text \<open>What \<open>DomRelation::new\<close> makes.\<close>

definition dom_ready :: "'a graph \<Rightarrow> 'a DomRelation \<Rightarrow> bool" where
  "dom_ready g d \<longleftrightarrow> ordered g d \<and> exact (num_nodes d) (pred_nums g d) (idom_tree d)"

lemma idom_update [simp]:
  "ordered g (d\<lparr>idom_tree := T\<rparr>) = ordered g d" "num_nodes (d\<lparr>idom_tree := T\<rparr>) = num_nodes d"
  "pred_nums g (d\<lparr>idom_tree := T\<rparr>) = pred_nums g d"
  by (simp_all add: ordered_def numbered_def num_nodes_def pred_nums_def fun_eq_iff)

lemma dom_relation_total:
  assumes "well_formed g"
  shows "\<exists>d. dom_relation_new g = Done d \<and> dom_ready g d"
proof -
  let ?d = "\<lparr>node_to_postorder_num = Map.empty, postorder_num_to_node = [], idom_tree = Map.empty\<rparr>"
  obtain d where d: "postorder_visit g ?d = Done d" "ordered g d" "idom_tree d = Map.empty"
    using postorder_visit_total [OF assms, of ?d] assms by (auto simp: numbered_def ordered_def)
  obtain T where "compute_dominators g d = Done (d\<lparr>idom_tree := T\<rparr>)" "exact (num_nodes d) (pred_nums g d) T"
    using compute_dominators_total [OF d(2,3)] by blast
  then show ?thesis using d by (simp add: dom_relation_new_def dom_ready_def)
qed

section \<open>Dominance in the graph\<close>

inductive flow_path :: "'a graph \<Rightarrow> 'a \<Rightarrow> 'a list \<Rightarrow> bool" for g where
  path_entry: "flow_path g (g_entry g) [g_entry g]"
| path_step: "flow_path g u xs \<Longrightarrow> (u, v) \<in> set (g_edges g) \<Longrightarrow> flow_path g v (v # xs)"

definition dominated_by :: "'a graph \<Rightarrow> 'a \<Rightarrow> 'a \<Rightarrow> bool" where
  "dominated_by g x y \<longleftrightarrow> (\<forall>xs. flow_path g x xs \<longrightarrow> y \<in> set xs)"

lemma flow_path_reachable: "flow_path g x xs \<Longrightarrow> x \<in> reachable g"
  by (induction rule: flow_path.induct) (auto simp: reachable_def intro: rtrancl_into_rtrancl)

lemma reachable_num: "ordered g d \<Longrightarrow> x \<in> reachable g \<Longrightarrow> \<exists>i. node_to_postorder_num d x = Some i"
proof -
  assume o: "ordered g d" and "x \<in> reachable g"
  then have "x \<in> set (postorder_num_to_node d)" by (simp add: ordered_def)
  then show ?thesis using num_nth [OF o] by (auto simp: in_set_conv_nth)
qed

lemma entry_number: "ordered g d \<Longrightarrow> postorder_num_to_node d ! (num_nodes d - 1) = g_entry g"
  using last_conv_nth [of "postorder_num_to_node d"] num_nodes_length [of g d] by (simp add: ordered_def)

lemma entry_num_of: "ordered g d \<Longrightarrow> node_to_postorder_num d (g_entry g) = Some (num_nodes d - 1)"
  using num_nth [of g d "num_nodes d - 1"] entry_number [of g d] num_nodes_length [of g d]
  by (simp add: ordered_def)

lemma path_to_walk:
  assumes o: "ordered g d"
  shows "flow_path g x xs \<Longrightarrow> \<exists>i is. node_to_postorder_num d x = Some i
    \<and> walk (pred_nums g d) (num_nodes d - 1) i is \<and> xs = map ((!) (postorder_num_to_node d)) is"
proof (induction rule: flow_path.induct)
  case path_entry
  show ?case using entry_num_of [OF o] entry_number [OF o] walk_entry by (intro exI) auto
next
  case (path_step u xs v)
  then obtain i "is" where i: "node_to_postorder_num d u = Some i"
    "walk (pred_nums g d) (num_nodes d - 1) i is" "xs = map ((!) (postorder_num_to_node d)) is" by blast
  have "v \<in> reachable g"
    using flow_path_reachable [OF path_step.hyps(1)] path_step.hyps(2)
    by (auto simp: reachable_def intro: rtrancl_into_rtrancl)
  then obtain j where j: "node_to_postorder_num d v = Some j" using reachable_num [OF o] by blast
  have v: "postorder_num_to_node d ! j = v" using nth_num [OF o j] by simp
  then have "i \<in> pred_nums g d j" using i(1) path_step.hyps(2) by (auto simp: pred_nums_def)
  then have "walk (pred_nums g d) (num_nodes d - 1) j (j # is)" using walk_step [OF i(2)] by blast
  then show ?case using j v i(3) by (intro exI [of _ j] exI [of _ "j # is"]) simp
qed

lemma walk_to_path:
  assumes o: "ordered g d"
  shows "walk (pred_nums g d) (num_nodes d - 1) i is \<Longrightarrow>
    flow_path g (postorder_num_to_node d ! i) (map ((!) (postorder_num_to_node d)) is)"
proof (induction rule: walk.induct)
  case walk_entry
  then show ?case using entry_number [OF o] path_entry [of g] by simp
next
  case (walk_step p xs c)
  obtain u where u: "(u, postorder_num_to_node d ! c) \<in> set (g_edges g)" "node_to_postorder_num d u = Some p"
    using walk_step.hyps(2) by (auto simp: pred_nums_def)
  then show ?case using path_step [OF walk_step.IH] nth_num [OF o u(2)] by simp
qed

lemma dominates_nodes:
  assumes o: "ordered g d" and x: "node_to_postorder_num d x = Some i" and y: "node_to_postorder_num d y = Some j"
  shows "dominates (pred_nums g d) (num_nodes d - 1) j i \<longleftrightarrow> dominated_by g x y"
proof
  assume dm: "dominates (pred_nums g d) (num_nodes d - 1) j i"
  show "dominated_by g x y" unfolding dominated_by_def
  proof (intro allI impI)
    fix xs assume "flow_path g x xs"
    then obtain "is" where w: "walk (pred_nums g d) (num_nodes d - 1) i is" "xs = map ((!) (postorder_num_to_node d)) is"
      using path_to_walk [OF o] x by fastforce
    have "j \<in> set is" using dm w(1) by (simp add: dominates_def)
    then show "y \<in> set xs" using w(2) nth_num [OF o y] by auto
  qed
next
  assume dm: "dominated_by g x y"
  show "dominates (pred_nums g d) (num_nodes d - 1) j i" unfolding dominates_def
  proof (intro allI impI)
    fix "is" assume w: "walk (pred_nums g d) (num_nodes d - 1) i is"
    have "flow_path g x (map ((!) (postorder_num_to_node d)) is)"
      using walk_to_path [OF o w] nth_num [OF o x] by simp
    then have "y \<in> set (map ((!) (postorder_num_to_node d)) is)" using dm unfolding dominated_by_def by blast
    then obtain k where k: "k \<in> set is" "postorder_num_to_node d ! k = y" by auto
    have n: "num_nodes d = length (postorder_num_to_node d)" using num_nodes_length [OF o] .
    have "i < num_nodes d" "num_nodes d - 1 < num_nodes d"
      using nth_num [OF o x] n ordered_flow [OF o] by (auto simp: flow_def)
    then have "k < num_nodes d" using walk_bound [OF w ordered_flow [OF o]] k(1) by auto
    then have "k = j" using num_nth [OF o, of k] n k(2) y by simp
    then show "j \<in> set is" using k(1) by simp
  qed
qed

lemma is_dominated_by_total:
  assumes d: "dom_ready g d" and "x \<in> reachable g" "y \<in> reachable g"
  shows "is_dominated_by d x y = Done (dominated_by g x y)"
proof -
  have o: "ordered g d" and ex: "exact (num_nodes d) (pred_nums g d) (idom_tree d)"
    using d by (simp_all add: dom_ready_def)
  obtain i j where i: "node_to_postorder_num d x = Some i" and j: "node_to_postorder_num d y = Some j"
    using reachable_num [OF o] assms by blast
  let ?T = "idom_tree d" and ?n = "num_nodes d"
  have T: "good ?n ?T" "{..<?n} \<subseteq> dom ?T" using ex by (simp_all add: exact_def)
  have lt: "i < ?n" using nth_num [OF o i] num_nodes_length [OF o] by simp
  let ?P = "\<lambda>c. c < ?n \<and> (anc ?T i j \<longleftrightarrow> anc ?T c j)"
  have "\<exists>c. loop (\<lambda>c. c \<noteq> j \<and> c \<noteq> entry_num d) (at ?T) i = Done c \<and> ?P c \<and> \<not> (c \<noteq> j \<and> c \<noteq> entry_num d)"
  proof (rule loop_measure [where m = "\<lambda>c. ?n - c"])
    show "?P i" using lt by simp
    fix c assume c: "?P c" "c \<noteq> j \<and> c \<noteq> entry_num d"
    then obtain a where a: "?T c = Some a" using T(2) by blast
    then have "c < a" "a < ?n" using good_link [OF T(1) a] c(2) by (simp_all add: entry_num_def)
    moreover have "anc ?T c j \<longleftrightarrow> anc ?T a j"
      using anc_first [of ?T c a j] c(2) a by (auto intro: converse_rtranclp_into_rtranclp)
    ultimately show "\<exists>s'. at ?T c = Done s' \<and> ?P s' \<and> ?n - s' < ?n - c" using a c(1) by simp
  qed
  then obtain c where c: "loop (\<lambda>c. c \<noteq> j \<and> c \<noteq> entry_num d) (at ?T) i = Done c" "?P c" "c = j \<or> c = entry_num d"
    by blast
  have "c = j \<longleftrightarrow> anc ?T i j"
  proof
    assume "anc ?T i j"
    then have "anc ?T c j" using c(2) by simp
    then show "c = j" using c(3) anc_root [of ?T ?n j] T(1) by (auto simp: entry_num_def)
  qed (use c(2) in auto)
  also have "\<dots> \<longleftrightarrow> dominated_by g x y"
    using ex lt dominates_nodes [OF o i j] by (simp add: exact_def)
  finally show ?thesis using i j c(1) by (simp add: is_dominated_by_def)
qed

section \<open>The acyclicity test ends\<close>

definition acyclic_inv :: "'a graph \<Rightarrow> 'a list \<times> ('a \<rightharpoonup> bool) \<Rightarrow> bool" where
  "acyclic_inv g = (\<lambda>(stack, visited). distinct stack \<and> set stack \<subseteq> dom visited \<and> dom visited \<subseteq> set (g_nodes g))"

definition acyclic_weight :: "'a graph \<Rightarrow> 'a list \<times> ('a \<rightharpoonup> bool) \<Rightarrow> nat" where
  "acyclic_weight g = (\<lambda>(stack, visited).
     3 * card (set (g_nodes g) - dom visited) + (\<Sum>n\<leftarrow>stack. if visited n = Some True then 1 else 2))"

lemma scan_successors_inv:
  "acyclic_inv g st \<Longrightarrow> set ss \<subseteq> set (g_nodes g) \<Longrightarrow> scan_successors ss st = Some st' \<Longrightarrow>
   acyclic_inv g st' \<and> acyclic_weight g st' \<le> acyclic_weight g st"
proof (induction ss st rule: scan_successors.induct)
  case (2 s ss stack visited)
  show ?case
  proof (cases "visited s")
    case None
    let ?st = "(s # stack, visited(s \<mapsto> False))"
    have s: "s \<in> set (g_nodes g) - dom visited" using 2 None by auto
    have inv: "acyclic_inv g ?st" using 2 None s by (auto simp: acyclic_inv_def)
    have "n \<noteq> s" if "n \<in> set stack" for n using that None 2 by (auto simp: acyclic_inv_def)
    then have w: "(\<Sum>n\<leftarrow>stack. if (visited(s \<mapsto> False)) n = Some True then 1 else 2) =
        (\<Sum>n\<leftarrow>stack. if visited n = Some True then 1 else (2 :: nat))"
      by (intro arg_cong [of _ _ sum_list] map_cong) auto
    have "card (set (g_nodes g) - dom visited) = Suc (card (set (g_nodes g) - dom visited - {s}))"
      by (rule card.remove) (use s in auto)
    moreover have "set (g_nodes g) - dom (visited(s \<mapsto> False)) = set (g_nodes g) - dom visited - {s}" by auto
    ultimately have "acyclic_weight g ?st < acyclic_weight g (stack, visited)" using w None by (simp add: acyclic_weight_def)
    have "acyclic_inv g st' \<and> acyclic_weight g st' \<le> acyclic_weight g ?st"
      by (rule "2.IH"(1) [OF None inv]) (use "2.prems" None in auto)
    then show ?thesis using \<open>acyclic_weight g ?st < acyclic_weight g (stack, visited)\<close> by simp
  next
    case (Some b)
    then show ?thesis using 2 by (cases b) auto
  qed
qed auto

lemma acyclic_step_total:
  assumes wf: "well_formed g" and inv: "acyclic_inv g (n # stack, visited)"
  shows "\<exists>st'. acyclic_step g (Some (n # stack, visited)) = Done st'
    \<and> (case st' of None \<Rightarrow> True | Some p \<Rightarrow> acyclic_inv g p \<and> acyclic_weight g p < acyclic_weight g (n # stack, visited))"
proof -
  have i: "n \<notin> set stack" "n \<in> dom visited" "n \<in> set (g_nodes g)" "distinct stack" "set stack \<subseteq> dom visited"
    "dom visited \<subseteq> set (g_nodes g)"
    using inv unfolding acyclic_inv_def by auto
  then obtain active where a: "visited n = Some active" by blast
  have w: "(\<Sum>m\<leftarrow>stack. if (visited(n \<mapsto> b)) m = Some True then 1 else 2) =
      (\<Sum>m\<leftarrow>stack. if visited m = Some True then 1 else (2 :: nat))" for b
    using i(1) by (intro arg_cong [of _ _ sum_list] map_cong) auto
  have dom: "dom (visited(n \<mapsto> b)) = dom visited" for b using i(2) by auto
  show ?thesis
  proof (cases active)
    case True
    then show ?thesis using a i w dom by (simp add: acyclic_step_def acyclic_inv_def acyclic_weight_def)
  next
    case False
    obtain ss where ss: "successors g n = Some ss" "set ss = {v. (n, v) \<in> set (g_edges g)}"
      using wf i(3) unfolding well_formed_def by blast
    let ?st = "(n # stack, visited(n \<mapsto> True))"
    have "acyclic_inv g ?st" using i dom unfolding acyclic_inv_def by simp
    moreover have "set ss \<subseteq> set (g_nodes g)" using ss(2) wf unfolding well_formed_def by auto
    moreover have "acyclic_weight g ?st < acyclic_weight g (n # stack, visited)"
      using a False w dom by (simp add: acyclic_weight_def)
    ultimately show ?thesis using a False ss(1) scan_successors_inv [of g ?st ss]
      by (cases "scan_successors ss ?st") (fastforce simp: acyclic_step_def)+
  qed
qed

lemma is_acyclic_total:
  assumes wf: "well_formed g"
  shows "\<exists>b. is_acyclic g = Done b"
proof -
  let ?b = "\<lambda>st :: ('a list \<times> ('a \<rightharpoonup> bool)) option. case st of None \<Rightarrow> False | Some (stack, _) \<Rightarrow> stack \<noteq> []"
  let ?P = "\<lambda>st. case st of None \<Rightarrow> True | Some p \<Rightarrow> acyclic_inv g p"
  let ?m = "\<lambda>st. case st of None \<Rightarrow> 0 | Some p \<Rightarrow> Suc (acyclic_weight g p)"
  have "\<exists>t. loop ?b (acyclic_step g) (Some ([g_entry g], [g_entry g \<mapsto> False])) = Done t \<and> ?P t \<and> \<not> ?b t"
  proof (rule loop_measure [where m = ?m])
    show "?P (Some ([g_entry g], [g_entry g \<mapsto> False]))" using wf by (simp add: acyclic_inv_def well_formed_def)
    fix s assume s: "?P s" "?b s"
    then obtain n stack visited where [simp]: "s = Some (n # stack, visited)"
      by (cases s) (auto simp: neq_Nil_conv split: prod.splits)
    show "\<exists>s'. acyclic_step g s = Done s' \<and> ?P s' \<and> ?m s' < ?m s"
      using acyclic_step_total [OF wf, of n stack visited] s(1) by (fastforce split: option.splits)
  qed
  then show ?thesis by (auto simp: is_acyclic_def)
qed

section \<open>compute\_reducible\<close>

definition is_back_edge :: "'a graph \<Rightarrow> 'a \<times> 'a \<Rightarrow> bool" where
  "is_back_edge g e \<longleftrightarrow> fst e \<in> reachable g \<and> dominated_by g (fst e) (snd e)"

definition is_forward_edge :: "'a graph \<Rightarrow> 'a \<times> 'a \<Rightarrow> bool" where
  "is_forward_edge g e \<longleftrightarrow> fst e \<in> reachable g \<and> \<not> dominated_by g (fst e) (snd e)"

definition loop_of :: "'a graph \<Rightarrow> 'a \<times> 'a \<Rightarrow> 'a NaturalLoop" where
  "loop_of g e = \<lparr>loop_header = snd e, loop_latch = fst e,
     loop_body = insert (snd e) {x. reaches_latch g (snd e) (fst e) x}\<rparr>"

lemma dom_ready_reachable: "dom_ready g d \<Longrightarrow> dr_is_reachable d x \<longleftrightarrow> x \<in> reachable g"
proof -
  assume "dom_ready g d"
  then have o: "ordered g d" by (simp add: dom_ready_def)
  have L: "set (postorder_num_to_node d) = reachable g" using o by (simp add: ordered_def)
  show ?thesis
  proof
    assume "dr_is_reachable d x"
    then obtain i where "node_to_postorder_num d x = Some i" by (auto simp: dr_is_reachable_def)
    then show "x \<in> reachable g" using nth_num [OF o] nth_mem L by metis
  qed (use reachable_num [OF o] in \<open>auto simp: dr_is_reachable_def\<close>)
qed

lemma sort_edges_total:
  assumes d: "dom_ready g d"
  shows "set es \<subseteq> set (g_edges g) \<Longrightarrow> ofold (sort_edge d) es (bs, fs) =
    Done (bs @ filter (is_back_edge g) es, fs @ filter (is_forward_edge g) es)"
proof (induction es arbitrary: bs fs)
  case (Cons e es)
  have "snd e \<in> reachable g" if "fst e \<in> reachable g"
    using that Cons.prems rtrancl_into_rtrancl [of "g_entry g" "fst e" "set (g_edges g)" "snd e"]
    by (auto simp: reachable_def)
  then have "sort_edge d e (bs, fs) = Done (if is_back_edge g e then (bs @ [e], fs)
      else if is_forward_edge g e then (bs, fs @ [e]) else (bs, fs))"
    using is_dominated_by_total [OF d] dom_ready_reachable [OF d]
    by (auto simp: sort_edge_def is_back_edge_def is_forward_edge_def)
  then show ?case using Cons by (auto simp: is_back_edge_def is_forward_edge_def)
qed simp

lemma compute_reducible_total:
  assumes wf: "well_formed g"
  shows "\<exists>acyclic. is_acyclic (graph_new (g_entry g) (g_nodes g) (filter (is_forward_edge g) (g_edges g))) = Done acyclic
    \<and> compute_reducible g = Done (if acyclic then Some (map (loop_of g) (filter (is_back_edge g) (g_edges g))) else None)"
proof -
  let ?h = "graph_new (g_entry g) (g_nodes g) (filter (is_forward_edge g) (g_edges g))"
  obtain d where d: "dom_relation_new g = Done d" "dom_ready g d" using dom_relation_total [OF wf] by blast
  have "well_formed ?h" using wf by (intro graph_new_well_formed) (auto simp: well_formed_def)
  then obtain b where b: "is_acyclic ?h = Done b" using is_acyclic_total by blast
  have "natural_loop g e = Done (loop_of g e)" if "e \<in> set (g_edges g)" for e
    using natural_loop_total [OF wf, of "fst e" "snd e"] that by (simp add: loop_of_def)
  then have "osequence (map (natural_loop g) (filter (is_back_edge g) (g_edges g))) =
      Done (map (loop_of g) (filter (is_back_edge g) (g_edges g)))"
    by (simp add: osequence_Done_iff)
  then show ?thesis using d sort_edges_total [OF d(2), of "g_edges g"] b by (simp add: compute_reducible_def)
qed

section \<open>Properties\<close>

text \<open>
  C31: the dominator computation ends without a panic, and its answers are right: \<open>x\<close> is
  reachable when a path leads to it from the entry, and dominated by \<open>y\<close> when every such
  path passes \<open>y\<close>.
\<close>

theorem dominators_correct:
  assumes "well_formed g"
  shows "\<exists>d. dom_relation_new g = Done d \<and> (\<forall>x. dr_is_reachable d x \<longleftrightarrow> x \<in> reachable g)
    \<and> (\<forall>x y. x \<in> reachable g \<longrightarrow> y \<in> reachable g \<longrightarrow> is_dominated_by d x y = Done (dominated_by g x y))"
  using dom_relation_total [OF assms] dom_ready_reachable is_dominated_by_total by metis

theorem dominators_correct_witness:
  "\<exists>d. dom_relation_new (graph_new (1 :: nat) [1, 2, 3] [(1, 2), (2, 3), (1, 3)]) = Done d
    \<and> is_dominated_by d 1 1 = Done (dominated_by (graph_new (1 :: nat) [1, 2, 3] [(1, 2), (2, 3), (1, 3)]) 1 1)"
proof -
  have wf: "well_formed (graph_new (1 :: nat) [1, 2, 3] [(1, 2), (2, 3), (1, 3)])"
    by (rule graph_new_well_formed) auto
  have "1 \<in> reachable (graph_new (1 :: nat) [1, 2, 3] [(1, 2), (2, 3), (1, 3)])" by (simp add: reachable_def)
  then show ?thesis using dominators_correct [OF wf] by blast
qed



text \<open>The smallest irreducible graph: the entry branches into a cycle of two nodes.\<close>

definition two_entries :: "nat graph" where
  "two_entries = graph_new 1 [1, 2, 3] [(1, 2), (1, 3), (2, 3), (3, 2)]"

lemma two_entries_forward:
  "filter (is_back_edge two_entries) (g_edges two_entries) = []"
  "filter (is_forward_edge two_entries) (g_edges two_entries) = g_edges two_entries"
  "\<not> dominated_by two_entries 2 3" "\<not> dominated_by two_entries 3 2"
proof -
  have e: "g_entry two_entries = 1" "g_edges two_entries = [(1, 2), (1, 3), (2, 3), (3, 2)]"
    by (simp_all add: two_entries_def)
  have p1: "flow_path two_entries 1 [1]" using path_entry [of two_entries] e by simp
  have p2: "flow_path two_entries 2 [2, 1]" and p3: "flow_path two_entries 3 [3, 1]"
    using p1 path_step e by fastforce+
  have n: "\<not> dominated_by two_entries 1 2" "\<not> dominated_by two_entries 1 3"
    using p1 by (force simp: dominated_by_def)+
  show n2: "\<not> dominated_by two_entries 2 3" using p2 by (force simp: dominated_by_def)
  show n3: "\<not> dominated_by two_entries 3 2" using p3 by (force simp: dominated_by_def)
  have r: "1 \<in> reachable two_entries" "2 \<in> reachable two_entries" "3 \<in> reachable two_entries"
    using flow_path_reachable [OF p1] flow_path_reachable [OF p2] flow_path_reachable [OF p3] by simp_all
  show "filter (is_back_edge two_entries) (g_edges two_entries) = []"
    using e n n2 n3 by (simp add: is_back_edge_def)
  show "filter (is_forward_edge two_entries) (g_edges two_entries) = g_edges two_entries"
    using e n n2 n3 r by (simp add: is_forward_edge_def)
qed

lemma two_entries_scan: "is_acyclic two_entries = Done True"
proof -
  have s: "successors two_entries = [1 \<mapsto> [2, 3], 2 \<mapsto> [3], 3 \<mapsto> [2]]"
    by (auto simp: two_entries_def graph_new_def Let_def add_link_def insort_insert_insort fun_eq_iff)
  have e: "g_entry two_entries = 1" by (simp add: two_entries_def)
  show ?thesis by (simp add: is_acyclic_def s e loop_unfold acyclic_step_def)
qed

text \<open>
  A graph with a reachable cycle that no node of it dominates, which is not
  reducible, is reported as reducible and without loops.
\<close>

theorem irreducible_accepted:
  "compute_reducible two_entries = Done (Some [])
   \<and> {(2, 3), (3, 2)} \<subseteq> set (g_edges two_entries) \<and> 2 \<in> reachable two_entries
   \<and> \<not> dominated_by two_entries 2 3 \<and> \<not> dominated_by two_entries 3 2"
proof -
  have wf: "well_formed two_entries" unfolding two_entries_def by (rule graph_new_well_formed) auto
  have "graph_new (g_entry two_entries) (g_nodes two_entries) (g_edges two_entries) = two_entries"
    by (simp add: two_entries_def)
  then have "compute_reducible two_entries = Done (Some [])"
    using compute_reducible_total [OF wf] two_entries_forward two_entries_scan by auto
  moreover have "2 \<in> reachable two_entries" by (auto simp: reachable_def two_entries_def)
  ultimately show ?thesis using two_entries_forward by (simp add: two_entries_def)
qed

end
