(* ===== verification/Bytecode.thy ===== *)
theory Bytecode
  imports SpecExp
begin

text \<open>
  Stackless bytecode (\<open>move-stackless-bytecode/src/stackless_bytecode.rs\<close>): the instructions,
  their classification, the successors of an instruction, the temporaries that it reads and
  writes, the renaming of temporaries and labels, and instantiation.  Labels and attribute ids
  are words of 16 bits; code offsets are natural numbers (the file format bounds the code of a
  function by \<open>2 ^ 16\<close>).  The types of the locals of the enclosing function are a list.
\<close>

section \<open>Instructions\<close>

type_synonym TempIndex = nat
type_synonym AttrId = "16 word"
type_synonym Label = "16 word"
type_synonym CodeOffset = nat

datatype AssignKind = AssignCopy | AssignMove | AssignStore

datatype HavocKind = HavocValue | HavocMutationValue | HavocMutationAll

datatype Constant =
    KBool bool
  | KU8 "8 word"
  | KU64 "64 word"
  | KU128 "128 word"
  | KAddress nat
  | KByteArray "8 word list"
  | KAddressArray "nat list"
  | KVector "Constant list"
  | KU16 "16 word"
  | KU32 "32 word"
  | KU256 U256

datatype QuantifierType =
    QtForall | QtExists | QtMap | QtMapRange | QtFilter | QtFilterRange | QtFind | QtFindRange
  | QtFindIndex | QtFindIndexRange | QtFindIndices | QtFindIndicesRange | QtCount | QtCountRange
  | QtAny | QtAnyRange | QtAll | QtAllRange | QtSumMap | QtSumMapRange | QtRangeMap | QtRangeCount
  | QtRangeSumMap

datatype QuantifierHelperType =
    QhMap | QhRangeMap | QhRangeCount | QhRangeSumMap | QhFindIndex | QhFindIndices | QhFilter | QhCount
  | QhSumMap

definition helper_range_based :: "QuantifierHelperType \<Rightarrow> bool" where
  "helper_range_based q \<longleftrightarrow> q \<in> {QhRangeMap, QhRangeCount, QhRangeSumMap}"

definition qt_can_abort :: "QuantifierType \<Rightarrow> bool" where
  "qt_can_abort q = False"

definition qt_vector_based :: "QuantifierType \<Rightarrow> bool" where
  "qt_vector_based q \<longleftrightarrow> q \<noteq> QtForall \<and> q \<noteq> QtExists \<and> q \<noteq> QtRangeMap \<and> q \<noteq> QtRangeCount \<and> q \<noteq> QtRangeSumMap"

definition qt_range_based :: "QuantifierType \<Rightarrow> bool" where
  "qt_range_based q \<longleftrightarrow> q \<in> {QtMapRange, QtFilterRange, QtFindRange, QtFindIndexRange, QtFindIndicesRange,
     QtCountRange, QtAnyRange, QtAllRange, QtSumMapRange, QtRangeMap, QtRangeCount, QtRangeSumMap}"

definition qt_is_find_or_find_index :: "QuantifierType \<Rightarrow> bool" where
  "qt_is_find_or_find_index q \<longleftrightarrow> q \<in> {QtFind, QtFindRange, QtFindIndex, QtFindIndexRange}"

definition into_quantifier_helper_type :: "QuantifierType \<Rightarrow> QuantifierHelperType option" where
  "into_quantifier_helper_type q = (case q of
     QtMap \<Rightarrow> Some QhMap | QtMapRange \<Rightarrow> Some QhMap
   | QtSumMap \<Rightarrow> Some QhSumMap | QtSumMapRange \<Rightarrow> Some QhSumMap
   | QtFindIndex \<Rightarrow> Some QhFindIndex | QtFindIndexRange \<Rightarrow> Some QhFindIndex
   | QtFind \<Rightarrow> Some QhFindIndex | QtFindRange \<Rightarrow> Some QhFindIndex
   | QtFindIndices \<Rightarrow> Some QhFindIndices | QtFindIndicesRange \<Rightarrow> Some QhFindIndices
   | QtCount \<Rightarrow> Some QhCount | QtCountRange \<Rightarrow> Some QhCount
   | QtFilter \<Rightarrow> Some QhFilter | QtFilterRange \<Rightarrow> Some QhFilter
   | QtRangeMap \<Rightarrow> Some QhRangeMap
   | QtRangeCount \<Rightarrow> Some QhRangeCount
   | QtRangeSumMap \<Rightarrow> Some QhRangeSumMap
   | _ \<Rightarrow> None)"

datatype RefType = ByValue | ByImmRef | ByMutRef

record QualifiedInstId =
  qi_module :: nat
  qi_inst :: "MType list"
  qi_id :: nat

datatype BorrowNode =
    GlobalRoot QualifiedInstId
  | SpecGlobalRoot "MType list"
  | LocalRoot TempIndex
  | Reference TempIndex
  | ReturnPlaceholder nat

datatype IndexEdgeKind = IndexVector | IndexTable | IndexCustom string

datatype BorrowEdge =
    EdgeDirect
  | EdgeField QualifiedInstId nat
  | EdgeEnumField QualifiedInstId nat nat
  | EdgeIndex IndexEdgeKind
  | EdgeDynamicField QualifiedInstId MType MType
  | EdgeHyper "BorrowEdge list"

datatype (plugins only: size) Operation =
    OpFunction nat nat "MType list"
  | OpOpaqueCallBegin nat nat "MType list"
  | OpOpaqueCallEnd nat nat "MType list"
  | OpPack nat nat "MType list"
  | OpUnpack nat nat "MType list"
  | OpPackVariant nat nat nat "MType list"
  | OpUnpackVariant nat nat nat "MType list" RefType
  | OpMoveTo nat nat "MType list"
  | OpMoveFrom nat nat "MType list"
  | OpExists nat nat "MType list"
  | OpBorrowLoc
  | OpBorrowField nat nat "MType list" nat
  | OpBorrowGlobal nat nat "MType list"
  | OpGetField nat nat "MType list" nat
  | OpGetGlobal nat nat "MType list"
  | OpUninit | OpDestroy | OpReadRef | OpWriteRef | OpFreezeRef | OpHavoc HavocKind | OpStop
  | OpIsParent BorrowNode BorrowEdge
  | OpWriteBack BorrowNode BorrowEdge
  | OpUnpackRef | OpPackRef | OpUnpackRefDeep | OpPackRefDeep
  | OpCastU8 | OpCastU16 | OpCastU32 | OpCastU64 | OpCastU128 | OpNot
  | OpAdd | OpSub | OpMul | OpDiv | OpMod | OpBitOr | OpBitAnd | OpXor | OpShl | OpShr
  | OpLt | OpGt | OpLe | OpGe | OpOr | OpAnd | OpEq | OpNeq | OpCastU256
  | OpIfThenElse | OpVariantMerge
  | OpTraceLocal TempIndex | OpTraceReturn nat | OpTraceAbort | OpTraceExp TraceKind nat
  | OpTraceGlobalMem QualifiedInstId | OpTraceMessage string | OpTraceGhost MType MType
  | OpEmitEvent | OpEventStoreDiverge
  | OpQuantifier QuantifierType "nat \<times> nat" "MType list" nat

datatype PropKind = PropAssert | PropAssume | PropModifies

datatype AbortAction = AbortCheck

datatype Bytecode =
    BLoad AttrId TempIndex Constant
  | BAssign AttrId TempIndex TempIndex AssignKind
  | BCall AttrId "TempIndex list" Operation "TempIndex list" "AbortAction option"
  | BRet AttrId "TempIndex list"
  | BBranch AttrId Label Label TempIndex
  | BJump AttrId Label
  | BVariantSwitch AttrId TempIndex "Label list"
  | BLabel AttrId Label
  | BAbort AttrId TempIndex
  | BNop AttrId
  | BSaveMem AttrId nat QualifiedInstId
  | BProp AttrId PropKind ExpData

definition op_can_abort :: "Operation \<Rightarrow> bool" where
  "op_can_abort oper = (case oper of
     OpFunction _ _ _ \<Rightarrow> True | OpMoveTo _ _ _ \<Rightarrow> True | OpMoveFrom _ _ _ \<Rightarrow> True
   | OpBorrowGlobal _ _ _ \<Rightarrow> True | OpGetGlobal _ _ _ \<Rightarrow> True
   | OpCastU8 \<Rightarrow> True | OpCastU16 \<Rightarrow> True | OpCastU32 \<Rightarrow> True | OpCastU64 \<Rightarrow> True | OpCastU128 \<Rightarrow> True
   | OpCastU256 \<Rightarrow> True | OpAdd \<Rightarrow> True | OpSub \<Rightarrow> True | OpMul \<Rightarrow> True | OpDiv \<Rightarrow> True | OpMod \<Rightarrow> True
   | OpShl \<Rightarrow> True | OpShr \<Rightarrow> True
   | OpQuantifier q _ _ _ \<Rightarrow> qt_can_abort q
   | _ \<Rightarrow> False)"

definition apply_fun_qid :: "nat \<times> nat \<Rightarrow> MType list \<Rightarrow> Operation" where
  "apply_fun_qid qid tys = OpFunction (fst qid) (snd qid) tys"

fun get_ref :: "BorrowNode \<Rightarrow> TempIndex option" where
  "get_ref (Reference idx) = Some idx"
| "get_ref _ = None"

fun edge_flatten :: "BorrowEdge \<Rightarrow> BorrowEdge list" where
  "edge_flatten (EdgeHyper edges) = edges"
| "edge_flatten e = [e]"

section \<open>Classification and control flow\<close>

fun get_attr_id :: "Bytecode \<Rightarrow> AttrId" where
  "get_attr_id (BLoad a _ _) = a"
| "get_attr_id (BAssign a _ _ _) = a"
| "get_attr_id (BCall a _ _ _ _) = a"
| "get_attr_id (BRet a _) = a"
| "get_attr_id (BBranch a _ _ _) = a"
| "get_attr_id (BJump a _) = a"
| "get_attr_id (BVariantSwitch a _ _) = a"
| "get_attr_id (BLabel a _) = a"
| "get_attr_id (BAbort a _) = a"
| "get_attr_id (BNop a) = a"
| "get_attr_id (BSaveMem a _ _) = a"
| "get_attr_id (BProp a _ _) = a"

fun replace_attr_id :: "AttrId \<Rightarrow> Bytecode \<Rightarrow> Bytecode" where
  "replace_attr_id n (BLoad _ d c) = BLoad n d c"
| "replace_attr_id n (BAssign _ d s k) = BAssign n d s k"
| "replace_attr_id n (BCall _ d oper s aa) = BCall n d oper s aa"
| "replace_attr_id n (BRet _ v) = BRet n v"
| "replace_attr_id n (BBranch _ l1 l2 t) = BBranch n l1 l2 t"
| "replace_attr_id n (BJump _ l) = BJump n l"
| "replace_attr_id n (BVariantSwitch _ t ls) = BVariantSwitch n t ls"
| "replace_attr_id n (BLabel _ l) = BLabel n l"
| "replace_attr_id n (BAbort _ t) = BAbort n t"
| "replace_attr_id n (BNop _) = BNop n"
| "replace_attr_id n (BSaveMem _ ml qi) = BSaveMem n ml qi"
| "replace_attr_id n (BProp _ pk e) = BProp n pk e"

fun is_exit :: "Bytecode \<Rightarrow> bool" where
  "is_exit (BRet _ _) = True"
| "is_exit (BAbort _ _) = True"
| "is_exit (BCall _ _ oper _ _) = (oper = OpStop)"
| "is_exit _ = False"

fun is_return :: "Bytecode \<Rightarrow> bool" where
  "is_return (BRet _ _) = True"
| "is_return _ = False"

fun is_unconditional_branch :: "Bytecode \<Rightarrow> bool" where
  "is_unconditional_branch (BRet _ _) = True"
| "is_unconditional_branch (BJump _ _) = True"
| "is_unconditional_branch (BAbort _ _) = True"
| "is_unconditional_branch (BVariantSwitch _ _ _) = True"
| "is_unconditional_branch (BCall _ _ oper _ _) = (oper = OpStop)"
| "is_unconditional_branch _ = False"

fun is_conditional_branch :: "Bytecode \<Rightarrow> bool" where
  "is_conditional_branch (BBranch _ _ _ _) = True"
| "is_conditional_branch _ = False"

definition is_branch :: "Bytecode \<Rightarrow> bool" where
  "is_branch b \<longleftrightarrow> is_conditional_branch b \<or> is_unconditional_branch b"

fun branch_dests :: "Bytecode \<Rightarrow> Label list" where
  "branch_dests (BBranch _ then_label else_label _) = [then_label, else_label]"
| "branch_dests (BJump _ label) = [label]"
| "branch_dests (BVariantSwitch _ _ dests) = dests"
| "branch_dests _ = []"

text \<open>The offsets of the labels; a label that occurs twice fails an assertion.\<close>

fun label_step :: "CodeOffset \<times> Bytecode \<Rightarrow> (Label \<rightharpoonup> CodeOffset) \<Rightarrow> (Label \<rightharpoonup> CodeOffset) outcome" where
  "label_step (offs, BLabel _ l) res = (if l \<in> dom res then Panicked else Done (res(l \<mapsto> offs)))"
| "label_step _ res = Done res"

definition label_offsets :: "Bytecode list \<Rightarrow> (Label \<rightharpoonup> CodeOffset) outcome" where
  "label_offsets code = ofold label_step (enumerate 0 code) (\<lambda>_. None)"

definition code_at :: "Bytecode list \<Rightarrow> CodeOffset \<Rightarrow> Bytecode outcome" where
  "code_at code pc = (if pc < length code then Done (code ! pc) else Panicked)"

definition get_successors :: "CodeOffset \<Rightarrow> Bytecode list \<Rightarrow> (Label \<rightharpoonup> CodeOffset) \<Rightarrow> CodeOffset list outcome" where
  "get_successors pc code offsets = obind (code_at code pc) (\<lambda>b.
     if \<not> is_branch b then Done (if pc + 1 < length code then [pc + 1] else [])
     else osequence (map (at offsets) (branch_dests b)))"

fun dests :: "Bytecode \<Rightarrow> TempIndex list" where
  "dests (BLoad _ d _) = [d]"
| "dests (BAssign _ d _ _) = [d]"
| "dests (BCall _ ds _ _ _) = ds"
| "dests _ = []"

fun srcs :: "Bytecode \<Rightarrow> TempIndex list" where
  "srcs (BAssign _ _ s _) = [s]"
| "srcs (BCall _ _ _ ss _) = ss"
| "srcs (BRet _ ss) = ss"
| "srcs (BBranch _ _ _ c) = [c]"
| "srcs (BVariantSwitch _ idx _) = [idx]"
| "srcs (BAbort _ s) = [s]"
| "srcs _ = []"

section \<open>Renaming\<close>

fun remap_node :: "(bool \<Rightarrow> TempIndex \<Rightarrow> ('s, TempIndex) comp) \<Rightarrow> BorrowNode \<Rightarrow> ('s, BorrowNode) comp" where
  "remap_node f (LocalRoot t) = sbind (f True t) (\<lambda>t. sret (LocalRoot t))"
| "remap_node f (Reference t) = sbind (f True t) (\<lambda>t. sret (Reference t))"
| "remap_node f node = sret node"

definition remap_call :: "(bool \<Rightarrow> TempIndex \<Rightarrow> ('s, TempIndex) comp) \<Rightarrow> AttrId \<Rightarrow> TempIndex list \<Rightarrow> Operation
    \<Rightarrow> TempIndex list \<Rightarrow> AbortAction option \<Rightarrow> ('s, Bytecode) comp" where
  "remap_call f attr ds oper ss aa = (case oper of
     OpWriteBack node edge \<Rightarrow>
       sbind (remap_node f node) (\<lambda>node.
       sbind (smapM (f True) ss) (\<lambda>ss. sret (BCall attr [] (OpWriteBack node edge) ss aa)))
   | OpIsParent node edge \<Rightarrow>
       sbind (smapM (f False) ds) (\<lambda>ds.
       sbind (remap_node f node) (\<lambda>node.
       sbind (smapM (f True) ss) (\<lambda>ss. sret (BCall attr ds (OpIsParent node edge) ss aa))))
   | _ \<Rightarrow>
       sbind (smapM (f False) ds) (\<lambda>ds.
       sbind (smapM (f True) ss) (\<lambda>ss. sret (BCall attr ds oper ss aa))))"

fun remap_vars_internal :: "(bool \<Rightarrow> TempIndex \<Rightarrow> ('s, TempIndex) comp) \<Rightarrow> Bytecode \<Rightarrow> ('s, Bytecode) comp" where
  "remap_vars_internal f (BLoad attr d c) = sbind (f False d) (\<lambda>d. sret (BLoad attr d c))"
| "remap_vars_internal f (BAssign attr d s k) =
     sbind (f False d) (\<lambda>d. sbind (f True s) (\<lambda>s. sret (BAssign attr d s k)))"
| "remap_vars_internal f (BCall attr ds oper ss aa) = remap_call f attr ds oper ss aa"
| "remap_vars_internal f (BRet attr rets) = sbind (smapM (f True) rets) (\<lambda>rets. sret (BRet attr rets))"
| "remap_vars_internal f (BBranch attr l1 l2 c) = sbind (f True c) (\<lambda>c. sret (BBranch attr l1 l2 c))"
| "remap_vars_internal f (BVariantSwitch attr idx ls) =
     sbind (f True idx) (\<lambda>idx. sret (BVariantSwitch attr idx ls))"
| "remap_vars_internal f (BAbort attr c) = sbind (f True c) (\<lambda>c. sret (BAbort attr c))"
| "remap_vars_internal f (BProp attr k e) = sbind (remap_exp (f True) e) (\<lambda>e. sret (BProp attr k e))"
| "remap_vars_internal f b = sret b"

definition remap_all_vars :: "(TempIndex \<Rightarrow> ('s, TempIndex) comp) \<Rightarrow> Bytecode \<Rightarrow> ('s, Bytecode) comp" where
  "remap_all_vars f = remap_vars_internal (\<lambda>_ idx. f idx)"

definition remap_dest_vars :: "(TempIndex \<Rightarrow> ('s, TempIndex) comp) \<Rightarrow> Bytecode \<Rightarrow> ('s, Bytecode) comp" where
  "remap_dest_vars f = remap_vars_internal (\<lambda>is_src idx. if \<not> is_src then f idx else sret idx)"

definition remap_src_vars :: "(TempIndex \<Rightarrow> ('s, TempIndex) comp) \<Rightarrow> Bytecode \<Rightarrow> ('s, Bytecode) comp" where
  "remap_src_vars f = remap_vars_internal (\<lambda>is_src idx. if is_src then f idx else sret idx)"

definition subst_label :: "(Label \<rightharpoonup> Label) \<Rightarrow> Label \<Rightarrow> Label" where
  "subst_label subst l = (case subst l of None \<Rightarrow> l | Some l' \<Rightarrow> l')"

fun substitute_labels :: "(Label \<rightharpoonup> Label) \<Rightarrow> Bytecode \<Rightarrow> Bytecode" where
  "substitute_labels subst (BLabel a l) = BLabel a (subst_label subst l)"
| "substitute_labels subst (BJump a l) = BJump a (subst_label subst l)"
| "substitute_labels subst (BBranch a l1 l2 idx) = BBranch a (subst_label subst l1) (subst_label subst l2) idx"
| "substitute_labels subst (BVariantSwitch a idx ls) = BVariantSwitch a idx (map (subst_label subst) ls)"
| "substitute_labels subst b = b"

fun substitute_operations :: "(Operation \<rightharpoonup> Operation) \<Rightarrow> Bytecode \<Rightarrow> Bytecode" where
  "substitute_operations subst (BCall a ds oper ss aa) =
     BCall a ds (case subst oper of None \<Rightarrow> oper | Some oper' \<Rightarrow> oper') ss aa"
| "substitute_operations subst b = b"

fun update_abort_action :: "(AbortAction option \<Rightarrow> AbortAction option) \<Rightarrow> Bytecode \<Rightarrow> Bytecode" where
  "update_abort_action f (BCall a ds oper ss aa) = BCall a ds oper ss (f aa)"
| "update_abort_action f b = b"

definition index_at :: "'a list \<Rightarrow> nat \<Rightarrow> 'a outcome" where
  "index_at xs i = (if i < length xs then Done (xs ! i) else Panicked)"

fun replace_cast_with_assign :: "Bytecode \<Rightarrow> Bytecode outcome" where
  "replace_cast_with_assign (BCall a ds oper ss aa) =
     (if oper \<in> {OpCastU8, OpCastU16, OpCastU32, OpCastU64, OpCastU128, OpCastU256}
      then obind (index_at ds 0) (\<lambda>d. obind (index_at ss 0) (\<lambda>s. Done (BAssign a d s AssignStore)))
      else Done (BCall a ds oper ss aa))"
| "replace_cast_with_assign b = Done b"

fun get_called_function :: "Bytecode \<Rightarrow> (nat \<times> nat) option" where
  "get_called_function (BCall _ _ oper _ _) = (case oper of OpFunction mid fid _ \<Rightarrow> Some (mid, fid) | _ \<Rightarrow> None)"
| "get_called_function _ = None"

definition get_called_functions :: "Bytecode list \<Rightarrow> (nat \<times> nat) list" where
  "get_called_functions code = List.map_filter get_called_function code"

definition calls_function :: "Bytecode list \<Rightarrow> nat \<times> nat \<Rightarrow> bool" where
  "calls_function code qid = list_ex (\<lambda>b. get_called_function b = Some qid) code"

section \<open>Modified temporaries\<close>

definition get_local_type :: "MType list \<Rightarrow> TempIndex \<Rightarrow> MType outcome" where
  "get_local_type types idx = index_at types idx"

definition modify_dest :: "MType list \<Rightarrow> TempIndex \<Rightarrow> TempIndex list \<times> (TempIndex \<times> bool) list
    \<Rightarrow> (TempIndex list \<times> (TempIndex \<times> bool) list) outcome" where
  "modify_dest types d = (\<lambda>(vals, muts). omap (\<lambda>ty.
     if is_mutable_reference ty then (vals, muts @ [(d, True)]) else (vals @ [d], muts)) (get_local_type types d))"

definition modify_src :: "MType list \<Rightarrow> TempIndex \<Rightarrow> TempIndex list \<times> (TempIndex \<times> bool) list
    \<Rightarrow> (TempIndex list \<times> (TempIndex \<times> bool) list) outcome" where
  "modify_src types s = (\<lambda>(vals, muts). omap (\<lambda>ty.
     if is_mutable_reference ty then (vals, muts @ [(s, False)]) else (vals, muts)) (get_local_type types s))"

definition modifies_call :: "MType list \<Rightarrow> TempIndex list \<Rightarrow> Operation \<Rightarrow> TempIndex list
    \<Rightarrow> (TempIndex list \<times> (TempIndex \<times> bool) list) outcome" where
  "modifies_call types ds oper ss = (case oper of
     OpWriteBack (LocalRoot d) _ \<Rightarrow> Done ([d], [])
   | OpWriteBack (Reference d) _ \<Rightarrow> Done ([], [(d, False)])
   | OpWriteRef \<Rightarrow> omap (\<lambda>s. ([], [(s, False)])) (index_at ss 0)
   | OpFunction _ _ _ \<Rightarrow> obind (ofold (modify_src types) ss ([], [])) (ofold (modify_dest types) ds)
   | _ \<Rightarrow> ofold (modify_dest types) ds ([], []))"

fun modifies :: "MType list \<Rightarrow> Bytecode \<Rightarrow> (TempIndex list \<times> (TempIndex \<times> bool) list) outcome" where
  "modifies types (BAssign _ d _ _) = omap (\<lambda>ty.
     if is_mutable_reference ty then ([], [(d, True)]) else ([d], [])) (get_local_type types d)"
| "modifies types (BLoad _ d _) = Done ([d], [])"
| "modifies types (BCall _ ds oper ss _) = modifies_call types ds oper ss"
| "modifies types _ = Done ([], [])"

section \<open>Instantiation\<close>

text \<open>The part of the global environment that stores what is known of expression nodes
  (\<open>exp_info\<close> and \<open>next_free_node_id\<close> of \<open>GlobalEnv\<close>); a location is a number.\<close>

record exp_info =
  ei_loc :: nat
  ei_type :: MType
  ei_instantiation :: "MType list option"

record node_table =
  exp_infos :: "nat \<rightharpoonup> exp_info"
  next_free_node_id :: nat

definition slift :: "'a outcome \<Rightarrow> ('s, 'a) comp" where
  "slift m = (\<lambda>s. omap (\<lambda>x. (x, s)) m)"

definition get_node_type :: "nat \<Rightarrow> (node_table, MType) comp" where
  "get_node_type i = (\<lambda>s. omap (\<lambda>info. (ei_type info, s)) (at (exp_infos s) i))"

definition get_node_instantiation_opt :: "nat \<Rightarrow> (node_table, MType list option) comp" where
  "get_node_instantiation_opt i = (\<lambda>s. Done (Option.bind (exp_infos s i) ei_instantiation, s))"

definition get_node_loc :: "nat \<Rightarrow> nat \<Rightarrow> (node_table, nat) comp" where
  "get_node_loc unknown_loc i = (\<lambda>s. Done (case exp_infos s i of None \<Rightarrow> unknown_loc | Some info \<Rightarrow> ei_loc info, s))"

definition new_node_id :: "(node_table, nat) comp" where
  "new_node_id = (\<lambda>s. if next_free_node_id s + 1 < 2 ^ 64
     then Done (next_free_node_id s, s\<lparr>next_free_node_id := next_free_node_id s + 1\<rparr>) else Panicked)"

definition new_node :: "nat \<Rightarrow> MType \<Rightarrow> (node_table, nat) comp" where
  "new_node loc ty = sbind new_node_id (\<lambda>i s.
     Done (i, s\<lparr>exp_infos := (exp_infos s)(i \<mapsto> \<lparr>ei_loc = loc, ei_type = ty, ei_instantiation = None\<rparr>)\<rparr>))"

definition set_node_instantiation :: "nat \<Rightarrow> MType list \<Rightarrow> (node_table, unit) comp" where
  "set_node_instantiation i inst = (\<lambda>s. obind (at (exp_infos s) i) (\<lambda>info.
     if ei_instantiation info = None
     then Done ((), s\<lparr>exp_infos := (exp_infos s)(i \<mapsto> info\<lparr>ei_instantiation := Some inst\<rparr>)\<rparr>)
     else Panicked))"

text \<open>\<open>ExpData::instantiate_node\<close>.\<close>

definition instantiate_node :: "nat \<Rightarrow> MType list \<Rightarrow> nat \<Rightarrow> (node_table, nat option) comp" where
  "instantiate_node unknown_loc targs i =
     (if targs = [] then sret None
      else
        sbind (get_node_type i) (\<lambda>node_ty.
        sbind (slift (mty_instantiate node_ty targs)) (\<lambda>new_node_ty.
        sbind (get_node_instantiation_opt i) (\<lambda>node_inst.
        sbind (smap_option (\<lambda>ts. slift (instantiate_slice ts targs)) node_inst) (\<lambda>new_node_inst.
          if node_ty \<noteq> new_node_ty \<or> node_inst \<noteq> new_node_inst
          then sbind (get_node_loc unknown_loc i) (\<lambda>loc.
               sbind (new_node loc new_node_ty) (\<lambda>new_id.
               sbind (case new_node_inst of None \<Rightarrow> sret () | Some inst \<Rightarrow> set_node_instantiation new_id inst) (\<lambda>_.
               sret (Some new_id))))
          else sret None)))))"

definition qi_instantiate :: "QualifiedInstId \<Rightarrow> MType list \<Rightarrow> QualifiedInstId outcome" where
  "qi_instantiate q params =
     (if params = [] then Done q else omap (\<lambda>inst. q\<lparr>qi_inst := inst\<rparr>) (instantiate_slice (qi_inst q) params))"

fun node_instantiate :: "MType list \<Rightarrow> BorrowNode \<Rightarrow> BorrowNode outcome" where
  "node_instantiate params (GlobalRoot q) = omap GlobalRoot (qi_instantiate q params)"
| "node_instantiate params (SpecGlobalRoot tys) = omap SpecGlobalRoot (instantiate_slice tys params)"
| "node_instantiate params node = Done node"

fun edge_instantiate :: "MType list \<Rightarrow> BorrowEdge \<Rightarrow> BorrowEdge outcome" where
  "edge_instantiate params (EdgeField q offset) = omap (\<lambda>q. EdgeField q offset) (qi_instantiate q params)"
| "edge_instantiate params (EdgeEnumField q offset variant) =
     omap (\<lambda>q. EdgeEnumField q offset variant) (qi_instantiate q params)"
| "edge_instantiate params (EdgeDynamicField q name_ty value_ty) =
     obind (qi_instantiate q params) (\<lambda>q.
     obind (mty_instantiate name_ty params) (\<lambda>n.
     obind (mty_instantiate value_ty params) (\<lambda>v. Done (EdgeDynamicField q n v))))"
| "edge_instantiate params (EdgeHyper edges) = omap EdgeHyper (osequence (map (edge_instantiate params) edges))"
| "edge_instantiate params e = Done e"

definition op_instantiate :: "MType list \<Rightarrow> Operation \<Rightarrow> Operation outcome" where
  "op_instantiate params oper = (case oper of
     OpFunction m f tys \<Rightarrow> omap (OpFunction m f) (instantiate_slice tys params)
   | OpOpaqueCallBegin m f tys \<Rightarrow> omap (OpOpaqueCallBegin m f) (instantiate_slice tys params)
   | OpOpaqueCallEnd m f tys \<Rightarrow> omap (OpOpaqueCallEnd m f) (instantiate_slice tys params)
   | OpPack m d tys \<Rightarrow> omap (OpPack m d) (instantiate_slice tys params)
   | OpUnpack m d tys \<Rightarrow> omap (OpUnpack m d) (instantiate_slice tys params)
   | OpPackVariant m d v tys \<Rightarrow> omap (OpPackVariant m d v) (instantiate_slice tys params)
   | OpUnpackVariant m d v tys r \<Rightarrow> omap (\<lambda>tys. OpUnpackVariant m d v tys r) (instantiate_slice tys params)
   | OpBorrowField m d tys n \<Rightarrow> omap (\<lambda>tys. OpBorrowField m d tys n) (instantiate_slice tys params)
   | OpGetField m d tys n \<Rightarrow> omap (\<lambda>tys. OpGetField m d tys n) (instantiate_slice tys params)
   | OpMoveTo m d tys \<Rightarrow> omap (OpMoveTo m d) (instantiate_slice tys params)
   | OpMoveFrom m d tys \<Rightarrow> omap (OpMoveFrom m d) (instantiate_slice tys params)
   | OpExists m d tys \<Rightarrow> omap (OpExists m d) (instantiate_slice tys params)
   | OpBorrowGlobal m d tys \<Rightarrow> omap (OpBorrowGlobal m d) (instantiate_slice tys params)
   | OpGetGlobal m d tys \<Rightarrow> omap (OpGetGlobal m d) (instantiate_slice tys params)
   | OpIsParent node edge \<Rightarrow> obind (node_instantiate params node) (\<lambda>node.
       omap (OpIsParent node) (edge_instantiate params edge))
   | OpWriteBack node edge \<Rightarrow> obind (node_instantiate params node) (\<lambda>node.
       omap (OpWriteBack node) (edge_instantiate params edge))
   | _ \<Rightarrow> Done oper)"

fun bytecode_instantiate :: "nat \<Rightarrow> MType list \<Rightarrow> Bytecode \<Rightarrow> (node_table, Bytecode) comp" where
  "bytecode_instantiate loc params (BCall attr ds oper ss aa) =
     slift (omap (\<lambda>oper. BCall attr ds oper ss aa) (op_instantiate params oper))"
| "bytecode_instantiate loc params (BSaveMem attr l q) = slift (omap (BSaveMem attr l) (qi_instantiate q params))"
| "bytecode_instantiate loc params (BProp attr k e) =
     sbind (exp_rewrite_node_id (instantiate_node loc params) e) (\<lambda>e. sret (BProp attr k e))"
| "bytecode_instantiate loc params b = sret b"

section \<open>Labels and successors\<close>

definition is_label :: "Bytecode list \<Rightarrow> CodeOffset \<Rightarrow> Label \<Rightarrow> bool" where
  "is_label code i l \<longleftrightarrow> i < length code \<and> (\<exists>a. code ! i = BLabel a l)"

lemma is_label_snoc: "is_label (code @ [b]) i l \<longleftrightarrow> is_label code i l \<or> i = length code \<and> (\<exists>a. b = BLabel a l)"
  by (auto simp: is_label_def nth_append)

lemma label_offsets_snoc:
  "label_offsets (code @ [b]) = obind (label_offsets code) (label_step (length code, b))"
proof -
  have "ofold label_step [(length code, b)] s = label_step (length code, b) s" for s
    by (cases "label_step (length code, b) s") (auto simp del: label_step.simps)
  then have "ofold label_step [(length code, b)] = label_step (length code, b)" by (rule ext)
  then show ?thesis
    by (simp add: label_offsets_def enumerate_append_eq ofold_append del: label_step.simps)
qed

lemma label_offsets_Done:
  "label_offsets code = Done offs \<Longrightarrow> offs l = Some i \<longleftrightarrow> is_label code i l"
proof (induction code arbitrary: offs l i rule: rev_induct)
  case Nil
  then show ?case by (auto simp: label_offsets_def is_label_def)
next
  case (snoc b code)
  obtain o1 where o1: "label_offsets code = Done o1" "label_step (length code, b) o1 = Done offs"
    using snoc.prems by (auto simp: label_offsets_snoc obind_Done_iff)
  have IH: "o1 l = Some i \<longleftrightarrow> is_label code i l" for l i using snoc.IH [OF o1(1)] .
  show ?case
  proof (cases "\<exists>a m. b = BLabel a m")
    case True
    then obtain a m where b: "b = BLabel a m" by blast
    have "o1 m = None" "offs = o1(m \<mapsto> length code)" using o1(2) b by (auto split: if_splits simp: domIff)
    moreover have "\<not> is_label code i m" using IH [of m i] calculation(1) by simp
    ultimately show ?thesis using IH [of l i] b by (auto simp: is_label_snoc)
  next
    case False
    then have "offs = o1" using o1(2) by (cases b) auto
    then show ?thesis using IH False by (auto simp: is_label_snoc)
  qed
qed

lemma label_step_Done:
  "(\<exists>offs. label_step (i, b) res = Done offs) \<longleftrightarrow> \<not> (\<exists>a m. b = BLabel a m \<and> m \<in> dom res)"
  by (cases b) auto

lemma label_offsets_not_Done:
  assumes "\<not> (\<exists>offs. label_offsets code = Done offs)"
  shows "label_offsets code = Panicked \<and> (\<exists>l i j. i \<noteq> j \<and> is_label code i l \<and> is_label code j l)"
  using assms
proof (induction code rule: rev_induct)
  case Nil
  then show ?case by (simp add: label_offsets_def)
next
  case (snoc b code)
  show ?case
  proof (cases "\<exists>offs. label_offsets code = Done offs")
    case True
    then obtain o1 where o1: "label_offsets code = Done o1" by blast
    have "\<exists>a m. b = BLabel a m \<and> m \<in> dom o1"
      using snoc.prems o1 label_step_Done [of "length code" b o1] by (simp add: label_offsets_snoc)
    then obtain a m where b: "b = BLabel a m" "m \<in> dom o1" by blast
    then obtain i where "is_label code i m" using label_offsets_Done [OF o1] by blast
    moreover have "i \<noteq> length code" using \<open>is_label code i m\<close> by (simp add: is_label_def)
    ultimately show ?thesis using b o1 by (auto simp: label_offsets_snoc is_label_snoc)
  next
    case False
    then show ?thesis using snoc.IH by (auto simp: label_offsets_snoc is_label_snoc)
  qed
qed

lemma not_branch_dests: "\<not> is_branch b \<Longrightarrow> branch_dests b = []"
  by (cases b) (auto simp: is_branch_def)

text \<open>Code whose labels are distinct and whose jumps have a target.\<close>

definition targets_defined :: "Bytecode list \<Rightarrow> (Label \<rightharpoonup> CodeOffset) \<Rightarrow> bool" where
  "targets_defined code offs \<longleftrightarrow> label_offsets code = Done offs \<and> (\<forall>b\<in>set code. set (branch_dests b) \<subseteq> dom offs)"

definition succs :: "Bytecode list \<Rightarrow> (Label \<rightharpoonup> CodeOffset) \<Rightarrow> CodeOffset \<Rightarrow> CodeOffset list" where
  "succs code offs pc = (if is_branch (code ! pc) then map (the \<circ> offs) (branch_dests (code ! pc))
     else if pc + 1 < length code then [pc + 1] else [])"

lemma get_successors_Done:
  assumes "targets_defined code offs" "pc < length code"
  shows "get_successors pc code offs = Done (succs code offs pc)"
proof -
  have "set (branch_dests (code ! pc)) \<subseteq> dom offs" using assms by (simp add: targets_defined_def)
  then have "osequence (map (at offs) (branch_dests (code ! pc))) = Done (map (the \<circ> offs) (branch_dests (code ! pc)))"
    unfolding osequence_Done_iff by (auto simp: domIff split: option.split)
  then show ?thesis using assms(2) by (simp add: get_successors_def code_at_def succs_def)
qed

lemma succs_bound: "targets_defined code offs \<Longrightarrow> pc < length code \<Longrightarrow> q \<in> set (succs code offs pc) \<Longrightarrow> q < length code"
proof -
  assume a: "targets_defined code offs" "pc < length code" "q \<in> set (succs code offs pc)"
  show "q < length code"
  proof (cases "is_branch (code ! pc)")
    case True
    then obtain l where l: "l \<in> set (branch_dests (code ! pc))" "q = the (offs l)" using a(3) by (auto simp: succs_def)
    have "l \<in> dom offs" using a(1,2) l(1) by (auto simp: targets_defined_def)
    then have "is_label code q l" using label_offsets_Done [of code offs l q] a(1) l(2) by (auto simp: targets_defined_def)
    then show ?thesis by (simp add: is_label_def)
  next
    case False
    then show ?thesis using a(3) by (auto simp: succs_def split: if_splits)
  qed
qed

section \<open>Renaming is a map on the temporaries\<close>

fun rename_node :: "(TempIndex \<Rightarrow> TempIndex) \<Rightarrow> BorrowNode \<Rightarrow> BorrowNode" where
  "rename_node f (LocalRoot t) = LocalRoot (f t)"
| "rename_node f (Reference t) = Reference (f t)"
| "rename_node f node = node"

definition rename_op :: "(TempIndex \<Rightarrow> TempIndex) \<Rightarrow> Operation \<Rightarrow> Operation" where
  "rename_op f oper = (case oper of OpWriteBack node edge \<Rightarrow> OpWriteBack (rename_node f node) edge
     | OpIsParent node edge \<Rightarrow> OpIsParent (rename_node f node) edge | _ \<Rightarrow> oper)"

definition is_write_back :: "Operation \<Rightarrow> bool" where
  "is_write_back oper = (case oper of OpWriteBack _ _ \<Rightarrow> True | _ \<Rightarrow> False)"

text \<open>\<open>g\<close> renames the destinations, \<open>f\<close> the sources.\<close>

fun rename_bytecode :: "(TempIndex \<Rightarrow> TempIndex) \<Rightarrow> (TempIndex \<Rightarrow> TempIndex) \<Rightarrow> Bytecode \<Rightarrow> Bytecode" where
  "rename_bytecode g f (BLoad attr d c) = BLoad attr (g d) c"
| "rename_bytecode g f (BAssign attr d s k) = BAssign attr (g d) (f s) k"
| "rename_bytecode g f (BCall attr ds oper ss aa) =
     BCall attr (if is_write_back oper then [] else map g ds) (rename_op f oper) (map f ss) aa"
| "rename_bytecode g f (BRet attr ss) = BRet attr (map f ss)"
| "rename_bytecode g f (BBranch attr l1 l2 c) = BBranch attr l1 l2 (f c)"
| "rename_bytecode g f (BVariantSwitch attr idx ls) = BVariantSwitch attr (f idx) ls"
| "rename_bytecode g f (BAbort attr c) = BAbort attr (f c)"
| "rename_bytecode g f (BProp attr k e) = BProp attr k (rename_exp f e)"
| "rename_bytecode g f b = b"

fun plain_props :: "Bytecode \<Rightarrow> bool" where
  "plain_props (BProp _ _ e) = plain_quants e"
| "plain_props _ = True"

lemma remap_node_rename:
  "remap_node (\<lambda>is_src x. sret (if is_src then f x else g x)) node = sret (rename_node f node)"
  by (cases node) auto

lemma remap_rename_bytecode:
  assumes "plain_props b"
  shows "remap_vars_internal (\<lambda>is_src x. sret (if is_src then f x else g x)) b = (sret (rename_bytecode g f b) :: ('s, Bytecode) comp)"
proof (cases b)
  case (BCall attr ds oper ss aa)
  have s: "smapM (\<lambda>x. sret (f x)) ss = sret (map f ss)" for ss :: "nat list" and f :: "nat \<Rightarrow> nat"
    by (rule smapM_sret) simp
  show ?thesis
    by (cases oper) (simp_all add: BCall remap_call_def rename_op_def is_write_back_def remap_node_rename s)
next
  case (BProp attr k e)
  have "remap_exp (\<lambda>x. sret (f x)) e = (rewrite_exp (renamer f) e :: ('s, ExpData) comp)"
    by (simp only: remap_exp_def renamer_def)
  then have "remap_exp (\<lambda>x. sret (f x)) e = (sret (rename_exp f e) :: ('s, ExpData) comp)"
    using assms BProp by (simp add: remap_rename)
  then show ?thesis by (simp add: BProp)
qed (auto intro: smapM_sret)

lemma remap_src_vars_rename:
  "plain_props b \<Longrightarrow> remap_src_vars (\<lambda>x. sret (f x)) b = sret (rename_bytecode (\<lambda>x. x) f b)"
  using remap_rename_bytecode [of b f "\<lambda>x. x"]
  unfolding remap_src_vars_def
  by (simp add: if_distrib [of sret] cong: if_cong)

lemma dests_rename: "dests (rename_bytecode g f b) = (case b of BCall _ ds oper _ _ \<Rightarrow> if is_write_back oper then [] else map g ds
    | _ \<Rightarrow> map g (dests b))"
  by (cases b) auto

lemma srcs_rename: "srcs (rename_bytecode g f b) = map f (srcs b)"
  by (cases b) auto

section \<open>Properties\<close>


end
