(* ===== verification/Cfg.thy ===== *)
theory Cfg
  imports Bytecode Dominators
begin

text \<open>
  The control flow graph of a function (\<open>stackless_control_flow_graph.rs\<close>): its basic
  blocks, forward and backward, and the extra edges for loops that only return.  Blocks are
  keyed by numbers, \<open>0\<close> the entry and \<open>1\<close> the exit; the code iterates over them in order.
  The table from offsets to blocks is only appended to, so it is a list, and the size of the
  map is the length of the list.
\<close>

section \<open>Blocks\<close>

type_synonym BlockId = nat

datatype BlockContent = Basic CodeOffset CodeOffset | Dummy

record Block =
  blk_successors :: "BlockId list"
  blk_content :: BlockContent

record StacklessControlFlowGraph =
  entry_block_id :: BlockId
  blocks :: "BlockId \<rightharpoonup> Block"
  backward :: bool
  ignore_return_abort :: bool

definition DUMMY_ENTRANCE :: BlockId where "DUMMY_ENTRANCE = 0"
definition DUMMY_EXIT :: BlockId where "DUMMY_EXIT = 1"

type_synonym block_keys = "(CodeOffset \<times> BlockId) list"

definition get_block_id :: "CodeOffset \<Rightarrow> block_keys \<Rightarrow> BlockId \<times> block_keys" where
  "get_block_id offset keys = (case map_of keys offset of
     Some i \<Rightarrow> (i, keys)
   | None \<Rightarrow> (length keys + 2, keys @ [(offset, length keys + 2)]))"

fun get_block_ids :: "CodeOffset list \<Rightarrow> block_keys \<Rightarrow> BlockId list \<times> block_keys" where
  "get_block_ids [] keys = ([], keys)"
| "get_block_ids (q # qs) keys =
     (let (i, keys) = get_block_id q keys; (is, keys) = get_block_ids qs keys in (i # is, keys))"

definition is_end_of_block :: "CodeOffset \<Rightarrow> Bytecode list \<Rightarrow> CodeOffset set \<Rightarrow> bool" where
  "is_end_of_block pc code ids \<longleftrightarrow> pc + 1 = length code \<or> pc + 1 \<in> ids"

fun is_checked_call :: "Bytecode \<Rightarrow> bool" where
  "is_checked_call (BCall _ _ _ _ aa) = (aa \<noteq> None)"
| "is_checked_call _ = False"

definition record_block_ids ::
  "CodeOffset \<Rightarrow> Bytecode list \<Rightarrow> (Label \<rightharpoonup> CodeOffset) \<Rightarrow> bool \<Rightarrow> CodeOffset set \<Rightarrow> CodeOffset set outcome" where
  "record_block_ids pc code offsets ignore_aborts ids =
     obind (code_at code pc) (\<lambda>b.
     obind (ofold (\<lambda>l ids. omap (\<lambda>offs. insert offs ids) (at offsets l)) (branch_dests b) ids) (\<lambda>ids.
       Done (if \<not> ignore_aborts \<and> is_checked_call b then insert (pc + 1) ids else ids)))"

text \<open>The successors of the block that ends at \<open>pc\<close>, from those of its last instruction.\<close>

definition end_successors ::
  "Bytecode list \<Rightarrow> bool \<Rightarrow> CodeOffset \<Rightarrow> BlockId list \<Rightarrow> block_keys \<Rightarrow> (BlockId list \<times> block_keys) outcome" where
  "end_successors code ignore pc ss keys =
     (let b = code ! pc in
      if \<not> ignore then Done (if is_exit b \<or> is_checked_call b then ss @ [DUMMY_EXIT] else ss, keys)
      else if pc + 1 < length code then
        (if is_exit b \<noteq> (ss = []) then Panicked
         else if is_exit b then (let (i, keys) = get_block_id (pc + 1) keys in Done (ss @ [i], keys))
         else Done (ss, keys))
      else if is_exit b \<or> is_branch b \<or> ss = [] then Done (ss @ [DUMMY_EXIT], keys)
      else Panicked)"

type_synonym collect_state = "(BlockId \<rightharpoonup> Block) \<times> block_keys \<times> CodeOffset"

definition collect_step ::
  "Bytecode list \<Rightarrow> (Label \<rightharpoonup> CodeOffset) \<Rightarrow> CodeOffset set \<Rightarrow> bool \<Rightarrow> CodeOffset \<Rightarrow> collect_state \<Rightarrow> collect_state outcome" where
  "collect_step code offsets ids ignore pc = (\<lambda>(blks, keys, block_entry).
     if is_end_of_block pc code ids then
       obind (get_successors pc code offsets) (\<lambda>qs.
       let (ss, keys) = get_block_ids qs keys in
       obind (end_successors code ignore pc ss keys) (\<lambda>(ss, keys).
       let (key, keys) = get_block_id block_entry keys in
       Done (blks(key \<mapsto> \<lparr>blk_successors = ss, blk_content = Basic block_entry pc\<rparr>), keys, pc + 1)))
     else Done (blks, keys, block_entry))"

section \<open>Loops that only return\<close>

definition block_edges :: "(BlockId \<rightharpoonup> Block) \<Rightarrow> BlockId list \<Rightarrow> (BlockId \<times> BlockId) list" where
  "block_edges blks nodes = concat (map (\<lambda>b. map (Pair b) (blk_successors (the (blks b)))) nodes)"

text \<open>The back edges, with the latch known to the dominators.\<close>

definition anchor_back_edge ::
  "BlockId DomRelation \<Rightarrow> BlockId \<times> BlockId \<Rightarrow> (BlockId \<times> BlockId) list \<Rightarrow> (BlockId \<times> BlockId) list outcome" where
  "anchor_back_edge d e acc =
     (if snd e \<noteq> DUMMY_EXIT \<and> dr_is_reachable d (fst e)
      then omap (\<lambda>b. if b then acc @ [e] else acc) (is_dominated_by d (fst e) (snd e))
      else Done acc)"

definition anchor_body ::
  "BlockId graph \<Rightarrow> BlockId \<times> BlockId \<Rightarrow> (BlockId \<rightharpoonup> BlockId set) \<Rightarrow> (BlockId \<rightharpoonup> BlockId set) outcome" where
  "anchor_body g e bodies = omap (\<lambda>nl.
     bodies(snd e \<mapsto> (case bodies (snd e) of None \<Rightarrow> {} | Some B \<Rightarrow> B) \<union> loop_body nl)) (natural_loop g e)"

definition anchor_latch ::
  "(BlockId \<rightharpoonup> Block) \<Rightarrow> block_keys \<Rightarrow> Bytecode list \<Rightarrow> BlockId DomRelation \<Rightarrow> (BlockId \<rightharpoonup> BlockId set)
    \<Rightarrow> BlockId \<times> BlockId \<Rightarrow> (BlockId \<times> BlockId) list \<Rightarrow> (BlockId \<times> BlockId) list outcome" where
  "anchor_latch blks keys code postdom bodies e added =
     (if dr_is_reachable postdom (fst e) then Done added
      else obind (at blks (fst e)) (\<lambda>blk. case blk_content blk of
          Dummy \<Rightarrow> Panicked
        | Basic _ upper \<Rightarrow>
            if upper + 1 < length code then
              obind (at (map_of keys) (upper + 1)) (\<lambda>next_block.
              obind (at bodies (snd e)) (\<lambda>body.
                Done (if next_block \<notin> body then added @ [(fst e, next_block)] else added)))
            else Panicked))"

definition anchor_add :: "BlockId \<times> BlockId \<Rightarrow> (BlockId \<rightharpoonup> Block) \<Rightarrow> (BlockId \<rightharpoonup> Block) outcome" where
  "anchor_add e blks = obind (at blks (fst e)) (\<lambda>blk.
     Done (if snd e \<in> set (blk_successors blk) then blks
           else blks(fst e \<mapsto> blk\<lparr>blk_successors := blk_successors blk @ [snd e]\<rparr>)))"

definition anchor_return_only_loops ::
  "(BlockId \<rightharpoonup> Block) \<Rightarrow> block_keys \<Rightarrow> Bytecode list \<Rightarrow> (BlockId \<rightharpoonup> Block) outcome" where
  "anchor_return_only_loops blks keys code =
     (let nodes = sorted_list_of_set (dom blks);
          edges = block_edges blks nodes;
          rev_edges = map (\<lambda>(u, v). (v, u)) edges;
          g = graph_new DUMMY_ENTRANCE nodes edges
      in
       obind (dom_relation_new g) (\<lambda>d.
       obind (dom_relation_new (graph_new DUMMY_EXIT nodes rev_edges)) (\<lambda>postdom.
       obind (ofold (anchor_back_edge d) edges []) (\<lambda>back_edges.
       obind (ofold (anchor_body g) back_edges Map.empty) (\<lambda>bodies.
       obind (ofold (anchor_latch blks keys code postdom bodies) back_edges []) (\<lambda>added.
         ofold anchor_add added blks))))))"

section \<open>Construction\<close>

definition collect_blocks :: "Bytecode list \<Rightarrow> bool \<Rightarrow> (BlockId \<rightharpoonup> Block) outcome" where
  "collect_blocks code ignore =
     (if code = [] then Panicked
      else
        obind (label_offsets code) (\<lambda>offsets.
        obind (ofold (\<lambda>pc. record_block_ids pc code offsets ignore) [0..<length code] {0}) (\<lambda>ids.
        obind (ofold (collect_step code offsets ids ignore) [0..<length code] (Map.empty, [], 0))
          (\<lambda>(blks, keys, block_entry).
          if block_entry \<noteq> length code then Panicked
          else
            obind (at (map_of keys) 0) (\<lambda>entry_bb.
            let blks = blks(DUMMY_ENTRANCE \<mapsto> \<lparr>blk_successors = [entry_bb], blk_content = Dummy\<rparr>,
                            DUMMY_EXIT \<mapsto> \<lparr>blk_successors = [], blk_content = Dummy\<rparr>)
            in if ignore then anchor_return_only_loops blks keys code else Done blks)))))"

definition new_forward_with_options :: "Bytecode list \<Rightarrow> bool \<Rightarrow> StacklessControlFlowGraph outcome" where
  "new_forward_with_options code ignore = omap (\<lambda>blks.
     \<lparr>entry_block_id = DUMMY_ENTRANCE, blocks = blks, backward = False, ignore_return_abort = ignore\<rparr>)
     (collect_blocks code ignore)"

definition new_forward :: "Bytecode list \<Rightarrow> StacklessControlFlowGraph outcome" where
  "new_forward code = new_forward_with_options code False"

text \<open>The predecessors, by a pass over the blocks and their successors.\<close>

definition add_predecessor :: "bool \<Rightarrow> BlockId \<times> BlockId \<Rightarrow> (BlockId \<rightharpoonup> BlockId list) \<Rightarrow> (BlockId \<rightharpoonup> BlockId list) outcome" where
  "add_predecessor from_all_blocks e preds =
     (if from_all_blocks \<and> snd e = DUMMY_EXIT then Done preds
      else omap (\<lambda>ps. preds(snd e \<mapsto> ps @ [fst e])) (at preds (snd e)))"

definition new_backward_with_options :: "Bytecode list \<Rightarrow> bool \<Rightarrow> bool \<Rightarrow> StacklessControlFlowGraph outcome" where
  "new_backward_with_options code from_all_blocks ignore =
     obind (collect_blocks code ignore) (\<lambda>blks.
     let nodes = sorted_list_of_set (dom blks) in
     obind (ofold (add_predecessor from_all_blocks) (block_edges blks nodes) (\<lambda>b. if b \<in> set nodes then Some [] else None)) (\<lambda>preds.
     obind (if from_all_blocks
            then omap (\<lambda>ps. preds(DUMMY_EXIT \<mapsto> ps @ filter (\<lambda>b. b \<noteq> DUMMY_ENTRANCE \<and> b \<noteq> DUMMY_EXIT) nodes)) (at preds DUMMY_EXIT)
            else Done preds) (\<lambda>preds.
     Done \<lparr>entry_block_id = DUMMY_EXIT,
       blocks = (\<lambda>b. case (preds b, blks b) of
         (Some ps, Some blk) \<Rightarrow> Some \<lparr>blk_successors = ps, blk_content = blk_content blk\<rparr> | _ \<Rightarrow> None),
       backward = True, ignore_return_abort = ignore\<rparr>)))"

definition new_backward :: "Bytecode list \<Rightarrow> bool \<Rightarrow> StacklessControlFlowGraph outcome" where
  "new_backward code from_all_blocks = new_backward_with_options code from_all_blocks False"

definition one_block :: "Bytecode list \<Rightarrow> StacklessControlFlowGraph outcome" where
  "one_block code = (if code = [] then Panicked else Done
     \<lparr>entry_block_id = DUMMY_ENTRANCE,
      blocks = [2 \<mapsto> \<lparr>blk_successors = [2, DUMMY_EXIT], blk_content = Basic 0 (length code - 1)\<rparr>,
        DUMMY_ENTRANCE \<mapsto> \<lparr>blk_successors = [2], blk_content = Dummy\<rparr>,
        DUMMY_EXIT \<mapsto> \<lparr>blk_successors = [], blk_content = Dummy\<rparr>],
      backward = False, ignore_return_abort = False\<rparr>)"

section \<open>Queries\<close>

definition cfg_block :: "StacklessControlFlowGraph \<Rightarrow> BlockId \<Rightarrow> Block outcome" where
  "cfg_block cfg b = at (blocks cfg) b"

definition cfg_successors :: "StacklessControlFlowGraph \<Rightarrow> BlockId \<Rightarrow> BlockId list outcome" where
  "cfg_successors cfg b = omap blk_successors (cfg_block cfg b)"

definition cfg_content :: "StacklessControlFlowGraph \<Rightarrow> BlockId \<Rightarrow> BlockContent outcome" where
  "cfg_content cfg b = omap blk_content (cfg_block cfg b)"

definition cfg_blocks :: "StacklessControlFlowGraph \<Rightarrow> BlockId list" where
  "cfg_blocks cfg = sorted_list_of_set (dom (blocks cfg))"

definition exit_block :: "StacklessControlFlowGraph \<Rightarrow> BlockId" where
  "exit_block cfg = (if backward cfg then DUMMY_ENTRANCE else DUMMY_EXIT)"

definition instr_indexes :: "StacklessControlFlowGraph \<Rightarrow> BlockId \<Rightarrow> CodeOffset list option outcome" where
  "instr_indexes cfg b = omap (\<lambda>c. case c of Basic lower upper \<Rightarrow> Some [lower..<upper + 1] | Dummy \<Rightarrow> None) (cfg_content cfg b)"

definition is_dummmy :: "StacklessControlFlowGraph \<Rightarrow> BlockId \<Rightarrow> bool outcome" where
  "is_dummmy cfg b = omap (\<lambda>c. c = Dummy) (cfg_content cfg b)"

definition block_start_pc :: "StacklessControlFlowGraph \<Rightarrow> BlockId \<Rightarrow> CodeOffset option outcome" where
  "block_start_pc cfg b = omap (\<lambda>c. case c of Basic lower _ \<Rightarrow> Some lower | Dummy \<Rightarrow> None) (cfg_content cfg b)"

definition pc_to_block :: "StacklessControlFlowGraph \<Rightarrow> CodeOffset \<Rightarrow> BlockId option" where
  "pc_to_block cfg pc = find (\<lambda>b. case blocks cfg b of
     Some blk \<Rightarrow> (case blk_content blk of Basic lower upper \<Rightarrow> lower \<le> pc \<and> pc \<le> upper | Dummy \<Rightarrow> False) | None \<Rightarrow> False)
     (cfg_blocks cfg)"

section \<open>Leaders\<close>

text \<open>The offsets where a block starts, and the flow of control between offsets: in the mode
  that ignores returns an exit in the middle of the code falls through.\<close>

definition leaders :: "Bytecode list \<Rightarrow> (Label \<rightharpoonup> CodeOffset) \<Rightarrow> bool \<Rightarrow> CodeOffset set" where
  "leaders code offs ignore = {0} \<union> {the (offs l) |l b. b \<in> set code \<and> l \<in> set (branch_dests b)}
     \<union> {pc + 1 |pc. \<not> ignore \<and> pc < length code \<and> is_checked_call (code ! pc)}"

definition flow :: "Bytecode list \<Rightarrow> (Label \<rightharpoonup> CodeOffset) \<Rightarrow> bool \<Rightarrow> CodeOffset \<Rightarrow> CodeOffset list" where
  "flow code offs ignore pc =
     (if ignore \<and> is_exit (code ! pc) \<and> pc + 1 < length code then [pc + 1] else succs code offs pc)"

definition flows_to_exit :: "Bytecode list \<Rightarrow> bool \<Rightarrow> CodeOffset \<Rightarrow> bool" where
  "flows_to_exit code ignore pc \<longleftrightarrow>
     (if ignore then pc + 1 = length code else is_exit (code ! pc) \<or> is_checked_call (code ! pc))"

text \<open>Code as the generator emits it: an instruction that jumps ends its block, and a switch
  has a branch.\<close>

definition well_blocked :: "Bytecode list \<Rightarrow> (Label \<rightharpoonup> CodeOffset) \<Rightarrow> bool \<Rightarrow> bool" where
  "well_blocked code offs ignore \<longleftrightarrow> code \<noteq> [] \<and> targets_defined code offs
     \<and> (\<forall>pc. pc + 1 < length code \<and> is_branch (code ! pc) \<longrightarrow> pc + 1 \<in> leaders code offs ignore)
     \<and> (\<forall>b\<in>set code. is_branch b \<and> \<not> is_exit b \<longrightarrow> branch_dests b \<noteq> [])"

lemma record_ids_step:
  assumes "targets_defined code offs" "k < length code"
  shows "record_block_ids k code offs ignore ids
    = Done (ids \<union> {the (offs l) |l. l \<in> set (branch_dests (code ! k))} \<union> {k + 1 |_ :: unit. \<not> ignore \<and> is_checked_call (code ! k)})"
proof -
  let ?f = "\<lambda>l ids. omap (\<lambda>o'. insert o' ids) (at offs l)"
  have "?f l ids = Done (insert (the (offs l)) ids)" if "l \<in> set (branch_dests (code ! k))" for l ids
  proof -
    have "l \<in> dom offs" using assms that by (auto simp: targets_defined_def)
    then show ?thesis by (auto split: option.split)
  qed
  then have "ofold ?f (branch_dests (code ! k)) ids = Done (fold (\<lambda>l. insert (the (offs l))) (branch_dests (code ! k)) ids)"
    by (rule ofold_fold)
  moreover have "fold (\<lambda>l. insert (the (offs l))) ls ids = ids \<union> {the (offs l) |l. l \<in> set ls}" for ls
    by (induction ls arbitrary: ids) auto
  ultimately show ?thesis using assms(2) by (simp add: record_block_ids_def code_at_def)
qed

lemma record_ids_total:
  assumes "targets_defined code offs"
  shows "ofold (\<lambda>pc. record_block_ids pc code offs ignore) [0..<length code] {0} = Done (leaders code offs ignore)"
proof -
  let ?P = "\<lambda>k ids. ids = {0} \<union> {the (offs l) |l pc. pc < k \<and> l \<in> set (branch_dests (code ! pc))}
     \<union> {pc + 1 |pc. \<not> ignore \<and> pc < k \<and> is_checked_call (code ! pc)}"
  have "\<exists>ids. ofold (\<lambda>pc. record_block_ids pc code offs ignore) [0..<length code] {0} = Done ids \<and> ?P (length code) ids"
  proof (rule ofold_upt)
    fix k ids assume "k < length code" "?P k ids"
    then show "\<exists>s'. record_block_ids k code offs ignore ids = Done s' \<and> ?P (Suc k) s'"
      using record_ids_step [OF assms] by (auto simp: less_Suc_eq)
  qed auto
  moreover have "?P (length code) ids \<Longrightarrow> ids = leaders code offs ignore" for ids
    unfolding leaders_def by (auto simp: in_set_conv_nth)
  ultimately show ?thesis by auto
qed

section \<open>Keys\<close>

definition keys_ok :: "block_keys \<Rightarrow> bool" where
  "keys_ok keys \<longleftrightarrow> distinct (map fst keys) \<and> map snd keys = [2..<length keys + 2]"

lemma keys_ok_inj: "keys_ok keys \<Longrightarrow> map_of keys p = Some i \<Longrightarrow> map_of keys q = Some i \<Longrightarrow> p = q"
proof -
  assume a: "keys_ok keys" "map_of keys p = Some i" "map_of keys q = Some i"
  have "distinct (map snd keys)" using a(1) by (simp add: keys_ok_def)
  moreover have "(p, i) \<in> set keys" "(q, i) \<in> set keys" using a(2,3) by (auto dest: map_of_SomeD)
  ultimately have "(p, i) = (q, i)" unfolding distinct_map by (metis inj_onD snd_conv)
  then show "p = q" by simp
qed

lemma keys_ok_ge2: "keys_ok keys \<Longrightarrow> map_of keys p = Some i \<Longrightarrow> 2 \<le> i"
proof -
  assume a: "keys_ok keys" "map_of keys p = Some i"
  then have "i \<in> set (map snd keys)" by (force dest: map_of_SomeD)
  then have "i \<in> set [2..<length keys + 2]" using a(1) unfolding keys_ok_def by metis
  then show "2 \<le> i" by (simp del: upt_Suc)
qed

lemma get_block_id_spec:
  assumes "keys_ok keys" "get_block_id q keys = (i, keys')"
  shows "keys_ok keys' \<and> map_of keys \<subseteq>\<^sub>m map_of keys' \<and> map_of keys' q = Some i
    \<and> dom (map_of keys') = insert q (dom (map_of keys))"
proof (cases "map_of keys q")
  case None
  then have "q \<notin> fst ` set keys" by (simp add: map_of_eq_None_iff)
  then show ?thesis using assms None
    by (auto simp: get_block_id_def keys_ok_def map_le_def map_add_def split: option.splits)
next
  case (Some j)
  then show ?thesis using assms by (auto simp: get_block_id_def)
qed

lemma get_block_ids_spec:
  assumes "keys_ok keys" "get_block_ids qs keys = (is, keys')"
  shows "keys_ok keys' \<and> map_of keys \<subseteq>\<^sub>m map_of keys' \<and> is = map (the \<circ> map_of keys') qs
    \<and> dom (map_of keys') = set qs \<union> dom (map_of keys)"
  using assms
proof (induction qs arbitrary: keys "is" keys')
  case (Cons q qs)
  obtain i k1 is1 where k1: "get_block_id q keys = (i, k1)" "get_block_ids qs k1 = (is1, keys')" "is = i # is1"
    using Cons.prems(2) by (auto split: prod.splits)
  have a: "keys_ok k1" "map_of keys \<subseteq>\<^sub>m map_of k1" "map_of k1 q = Some i" "dom (map_of k1) = insert q (dom (map_of keys))"
    using get_block_id_spec [OF Cons.prems(1) k1(1)] by auto
  have b: "keys_ok keys'" "map_of k1 \<subseteq>\<^sub>m map_of keys'" "is1 = map (the \<circ> map_of keys') qs"
    "dom (map_of keys') = set qs \<union> dom (map_of k1)"
    using Cons.IH [OF a(1) k1(2)] by auto
  have "map_of keys' q = Some i" using a(3) b(2) by (auto simp: map_le_def dest: bspec [of _ _ q])
  moreover have "map_of keys \<subseteq>\<^sub>m map_of keys'" using a(2) b(2) by (rule map_le_trans)
  ultimately show ?case using a b k1(3) by auto
qed auto

section \<open>The blocks\<close>

text \<open>What a block of the table says: where it starts and ends, and its successors.\<close>

definition block_spec :: "Bytecode list \<Rightarrow> (Label \<rightharpoonup> CodeOffset) \<Rightarrow> bool \<Rightarrow> block_keys \<Rightarrow> CodeOffset \<Rightarrow> CodeOffset \<Rightarrow> BlockId list \<Rightarrow> bool" where
  "block_spec code offs ignore keys l u ss \<longleftrightarrow>
     l \<le> u \<and> u < length code \<and> l \<in> leaders code offs ignore
     \<and> is_end_of_block u code (leaders code offs ignore)
     \<and> (\<forall>pc. l \<le> pc \<and> pc < u \<longrightarrow> \<not> is_end_of_block pc code (leaders code offs ignore))
     \<and> set (flow code offs ignore u) \<subseteq> dom (map_of keys)
     \<and> ss = map (the \<circ> map_of keys) (flow code offs ignore u) @ (if flows_to_exit code ignore u then [DUMMY_EXIT] else [])"

lemma block_spec_mono:
  assumes "block_spec code offs ignore keys l u ss" "map_of keys \<subseteq>\<^sub>m map_of keys'"
  shows "block_spec code offs ignore keys' l u ss"
proof -
  have "map_of keys' q = map_of keys q" if "q \<in> dom (map_of keys)" for q
    using assms(2) that by (auto simp: map_le_def dest: bspec)
  moreover have "dom (map_of keys) \<subseteq> dom (map_of keys')" using assms(2) by (rule map_le_implies_dom_le)
  ultimately show ?thesis using assms(1) by (auto simp: block_spec_def subset_iff)
qed

definition collected :: "Bytecode list \<Rightarrow> (Label \<rightharpoonup> CodeOffset) \<Rightarrow> bool \<Rightarrow> CodeOffset \<Rightarrow> collect_state \<Rightarrow> bool" where
  "collected code offs ignore k = (\<lambda>(blks, keys, entry).
     keys_ok keys \<and> entry \<le> k \<and> (entry < length code \<longrightarrow> entry \<in> leaders code offs ignore)
     \<and> (\<forall>pc. entry \<le> pc \<and> pc < k \<longrightarrow> \<not> is_end_of_block pc code (leaders code offs ignore))
     \<and> dom (map_of keys) \<subseteq> leaders code offs ignore \<inter> {..<length code}
     \<and> (\<forall>b blk. blks b = Some blk \<longrightarrow> (\<exists>l u ss. blk = \<lparr>blk_successors = ss, blk_content = Basic l u\<rparr>
          \<and> map_of keys l = Some b \<and> u < entry \<and> block_spec code offs ignore keys l u ss))
     \<and> (\<forall>pc < entry. \<exists>b l u ss. blks b = Some \<lparr>blk_successors = ss, blk_content = Basic l u\<rparr> \<and> l \<le> pc \<and> pc \<le> u))"

lemma flow_leaders:
  assumes "well_blocked code offs ignore" "pc < length code" "is_end_of_block pc code (leaders code offs ignore)"
  shows "set (flow code offs ignore pc) \<subseteq> leaders code offs ignore \<inter> {..<length code}"
proof
  fix q assume q: "q \<in> set (flow code offs ignore pc)"
  show "q \<in> leaders code offs ignore \<inter> {..<length code}"
  proof (cases "ignore \<and> is_exit (code ! pc) \<and> pc + 1 < length code")
    case True
    then show ?thesis using q assms(3) by (auto simp: flow_def is_end_of_block_def)
  next
    case False
    then have s: "q \<in> set (succs code offs pc)" using q by (auto simp: flow_def split: if_splits)
    have "q < length code" using assms(1,2) s by (auto simp: well_blocked_def intro: succs_bound)
    moreover have "q \<in> leaders code offs ignore"
    proof (cases "is_branch (code ! pc)")
      case True
      then show ?thesis using s assms(2) by (auto simp: succs_def leaders_def intro: nth_mem)
    next
      case False
      then show ?thesis using s assms(3) by (auto simp: succs_def is_end_of_block_def split: if_splits)
    qed
    ultimately show ?thesis by simp
  qed
qed

lemma exit_no_dests: "is_exit b \<Longrightarrow> is_branch b \<and> branch_dests b = []"
  by (cases b) (auto simp: is_branch_def)

text \<open>The successors of the block, in both modes.\<close>

lemma end_successors_spec:
  assumes "well_blocked code offs ignore" "u < length code" "keys_ok keys"
    "get_block_ids (succs code offs u) keys = (is, k1)"
  shows "\<exists>ss k2. end_successors code ignore u is k1 = Done (ss, k2) \<and> keys_ok k2
    \<and> map_of keys \<subseteq>\<^sub>m map_of k2 \<and> dom (map_of k2) = set (flow code offs ignore u) \<union> dom (map_of keys)
    \<and> ss = map (the \<circ> map_of k2) (flow code offs ignore u) @ (if flows_to_exit code ignore u then [DUMMY_EXIT] else [])"
proof -
  have k1: "keys_ok k1" "map_of keys \<subseteq>\<^sub>m map_of k1" "is = map (the \<circ> map_of k1) (succs code offs u)"
    "dom (map_of k1) = set (succs code offs u) \<union> dom (map_of keys)"
    using get_block_ids_spec [OF assms(3,4)] by auto
  have empty: "is_exit (code ! u) \<longleftrightarrow> succs code offs u = []" if "u + 1 < length code"
  proof -
    have "is_branch (code ! u) \<and> \<not> is_exit (code ! u) \<longrightarrow> branch_dests (code ! u) \<noteq> []"
      using assms(1,2) by (auto simp: well_blocked_def)
    then show ?thesis using that exit_no_dests [of "code ! u"] by (auto simp: succs_def)
  qed
  have last: "is_exit (code ! u) \<or> is_branch (code ! u) \<or> is = []" if "\<not> u + 1 < length code"
    using that k1(3) by (auto simp: succs_def)
  show ?thesis
  proof (cases "ignore \<and> is_exit (code ! u) \<and> u + 1 < length code")
    case True
    obtain i k2 where k2: "get_block_id (u + 1) k1 = (i, k2)" by fastforce
    have "is = []" using True empty k1(3) by simp
    moreover have "keys_ok k2 \<and> map_of k1 \<subseteq>\<^sub>m map_of k2 \<and> map_of k2 (u + 1) = Some i
        \<and> dom (map_of k2) = insert (u + 1) (dom (map_of k1))"
      by (rule get_block_id_spec [OF k1(1) k2])
    moreover have "succs code offs u = []" using True empty by simp
    ultimately show ?thesis using True k2 k1 
      by (auto simp: end_successors_def flow_def flows_to_exit_def intro: map_le_trans)
  next
    case False
    then have f: "flow code offs ignore u = succs code offs u" by (auto simp: flow_def)
    have "end_successors code ignore u is k1 = Done (is @ (if flows_to_exit code ignore u then [DUMMY_EXIT] else []), k1)"
      using False empty last k1(3) assms(2) by (auto simp: end_successors_def flows_to_exit_def Let_def)
    then show ?thesis using k1 f by auto
  qed
qed

lemma collect_step_total:
  assumes wb: "well_blocked code offs ignore" and k: "k < length code" and inv: "collected code offs ignore k st"
  shows "\<exists>st'. collect_step code offs (leaders code offs ignore) ignore k st = Done st' \<and> collected code offs ignore (Suc k) st'"
proof -
  obtain blks keys entry where st: "st = (blks, keys, entry)" by (cases st) auto
  let ?L = "leaders code offs ignore"
  show ?thesis
  proof (cases "is_end_of_block k code ?L")
    case False
    then show ?thesis using inv unfolding st collect_step_def collected_def by (auto simp: less_Suc_eq)
  next
    case True
    have ko: "keys_ok keys" and entry: "entry \<le> k" "entry \<in> ?L"
      and no_end: "\<And>pc. entry \<le> pc \<Longrightarrow> pc < k \<Longrightarrow> \<not> is_end_of_block pc code ?L"
      and dk: "dom (map_of keys) \<subseteq> ?L \<inter> {..<length code}"
      and blk: "\<And>b blk. blks b = Some blk \<Longrightarrow> (\<exists>l u ss. blk = \<lparr>blk_successors = ss, blk_content = Basic l u\<rparr>
          \<and> map_of keys l = Some b \<and> u < entry \<and> block_spec code offs ignore keys l u ss)"
      and cover: "\<And>pc. pc < entry \<Longrightarrow> \<exists>b l u ss. blks b = Some \<lparr>blk_successors = ss, blk_content = Basic l u\<rparr> \<and> l \<le> pc \<and> pc \<le> u"
      using inv k unfolding st collected_def by auto
    have gs: "get_successors k code offs = Done (succs code offs k)"
      using wb k by (intro get_successors_Done) (auto simp: well_blocked_def)
    obtain "is" k1 where k1: "get_block_ids (succs code offs k) keys = (is, k1)" by fastforce
    obtain ss k2 where k2: "end_successors code ignore k is k1 = Done (ss, k2)" "keys_ok k2" "map_of keys \<subseteq>\<^sub>m map_of k2"
      "dom (map_of k2) = set (flow code offs ignore k) \<union> dom (map_of keys)"
      "ss = map (the \<circ> map_of k2) (flow code offs ignore k) @ (if flows_to_exit code ignore k then [DUMMY_EXIT] else [])"
      using end_successors_spec [OF wb k ko k1] by blast
    obtain key k3 where k3: "get_block_id entry k2 = (key, k3)" by fastforce
    have k3': "keys_ok k3" "map_of k2 \<subseteq>\<^sub>m map_of k3" "map_of k3 entry = Some key" "dom (map_of k3) = insert entry (dom (map_of k2))"
      using get_block_id_spec [OF k2(2) k3] by auto
    have le: "map_of keys \<subseteq>\<^sub>m map_of k3" using k2(3) k3'(2) by (rule map_le_trans)
    let ?b = "\<lparr>blk_successors = ss, blk_content = Basic entry k\<rparr>"
    have step: "collect_step code offs ?L ignore k st = Done (blks(key \<mapsto> ?b), k3, k + 1)"
      by (simp add: st collect_step_def True gs k1 k2(1) k3)
    have fl: "set (flow code offs ignore k) \<subseteq> ?L \<inter> {..<length code}" by (rule flow_leaders [OF wb k True])
    have dom3: "dom (map_of k3) \<subseteq> ?L \<inter> {..<length code}"
      using k3'(4) k2(4) fl dk entry k by auto
    have "block_spec code offs ignore k2 entry k ss"
      using entry k True no_end k2(4,5) by (auto simp: block_spec_def)
    then have spec: "block_spec code offs ignore k3 entry k ss" using k3'(2) by (rule block_spec_mono)
    have fresh: "blks key = None"
    proof (rule ccontr)
      assume "blks key \<noteq> None"
      then obtain l u ss' where "map_of keys l = Some key" "u < entry" "block_spec code offs ignore keys l u ss'"
        using blk by fastforce
      moreover from this have "map_of k3 l = Some key" using le by (force simp: map_le_def)
      ultimately show False using keys_ok_inj [OF k3'(1) k3'(3), of l] by (auto simp: block_spec_def)
    qed
    have blk3: "\<exists>l u ss. blk = \<lparr>blk_successors = ss, blk_content = Basic l u\<rparr>
          \<and> map_of k3 l = Some b \<and> u < k + 1 \<and> block_spec code offs ignore k3 l u ss"
      if "(blks(key \<mapsto> ?b)) b = Some blk" for b blk
    proof (cases "b = key")
      case True
      then show ?thesis using that k3'(3) spec by auto
    next
      case False
      then have "blks b = Some blk" using that by simp
      then obtain l u ss' where "blk = \<lparr>blk_successors = ss', blk_content = Basic l u\<rparr>" "map_of keys l = Some b" "u < entry"
        "block_spec code offs ignore keys l u ss'"
        using blk by blast
      moreover from this have "map_of k3 l = Some b" using le by (force simp: map_le_def)
      ultimately show ?thesis using block_spec_mono [OF _ le] entry(1) by fastforce
    qed
    have cover3: "\<exists>b l u ss. (blks(key \<mapsto> ?b)) b = Some \<lparr>blk_successors = ss, blk_content = Basic l u\<rparr> \<and> l \<le> pc \<and> pc \<le> u"
      if "pc < k + 1" for pc
    proof (cases "pc < entry")
      case True
      then obtain b l u ss' where "blks b = Some \<lparr>blk_successors = ss', blk_content = Basic l u\<rparr>" "l \<le> pc" "pc \<le> u"
        using cover by blast
      moreover from this fresh have "b \<noteq> key" by auto
      ultimately show ?thesis by (rule_tac x = b in exI) auto
    next
      case False
      then show ?thesis using that by (rule_tac x = key in exI) auto
    qed
    have "k + 1 < length code \<Longrightarrow> k + 1 \<in> ?L" using True by (auto simp: is_end_of_block_def)
    then have "collected code offs ignore (Suc k) (blks(key \<mapsto> ?b), k3, k + 1)"
      using k3'(1) dom3 blk3 cover3 unfolding collected_def by auto
    then show ?thesis using step by blast
  qed
qed

lemma collected_end:
  assumes "well_blocked code offs ignore"
  shows "\<exists>blks keys. ofold (collect_step code offs (leaders code offs ignore) ignore) [0..<length code] (Map.empty, [], 0)
      = Done (blks, keys, length code) \<and> collected code offs ignore (length code) (blks, keys, length code)"
proof -
  have "\<exists>st. ofold (collect_step code offs (leaders code offs ignore) ignore) [0..<length code] (Map.empty, [], 0) = Done st
      \<and> collected code offs ignore (length code) st"
    by (rule ofold_upt) (use collect_step_total [OF assms] in \<open>auto simp: collected_def keys_ok_def leaders_def\<close>)
  then obtain blks keys entry where
    st: "ofold (collect_step code offs (leaders code offs ignore) ignore) [0..<length code] (Map.empty, [], 0) = Done (blks, keys, entry)"
      "collected code offs ignore (length code) (blks, keys, entry)"
    by auto
  have "code \<noteq> []" using assms by (simp add: well_blocked_def)
  then have "is_end_of_block (length code - 1) code (leaders code offs ignore)"
    by (simp add: is_end_of_block_def)
  moreover have "\<And>pc. entry \<le> pc \<Longrightarrow> pc < length code \<Longrightarrow> \<not> is_end_of_block pc code (leaders code offs ignore)"
    "entry \<le> length code"
    using st(2) by (simp_all add: collected_def)
  ultimately have "entry = length code" using \<open>code \<noteq> []\<close> by (metis diff_Suc_less le_eq_less_or_eq length_greater_0_conv
        less_Suc_eq_le Suc_pred One_nat_def diff_is_0_eq')
  then show ?thesis using st by blast
qed

text \<open>The table of a function: every offset is in one basic block, and the edges between the
  blocks are the flow of control from their last offsets.\<close>

definition blocks_ok :: "Bytecode list \<Rightarrow> (Label \<rightharpoonup> CodeOffset) \<Rightarrow> bool \<Rightarrow> (BlockId \<rightharpoonup> Block) \<Rightarrow> block_keys \<Rightarrow> bool" where
  "blocks_ok code offs ignore blks keys \<longleftrightarrow>
     keys_ok keys \<and> dom (map_of keys) \<subseteq> leaders code offs ignore \<inter> {..<length code}
     \<and> blks DUMMY_ENTRANCE = Some \<lparr>blk_successors = [the (map_of keys 0)], blk_content = Dummy\<rparr> \<and> 0 \<in> dom (map_of keys)
     \<and> blks DUMMY_EXIT = Some \<lparr>blk_successors = [], blk_content = Dummy\<rparr>
     \<and> (\<forall>b blk. b \<noteq> DUMMY_ENTRANCE \<longrightarrow> b \<noteq> DUMMY_EXIT \<longrightarrow> blks b = Some blk \<longrightarrow>
          (\<exists>l u ss. blk = \<lparr>blk_successors = ss, blk_content = Basic l u\<rparr> \<and> map_of keys l = Some b
             \<and> block_spec code offs ignore keys l u ss))
     \<and> (\<forall>pc < length code. \<exists>b l u ss. blks b = Some \<lparr>blk_successors = ss, blk_content = Basic l u\<rparr> \<and> l \<le> pc \<and> pc \<le> u)"

lemma collected_blocks_ok:
  assumes wb: "well_blocked code offs ignore" and c: "collected code offs ignore (length code) (blks, keys, length code)"
    and zero: "map_of keys 0 = Some e"
  shows "blocks_ok code offs ignore
     (blks(DUMMY_ENTRANCE \<mapsto> \<lparr>blk_successors = [e], blk_content = Dummy\<rparr>,
           DUMMY_EXIT \<mapsto> \<lparr>blk_successors = [], blk_content = Dummy\<rparr>)) keys"
proof -
  have ko: "keys_ok keys" using c by (simp add: collected_def)
  have ge2: "2 \<le> b" if b: "b \<in> dom blks" for b
  proof -
    obtain blk where "blks b = Some blk" using b by blast
    then obtain l where "map_of keys l = Some b" using c unfolding collected_def by blast
    then show ?thesis by (rule keys_ok_ge2 [OF ko])
  qed
  have basic: "DUMMY_ENTRANCE \<notin> dom blks" "DUMMY_EXIT \<notin> dom blks"
    using ge2 [of DUMMY_ENTRANCE] ge2 [of DUMMY_EXIT] by (auto simp: DUMMY_ENTRANCE_def DUMMY_EXIT_def)
  have cover: "\<exists>b l u ss. b \<noteq> DUMMY_ENTRANCE \<and> b \<noteq> DUMMY_EXIT
      \<and> blks b = Some \<lparr>blk_successors = ss, blk_content = Basic l u\<rparr> \<and> l \<le> pc \<and> pc \<le> u" if pc: "pc < length code" for pc
  proof -
    obtain b l u ss where "blks b = Some \<lparr>blk_successors = ss, blk_content = Basic l u\<rparr>" "l \<le> pc" "pc \<le> u"
      using c pc unfolding collected_def by auto
    then show ?thesis using basic by (rule_tac x = b in exI) auto
  qed
  show ?thesis unfolding blocks_ok_def
  proof (intro conjI)
    show "\<forall>pc<length code. \<exists>b l u ss. (blks(DUMMY_ENTRANCE \<mapsto> \<lparr>blk_successors = [e], blk_content = Dummy\<rparr>,
           DUMMY_EXIT \<mapsto> \<lparr>blk_successors = [], blk_content = Dummy\<rparr>)) b
        = Some \<lparr>blk_successors = ss, blk_content = Basic l u\<rparr> \<and> l \<le> pc \<and> pc \<le> u"
      using cover by (metis fun_upd_other)
    show "\<forall>b blk. b \<noteq> DUMMY_ENTRANCE \<longrightarrow> b \<noteq> DUMMY_EXIT \<longrightarrow>
        (blks(DUMMY_ENTRANCE \<mapsto> \<lparr>blk_successors = [e], blk_content = Dummy\<rparr>,
           DUMMY_EXIT \<mapsto> \<lparr>blk_successors = [], blk_content = Dummy\<rparr>)) b = Some blk \<longrightarrow>
        (\<exists>l u ss. blk = \<lparr>blk_successors = ss, blk_content = Basic l u\<rparr> \<and> map_of keys l = Some b
             \<and> block_spec code offs ignore keys l u ss)"
      using c unfolding collected_def by fastforce
    show "dom (map_of keys) \<subseteq> leaders code offs ignore \<inter> {..<length code}"
      using c unfolding collected_def by blast
  qed (use ko zero in \<open>simp_all add: DUMMY_ENTRANCE_def DUMMY_EXIT_def domIff\<close>)
qed

lemma collected_zero:
  assumes "well_blocked code offs ignore" "collected code offs ignore (length code) (blks, keys, length code)"
  shows "0 \<in> dom (map_of keys)"
proof -
  have "0 < length code" using assms(1) by (simp add: well_blocked_def)
  then obtain b l u ss where b: "blks b = Some \<lparr>blk_successors = ss, blk_content = Basic l u\<rparr>" "l \<le> 0" "0 \<le> u"
    using assms(2) by (auto simp: collected_def)
  then obtain l' u' ss' where "\<lparr>blk_successors = ss, blk_content = Basic l u\<rparr> = \<lparr>blk_successors = ss', blk_content = Basic l' u'\<rparr>"
    "map_of keys l' = Some b"
    using assms(2) unfolding collected_def by blast
  then show ?thesis using b by auto
qed

lemma collect_blocks_total:
  assumes "well_blocked code offs False"
  shows "\<exists>blks keys. collect_blocks code False = Done blks \<and> blocks_ok code offs False blks keys"
proof -
  have t: "targets_defined code offs" "label_offsets code = Done offs" "code \<noteq> []"
    using assms by (auto simp: well_blocked_def targets_defined_def)
  obtain blks keys where c: "ofold (collect_step code offs (leaders code offs False) False) [0..<length code] (Map.empty, [], 0)
      = Done (blks, keys, length code)" "collected code offs False (length code) (blks, keys, length code)"
    using collected_end [OF assms] by blast
  obtain e where e: "map_of keys 0 = Some e" using collected_zero [OF assms c(2)] by blast
  have "collect_blocks code False = Done (blks(DUMMY_ENTRANCE \<mapsto> \<lparr>blk_successors = [e], blk_content = Dummy\<rparr>,
           DUMMY_EXIT \<mapsto> \<lparr>blk_successors = [], blk_content = Dummy\<rparr>))"
    using t(3) e by (simp add: collect_blocks_def t(2) record_ids_total [OF t(1)] c(1) Let_def del: upt_Suc)
  then show ?thesis using collected_blocks_ok [OF assms c(2) e] by blast
qed

section \<open>Blocks and flow\<close>

definition span :: "(BlockId \<rightharpoonup> Block) \<Rightarrow> BlockId \<Rightarrow> (CodeOffset \<times> CodeOffset) option" where
  "span blks b = (case blks b of None \<Rightarrow> None
     | Some blk \<Rightarrow> (case blk_content blk of Basic l u \<Rightarrow> Some (l, u) | Dummy \<Rightarrow> None))"

lemma span_block:
  assumes "blocks_ok code offs ignore blks keys" "span blks b = Some (l, u)"
  shows "\<exists>ss. blks b = Some \<lparr>blk_successors = ss, blk_content = Basic l u\<rparr> \<and> map_of keys l = Some b
    \<and> block_spec code offs ignore keys l u ss"
proof -
  obtain blk where blk: "blks b = Some blk" "blk_content blk = Basic l u"
    using assms(2) by (auto simp: span_def split: option.splits BlockContent.splits)
  have "b \<noteq> DUMMY_ENTRANCE" "b \<noteq> DUMMY_EXIT" using assms(1) blk by (auto simp: blocks_ok_def)
  then obtain l' u' ss where "blk = \<lparr>blk_successors = ss, blk_content = Basic l' u'\<rparr>" "map_of keys l' = Some b"
     "block_spec code offs ignore keys l' u' ss"
    using assms(1) blk(1) unfolding blocks_ok_def by blast
  then show ?thesis using blk by auto
qed

lemma span_cover:
  assumes "blocks_ok code offs ignore blks keys" "pc < length code"
  shows "\<exists>b l u. span blks b = Some (l, u) \<and> l \<le> pc \<and> pc \<le> u"
proof -
  obtain b l u ss where "blks b = Some \<lparr>blk_successors = ss, blk_content = Basic l u\<rparr>" "l \<le> pc" "pc \<le> u"
    using assms unfolding blocks_ok_def by blast
  then show ?thesis by (intro exI [of _ b] exI [of _ l] exI [of _ u]) (simp add: span_def)
qed

lemma leader_ends:
  assumes "l \<in> leaders code offs ignore" "l \<noteq> 0"
  shows "is_end_of_block (l - 1) code (leaders code offs ignore)"
  using assms by (simp add: is_end_of_block_def)

lemma span_unique:
  assumes ok: "blocks_ok code offs ignore blks keys"
    and b: "span blks b = Some (l, u)" "l \<le> pc" "pc \<le> u" and b': "span blks b' = Some (l', u')" "l' \<le> pc" "pc \<le> u'"
  shows "b = b' \<and> l = l' \<and> u = u'"
proof -
  obtain ss ss' where s: "map_of keys l = Some b" "block_spec code offs ignore keys l u ss"
    "map_of keys l' = Some b'" "block_spec code offs ignore keys l' u' ss'"
    using span_block [OF ok b(1)] span_block [OF ok b'(1)] by blast
  have u: "u = u'"
    using s(2,4) b b' unfolding block_spec_def by (metis le_trans linorder_neqE_nat)
  have "\<not> l < l'" if "block_spec code offs ignore keys l u ss" "block_spec code offs ignore keys l' u ss'" for l l' ss ss'
  proof
    assume "l < l'"
    then have "is_end_of_block (l' - 1) code (leaders code offs ignore)" "l \<le> l' - 1" "l' - 1 < u"
      using that(2) leader_ends [of l' code offs ignore] by (auto simp: block_spec_def)
    then show False using that(1) by (auto simp: block_spec_def)
  qed
  then have "l = l'" using s(2,4) u by (meson linorder_neqE_nat)
  then show ?thesis using s(1,3) u by simp
qed

lemma key_span:
  assumes ok: "blocks_ok code offs ignore blks keys" and k: "map_of keys q = Some b"
  shows "\<exists>u. span blks b = Some (q, u)"
proof -
  have q: "q \<in> leaders code offs ignore" "q < length code" using ok k by (auto simp: blocks_ok_def)
  obtain b' l u where b': "span blks b' = Some (l, u)" "l \<le> q" "q \<le> u" using span_cover [OF ok q(2)] by blast
  obtain ss where s: "map_of keys l = Some b'" "block_spec code offs ignore keys l u ss" using span_block [OF ok b'(1)] by blast
  have "q = l"
  proof (rule ccontr)
    assume "q \<noteq> l"
    then have "is_end_of_block (q - 1) code (leaders code offs ignore)" "l \<le> q - 1" "q - 1 < u"
      using leader_ends [OF q(1)] b' by auto
    then show False using s(2) by (auto simp: block_spec_def)
  qed
  then show ?thesis using b'(1) s(1) k by auto
qed

lemma key_of_span: "blocks_ok code offs ignore blks keys \<Longrightarrow> span blks b = Some (l, u) \<Longrightarrow> map_of keys l = Some b"
  using span_block by blast

lemma interior_flow:
  assumes wb: "well_blocked code offs ignore" and ok: "blocks_ok code offs ignore blks keys"
    and b: "span blks b = Some (l, u)" "l \<le> pc" "pc < u"
  shows "succs code offs pc = [pc + 1]" "flow code offs ignore pc = [pc + 1]" "\<not> is_branch (code ! pc)" "\<not> is_exit (code ! pc)"
proof -
  obtain ss where s: "block_spec code offs ignore keys l u ss" using span_block [OF ok b(1)] by blast
  have ne: "pc + 1 \<notin> leaders code offs ignore" "pc + 1 < length code"
    using s b unfolding block_spec_def is_end_of_block_def by auto
  show nb: "\<not> is_branch (code ! pc)" using wb ne by (auto simp: well_blocked_def)
  then show "succs code offs pc = [pc + 1]" "\<not> is_exit (code ! pc)" using ne exit_no_dests by (auto simp: succs_def)
  then show "flow code offs ignore pc = [pc + 1]" by (simp add: flow_def)
qed

lemma end_flow:
  assumes ok: "blocks_ok code offs ignore blks keys" and b: "span blks b = Some (l, u)"
  shows "q \<in> set (flow code offs ignore u) \<longleftrightarrow>
      (\<exists>b'\<in>set (blk_successors (the (blks b))). \<exists>u'. span blks b' = Some (q, u'))"
    and "DUMMY_EXIT \<in> set (blk_successors (the (blks b))) \<longleftrightarrow> flows_to_exit code ignore u"
proof -
  obtain ss where s: "blks b = Some \<lparr>blk_successors = ss, blk_content = Basic l u\<rparr>" "block_spec code offs ignore keys l u ss"
    using span_block [OF ok b] by blast
  have ss: "ss = map (the \<circ> map_of keys) (flow code offs ignore u) @ (if flows_to_exit code ignore u then [DUMMY_EXIT] else [])"
    "set (flow code offs ignore u) \<subseteq> dom (map_of keys)"
    using s(2) by (auto simp: block_spec_def)
  have ko: "keys_ok keys" using ok by (simp add: blocks_ok_def)
  have exit: "span blks DUMMY_EXIT = None" using ok by (simp add: blocks_ok_def span_def)
  have keys: "\<exists>i u'. map_of keys r = Some i \<and> span blks i = Some (r, u') \<and> i \<noteq> DUMMY_EXIT" if r: "r \<in> set (flow code offs ignore u)" for r
  proof -
    obtain i where "map_of keys r = Some i" using r ss(2) by blast
    then show ?thesis using key_span [OF ok, of r i] exit by auto
  qed
  show "q \<in> set (flow code offs ignore u) \<longleftrightarrow>
      (\<exists>b'\<in>set (blk_successors (the (blks b))). \<exists>u'. span blks b' = Some (q, u'))"
  proof
    assume "q \<in> set (flow code offs ignore u)"
    then show "\<exists>b'\<in>set (blk_successors (the (blks b))). \<exists>u'. span blks b' = Some (q, u')"
      using keys [of q] s(1) ss(1) by force
  next
    assume "\<exists>b'\<in>set (blk_successors (the (blks b))). \<exists>u'. span blks b' = Some (q, u')"
    then obtain b' u' where b': "b' \<in> set ss" "span blks b' = Some (q, u')" using s(1) by auto
    then have "b' \<noteq> DUMMY_EXIT" using exit by auto
    then obtain r where r: "r \<in> set (flow code offs ignore u)" "b' = the (map_of keys r)" using b'(1) ss(1) by (auto split: if_splits)
    then have "q = r" using keys [OF r(1)] b'(2) by auto
    then show "q \<in> set (flow code offs ignore u)" using r by simp
  qed
  show "DUMMY_EXIT \<in> set (blk_successors (the (blks b))) \<longleftrightarrow> flows_to_exit code ignore u"
    using keys s(1) ss(1) by force
qed

section \<open>Properties\<close>


lemma two_labels:
  "label_offsets [BLabel 0 1, BBranch 0 1 2 0, BLabel 0 2, BRet 0 []] = Done [1 \<mapsto> 0, 2 \<mapsto> 2]"
  by (simp add: label_offsets_def enumerate_eq_zip numeral_2_eq_2)

lemma loop_well_blocked: "well_blocked [BLabel 0 1, BBranch 0 1 2 0, BLabel 0 2, BRet 0 []] [1 \<mapsto> 0, 2 \<mapsto> 2] False"
proof -
  let ?code = "[BLabel 0 1, BBranch 0 1 2 0, BLabel 0 2, BRet 0 []]"
  have "2 = the ([1 \<mapsto> 0, 2 \<mapsto> 2 :: nat] (2 :: Label))" "BBranch 0 1 2 0 \<in> set ?code" "2 \<in> set (branch_dests (BBranch 0 1 2 0))"
    by simp_all
  then have two: "2 \<in> leaders ?code [1 \<mapsto> 0, 2 \<mapsto> 2] False" unfolding leaders_def by blast
  have one: "pc = 1" if "pc + 1 < length ?code \<and> is_branch (?code ! pc)" for pc
    using that by (auto simp: is_branch_def nth_Cons' split: if_splits)
  have "\<forall>pc. pc + 1 < length ?code \<and> is_branch (?code ! pc) \<longrightarrow> pc + 1 \<in> leaders ?code [1 \<mapsto> 0, 2 \<mapsto> 2] False"
  proof (intro allI impI)
    fix pc assume "pc + 1 < length ?code \<and> is_branch (?code ! pc)"
    then have "pc = 1" by (rule one)
    then show "pc + 1 \<in> leaders ?code [1 \<mapsto> 0, 2 \<mapsto> 2] False" using two by (simp only: one_add_one)
  qed
  then show ?thesis unfolding well_blocked_def targets_defined_def two_labels by (auto simp: is_branch_def)
qed


end
