(* ===== verification/Dataflow.thy ===== *)
theory Dataflow
  imports Cfg
begin

text \<open>
  The framework of the dataflow analyses (\<open>dataflow_domains.rs\<close>, \<open>dataflow_analysis.rs\<close>):
  domains with a join that tells whether it changed its left operand, the predefined domains
  of sets and maps, the worklist algorithm and the states per instruction.

  The traits become a record of functions (\<open>transfer\<close>) and the locale \<open>abstract_domain\<close> of
  the laws that a join promises.  The framework is proved once, inside the locale
  \<open>finite_domain\<close> of the domains whose joins cannot change a state for ever.
\<close>

section \<open>Domains\<close>

datatype JoinResult = Unchanged | Changed

fun combine :: "JoinResult \<Rightarrow> JoinResult \<Rightarrow> JoinResult" where
  "combine Unchanged Unchanged = Unchanged"
| "combine _ _ = Changed"

definition set_join :: "'a :: linorder set \<Rightarrow> 'a set \<Rightarrow> 'a set \<times> JoinResult" where
  "set_join self other = fold (\<lambda>e (s, change). if e \<in> s then (s, change) else (insert e s, Changed))
     (sorted_list_of_set other) (self, Unchanged)"

definition set_difference :: "'a :: linorder set \<Rightarrow> 'a set \<Rightarrow> 'a list" where
  "set_difference self other = filter (\<lambda>e. e \<notin> other) (sorted_list_of_set self)"

definition set_is_disjoint :: "'a :: linorder set \<Rightarrow> 'a set \<Rightarrow> bool" where
  "set_is_disjoint self other = list_all (\<lambda>e. e \<notin> other) (sorted_list_of_set self)"

definition insert_join :: "('v \<Rightarrow> 'v \<Rightarrow> 'v \<times> JoinResult) \<Rightarrow> 'k \<Rightarrow> 'v \<Rightarrow> ('k \<rightharpoonup> 'v) \<Rightarrow> ('k \<rightharpoonup> 'v) \<times> JoinResult" where
  "insert_join vjoin k v m = (case m k of
     Some old \<Rightarrow> let (new, change) = vjoin old v in (m(k \<mapsto> new), change)
   | None \<Rightarrow> (m(k \<mapsto> v), Changed))"

definition map_join ::
  "('v \<Rightarrow> 'v \<Rightarrow> 'v \<times> JoinResult) \<Rightarrow> ('k :: linorder \<rightharpoonup> 'v) \<Rightarrow> ('k \<rightharpoonup> 'v) \<Rightarrow> ('k \<rightharpoonup> 'v) \<times> JoinResult" where
  "map_join vjoin self other = fold (\<lambda>k (m, change).
       let (m, c) = insert_join vjoin k (the (other k)) m in (m, combine change c))
     (sorted_list_of_set (dom other)) (self, Unchanged)"

definition update_values :: "('v \<Rightarrow> 'v) \<Rightarrow> ('k :: linorder \<rightharpoonup> 'v) \<Rightarrow> ('k \<rightharpoonup> 'v)" where
  "update_values f m =
     (let new_values = List.map_filter (\<lambda>k. let v = the (m k); v_new = f v in if v \<noteq> v_new then Some (k, v_new) else None)
        (sorted_list_of_set (dom m))
      in fold (\<lambda>(k, v) m. m(k \<mapsto> v)) new_values m)"

section \<open>The analysis\<close>

record 's transfer =
  t_join :: "'s \<Rightarrow> 's \<Rightarrow> 's \<times> JoinResult"
  t_backward :: bool
  t_execute :: "'s \<Rightarrow> Bytecode \<Rightarrow> CodeOffset \<Rightarrow> 's"

record 's block_state =
  st_pre :: 's
  st_post :: 's

type_synonym 's state_map = "BlockId \<rightharpoonup> 's block_state"

definition execute_at :: "'s transfer \<Rightarrow> Bytecode list \<Rightarrow> CodeOffset \<Rightarrow> 's \<Rightarrow> 's outcome" where
  "execute_at T code offset s = omap (\<lambda>instr. t_execute T s instr offset) (code_at code offset)"

definition execute_block ::
  "'s transfer \<Rightarrow> BlockId \<Rightarrow> 's \<Rightarrow> Bytecode list \<Rightarrow> StacklessControlFlowGraph \<Rightarrow> 's outcome" where
  "execute_block T b s code cfg =
     obind (is_dummmy cfg b) (\<lambda>dummy.
       if dummy then Done s
       else obind (instr_indexes cfg b) (\<lambda>inds. case inds of
           None \<Rightarrow> Panicked
         | Some offsets \<Rightarrow> ofold (execute_at T code) (if t_backward T then rev offsets else offsets) s))"

definition propagate ::
  "'s transfer \<Rightarrow> 's \<Rightarrow> 's \<Rightarrow> BlockId \<Rightarrow> BlockId list \<times> 's state_map \<Rightarrow> BlockId list \<times> 's state_map" where
  "propagate T initial post next = (\<lambda>(work, sm). case sm next of
     Some r \<Rightarrow>
       let (pre, result) = t_join T (st_pre r) post;
           sm = sm(next \<mapsto> r\<lparr>st_pre := pre\<rparr>)
       in (case result of Unchanged \<Rightarrow> (work, sm) | Changed \<Rightarrow> (work @ [next], sm))
   | None \<Rightarrow> (work @ [next], sm(next \<mapsto> \<lparr>st_pre = post, st_post = initial\<rparr>)))"

definition analyze_step ::
  "'s transfer \<Rightarrow> 's \<Rightarrow> Bytecode list \<Rightarrow> StacklessControlFlowGraph
    \<Rightarrow> BlockId list \<times> 's state_map \<Rightarrow> (BlockId list \<times> 's state_map) outcome" where
  "analyze_step T initial code cfg = (\<lambda>(work, sm). case work of
     [] \<Rightarrow> Done (work, sm)
   | b # rest \<Rightarrow>
       obind (at sm b) (\<lambda>r.
       obind (execute_block T b (st_pre r) code cfg) (\<lambda>post.
       obind (cfg_successors cfg b) (\<lambda>ss.
       let (work, sm) = fold (propagate T initial post) ss (rest, sm) in
       obind (at sm b) (\<lambda>r. Done (work, sm(b \<mapsto> r\<lparr>st_post := post\<rparr>)))))))"

definition analyze_function ::
  "'s transfer \<Rightarrow> 's \<Rightarrow> Bytecode list \<Rightarrow> StacklessControlFlowGraph \<Rightarrow> 's state_map outcome" where
  "analyze_function T initial code cfg =
     omap snd (loop (\<lambda>(work, _). work \<noteq> []) (analyze_step T initial code cfg)
       ([entry_block_id cfg], [entry_block_id cfg \<mapsto> \<lparr>st_pre = initial, st_post = initial\<rparr>]))"

text \<open>The states before and after every instruction: \<open>f\<close> is given both, in the order of
  execution.\<close>

definition annotate ::
  "'s transfer \<Rightarrow> Bytecode list \<Rightarrow> ('s \<Rightarrow> 's \<Rightarrow> 'a) \<Rightarrow> CodeOffset
    \<Rightarrow> 's \<times> (CodeOffset \<rightharpoonup> 'a) \<Rightarrow> ('s \<times> (CodeOffset \<rightharpoonup> 'a)) outcome" where
  "annotate T code f offset = (\<lambda>(s, result).
     omap (\<lambda>s'. (s', result(offset \<mapsto> (if t_backward T then f s' s else f s s')))) (execute_at T code offset s))"

definition annotate_block ::
  "'s transfer \<Rightarrow> Bytecode list \<Rightarrow> StacklessControlFlowGraph \<Rightarrow> ('s \<Rightarrow> 's \<Rightarrow> 'a) \<Rightarrow> 's state_map
    \<Rightarrow> BlockId \<Rightarrow> (CodeOffset \<rightharpoonup> 'a) \<Rightarrow> (CodeOffset \<rightharpoonup> 'a) outcome" where
  "annotate_block T code cfg f sm b result =
     obind (is_dummmy cfg b) (\<lambda>dummy.
       if dummy then Done result
       else obind (instr_indexes cfg b) (\<lambda>inds. case inds of
           None \<Rightarrow> Panicked
         | Some offsets \<Rightarrow> omap snd (ofold (annotate T code f)
             (if t_backward T then rev offsets else offsets) (st_pre (the (sm b)), result))))"

definition state_per_instruction ::
  "'s transfer \<Rightarrow> 's state_map \<Rightarrow> Bytecode list \<Rightarrow> StacklessControlFlowGraph \<Rightarrow> ('s \<Rightarrow> 's \<Rightarrow> 'a)
    \<Rightarrow> (CodeOffset \<rightharpoonup> 'a) outcome" where
  "state_per_instruction T sm code cfg f =
     ofold (annotate_block T code cfg f sm) (sorted_list_of_set (dom sm)) (\<lambda>_. None)"

section \<open>The laws of a join\<close>

locale abstract_domain =
  fixes join :: "'s \<Rightarrow> 's \<Rightarrow> 's \<times> JoinResult"
    and le :: "'s \<Rightarrow> 's \<Rightarrow> bool"
    and ok :: "'s \<Rightarrow> bool"
  assumes le_refl: "ok a \<Longrightarrow> le a a"
    and le_trans: "ok a \<Longrightarrow> ok b \<Longrightarrow> ok c \<Longrightarrow> le a b \<Longrightarrow> le b c \<Longrightarrow> le a c"
    and join_ok: "ok a \<Longrightarrow> ok b \<Longrightarrow> ok (fst (join a b))"
    and join_left: "ok a \<Longrightarrow> ok b \<Longrightarrow> le a (fst (join a b))"
    and join_right: "ok a \<Longrightarrow> ok b \<Longrightarrow> le b (fst (join a b))"
    and join_least: "ok a \<Longrightarrow> ok b \<Longrightarrow> ok c \<Longrightarrow> le a c \<Longrightarrow> le b c \<Longrightarrow> le (fst (join a b)) c"
    and join_unchanged: "ok a \<Longrightarrow> ok b \<Longrightarrow> snd (join a b) = Unchanged \<longleftrightarrow> le b a"
    and join_same: "ok a \<Longrightarrow> ok b \<Longrightarrow> le b a \<Longrightarrow> fst (join a b) = a"

text \<open>Domains without endless changes: a join that changes a state lowers its rank.\<close>

locale finite_domain = abstract_domain join le ok
  for join :: "'s \<Rightarrow> 's \<Rightarrow> 's \<times> JoinResult" and le ok +
  fixes rank :: "'s \<Rightarrow> nat" and bound :: nat
  assumes rank_bound: "ok a \<Longrightarrow> rank a \<le> bound"
    and join_rank: "ok a \<Longrightarrow> ok b \<Longrightarrow> snd (join a b) = Changed \<Longrightarrow> rank (fst (join a b)) < rank a"

section \<open>Sets and maps\<close>

lemma set_join_fold:
  "fold (\<lambda>e (s, change). if e \<in> s then (s, change) else (insert e s, Changed)) xs (s, c)
    = (s \<union> set xs, if set xs \<subseteq> s then c else Changed)"
  by (induction xs arbitrary: s c) auto

lemma set_join_eq: "finite other \<Longrightarrow> set_join self other = (self \<union> other, if other \<subseteq> self then Unchanged else Changed)"
  by (simp add: set_join_def set_join_fold)

interpretation set_domain: abstract_domain set_join "(\<subseteq>)" finite
  by unfold_locales (auto simp: set_join_eq)

text \<open>Sets within a finite universe.\<close>

interpretation bounded_sets: finite_domain set_join "(\<subseteq>)" "\<lambda>s. s \<subseteq> {..<n}" "\<lambda>s. card ({..<n} - s)" n for n :: nat
proof
  fix a b :: "nat set" assume a: "a \<subseteq> {..<n}" "b \<subseteq> {..<n}" "snd (set_join a b) = Changed"
  have "finite b" using a(2) finite_subset by blast
  then obtain x where "x \<in> b" "x \<notin> a" using a(3) by (auto simp: set_join_eq split: if_splits)
  then have "{..<n} - (a \<union> b) \<subset> {..<n} - a" using a(2) by blast
  then have "card ({..<n} - (a \<union> b)) < card ({..<n} - a)" by (intro psubset_card_mono) auto
  then show "card ({..<n} - fst (set_join a b)) < card ({..<n} - a)" using \<open>finite b\<close> by (simp add: set_join_eq)
next
  fix a :: "nat set"
  have "card ({..<n} - a) \<le> card {..<n}" by (rule card_mono) auto
  then show "card ({..<n} - a) \<le> n" by simp
qed (auto simp: set_join_eq finite_subset split: if_splits)

definition map_below :: "('v \<Rightarrow> 'v \<Rightarrow> bool) \<Rightarrow> ('k \<rightharpoonup> 'v) \<Rightarrow> ('k \<rightharpoonup> 'v) \<Rightarrow> bool" where
  "map_below vle m m' \<longleftrightarrow> (\<forall>k v. m k = Some v \<longrightarrow> (\<exists>v'. m' k = Some v' \<and> vle v v'))"

definition map_ok :: "('v \<Rightarrow> bool) \<Rightarrow> ('k \<rightharpoonup> 'v) \<Rightarrow> bool" where
  "map_ok vok m \<longleftrightarrow> finite (dom m) \<and> (\<forall>k v. m k = Some v \<longrightarrow> vok v)"

definition joined :: "('v \<Rightarrow> 'v \<Rightarrow> 'v \<times> JoinResult) \<Rightarrow> 'v option \<Rightarrow> 'v option \<Rightarrow> 'v option" where
  "joined vjoin a b = (case (a, b) of (None, _) \<Rightarrow> b | (_, None) \<Rightarrow> a | (Some x, Some y) \<Rightarrow> Some (fst (vjoin x y)))"

definition grows :: "('v \<Rightarrow> 'v \<Rightarrow> 'v \<times> JoinResult) \<Rightarrow> 'v option \<Rightarrow> 'v option \<Rightarrow> bool" where
  "grows vjoin a b = (case (a, b) of (_, None) \<Rightarrow> False | (None, _) \<Rightarrow> True | (Some x, Some y) \<Rightarrow> snd (vjoin x y) = Changed)"

lemma JoinResult_not [simp]: "c \<noteq> Changed \<longleftrightarrow> c = Unchanged" "c \<noteq> Unchanged \<longleftrightarrow> c = Changed"
  by (cases c; simp)+

lemma combine_Changed [simp]: "combine a b = Changed \<longleftrightarrow> a = Changed \<or> b = Changed"
  by (cases a; cases b) auto

lemma map_join_fold:
  assumes "distinct ks" "set ks \<subseteq> dom other"
  shows "fold (\<lambda>k (m, change). let (m, c) = insert_join vjoin k (the (other k)) m in (m, combine change c)) ks (m, c)
    = (\<lambda>k. if k \<in> set ks then joined vjoin (m k) (other k) else m k,
       if c = Changed \<or> (\<exists>k\<in>set ks. grows vjoin (m k) (other k)) then Changed else Unchanged)"
  using assms
proof (induction ks arbitrary: m c)
  case (Cons k ks)
  obtain v where v: "other k = Some v" using Cons.prems by auto
  obtain m1 c1 where m1: "insert_join vjoin k v m = (m1, c1)" by fastforce
  have "m1 = m(k := joined vjoin (m k) (Some v))" "c1 = (if grows vjoin (m k) (Some v) then Changed else Unchanged)"
    using m1 by (auto simp: insert_join_def joined_def grows_def split: option.splits prod.splits)
  then show ?case using Cons v m1 by (fastforce simp: combine_Changed)
qed auto

lemma map_join_eq:
  assumes "finite (dom other)"
  shows "map_join vjoin m other = (\<lambda>k. joined vjoin (m k) (other k),
    if \<exists>k. grows vjoin (m k) (other k) then Changed else Unchanged)"
proof -
  have "k \<in> dom other \<longleftrightarrow> other k \<noteq> None" for k by auto
  moreover have "joined vjoin (m k) None = m k" "\<not> grows vjoin (m k) None" for k
    by (auto simp: joined_def grows_def split: option.split)
  ultimately show ?thesis
    using map_join_fold [of "sorted_list_of_set (dom other)" other vjoin m Unchanged] assms
    unfolding map_join_def by (auto simp: fun_eq_iff) (metis option.exhaust)+
qed

text \<open>A map into a domain is a domain.\<close>

locale map_values = abstract_domain join le ok
  for join :: "'s \<Rightarrow> 's \<Rightarrow> 's \<times> JoinResult" and le ok
begin

lemma not_grows_iff:
  assumes "\<And>v. a = Some v \<Longrightarrow> ok v" "\<And>v. b = Some v \<Longrightarrow> ok v"
  shows "\<not> grows join a b \<longleftrightarrow> (\<forall>v. b = Some v \<longrightarrow> (\<exists>v'. a = Some v' \<and> le v v'))"
proof (cases "a = None \<or> b = None")
  case False
  then obtain x y where "a = Some x" "b = Some y" by auto
  then show ?thesis using assms join_unchanged [of x y] by (auto simp: grows_def)
qed (auto simp: grows_def split: option.splits)

lemma map_unchanged_iff:
  assumes "map_ok ok m" "map_ok ok other"
  shows "snd (map_join join m other) = Unchanged \<longleftrightarrow> map_below le other m"
proof -
  have "\<not> grows join (m k) (other k) \<longleftrightarrow> (\<forall>v. other k = Some v \<longrightarrow> (\<exists>v'. m k = Some v' \<and> le v v'))" for k
    using assms by (intro not_grows_iff) (auto simp: map_ok_def)
  moreover have "snd (map_join join m other) = Unchanged \<longleftrightarrow> (\<forall>k. \<not> grows join (m k) (other k))"
    using assms(2) by (simp add: map_join_eq map_ok_def)
  ultimately show ?thesis by (simp only: map_below_def)
qed

lemma joined_cases:
  assumes "joined join a b = Some v"
  obtains "a = Some v" "b = None" | "a = None" "b = Some v" | x y where "a = Some x" "b = Some y" "v = fst (join x y)"
  using assms by (cases a; cases b) (auto simp: joined_def)

lemma map_join_ok: "map_ok ok m \<Longrightarrow> map_ok ok other \<Longrightarrow> map_ok ok (fst (map_join join m other))"
proof -
  assume a: "map_ok ok m" "map_ok ok other"
  have "ok v" if "joined join (m k) (other k) = Some v" for k v
    using that a by (rule_tac joined_cases [OF that]) (auto simp: map_ok_def join_ok)
  moreover have "dom (\<lambda>k. joined join (m k) (other k)) \<subseteq> dom m \<union> dom other"
    by (auto simp: joined_def split: option.splits)
  ultimately show ?thesis using a by (auto simp: map_ok_def map_join_eq dest: finite_subset)
qed

lemma map_join_upper:
  assumes "map_ok ok m" "map_ok ok other"
  shows "map_below le m (fst (map_join join m other))" "map_below le other (fst (map_join join m other))"
  using assms by (auto simp: map_ok_def map_below_def map_join_eq joined_def split: option.split
      intro: le_refl join_left join_right)

lemma map_join_least:
  assumes "map_ok ok m" "map_ok ok other" "map_ok ok c" "map_below le m c" "map_below le other c"
  shows "map_below le (fst (map_join join m other)) c"
  unfolding map_below_def
proof (intro allI impI)
  fix k v assume "fst (map_join join m other) k = Some v"
  then have "joined join (m k) (other k) = Some v" using assms(2) by (simp add: map_join_eq map_ok_def)
  then show "\<exists>v'. c k = Some v' \<and> le v v'"
  proof (cases rule: joined_cases)
    case 1
    then show ?thesis using assms(4) by (auto simp: map_below_def)
  next
    case 2
    then show ?thesis using assms(5) by (auto simp: map_below_def)
  next
    case (3 x y)
    obtain z where "c k = Some z" "le x z" "le y z"
      using 3 assms(4,5) by (force simp: map_below_def)
    then show ?thesis using 3 assms(1-3) by (auto simp: map_ok_def intro: join_least)
  qed
qed

lemma map_join_same:
  assumes "map_ok ok m" "map_ok ok other" "map_below le other m"
  shows "fst (map_join join m other) = m"
proof -
  have "joined join (m k) (other k) = m k" for k
    using assms by (cases "m k"; cases "other k") (force simp: joined_def map_below_def map_ok_def intro: join_same)+
  then show ?thesis using assms(2) by (simp add: map_join_eq map_ok_def)
qed

lemma map_below_trans:
  assumes "map_ok ok a" "map_ok ok b" "map_ok ok c" "map_below le a b" "map_below le b c"
  shows "map_below le a c"
  unfolding map_below_def
proof (intro allI impI)
  fix k x assume x: "a k = Some x"
  then obtain y where y: "b k = Some y" "le x y" using assms(4) by (auto simp: map_below_def)
  then obtain z where z: "c k = Some z" "le y z" using assms(5) by (auto simp: map_below_def)
  have "ok x" "ok y" "ok z" using x y z assms(1-3) by (auto simp: map_ok_def)
  then show "\<exists>v'. c k = Some v' \<and> le x v'" using y z le_trans by blast
qed

end

sublocale map_values \<subseteq> map_domain: abstract_domain "map_join join" "map_below le" "map_ok ok"
proof
  show "map_below le a a" if "map_ok ok a" for a :: "'b :: linorder \<rightharpoonup> 's"
    using that by (auto simp: map_below_def map_ok_def le_refl)
qed (auto simp: map_unchanged_iff intro: map_below_trans map_join_ok map_join_upper map_join_least map_join_same)

interpretation set_maps: map_values set_join "(\<subseteq>)" finite ..

section \<open>The worklist\<close>

definition cfg_closed :: "Bytecode list \<Rightarrow> StacklessControlFlowGraph \<Rightarrow> bool" where
  "cfg_closed code cfg \<longleftrightarrow> finite (dom (blocks cfg)) \<and> entry_block_id cfg \<in> dom (blocks cfg)
     \<and> (\<forall>b blk. blocks cfg b = Some blk \<longrightarrow> set (blk_successors blk) \<subseteq> dom (blocks cfg)
          \<and> (\<forall>l u. blk_content blk = Basic l u \<longrightarrow> u < length code))"

abbreviation nexts :: "StacklessControlFlowGraph \<Rightarrow> BlockId \<Rightarrow> BlockId list" where
  "nexts cfg b \<equiv> blk_successors (the (blocks cfg b))"

text \<open>The offsets of a block in the order of execution.\<close>

definition block_offsets :: "'s transfer \<Rightarrow> StacklessControlFlowGraph \<Rightarrow> BlockId \<Rightarrow> CodeOffset list" where
  "block_offsets T cfg b = (case blk_content (the (blocks cfg b)) of
     Dummy \<Rightarrow> [] | Basic l u \<Rightarrow> (if t_backward T then rev [l..<u + 1] else [l..<u + 1]))"

lemma execute_block_offsets:
  "b \<in> dom (blocks cfg) \<Longrightarrow> execute_block T b s code cfg = ofold (execute_at T code) (block_offsets T cfg b) s"
  by (auto simp: execute_block_def is_dummmy_def instr_indexes_def cfg_content_def cfg_block_def block_offsets_def
      simp del: upt_Suc split: BlockContent.split)

lemma annotate_block_offsets:
  "b \<in> dom (blocks cfg) \<Longrightarrow> annotate_block T code cfg f sm b result
    = (if blk_content (the (blocks cfg b)) = Dummy then Done result
       else omap snd (ofold (annotate T code f) (block_offsets T cfg b) (st_pre (the (sm b)), result)))"
  by (auto simp: annotate_block_def is_dummmy_def instr_indexes_def cfg_content_def cfg_block_def block_offsets_def
      simp del: upt_Suc split: BlockContent.split)

lemma block_offsets_bound:
  assumes "cfg_closed code cfg" "b \<in> dom (blocks cfg)" "i \<in> set (block_offsets T cfg b)"
  shows "i < length code"
proof -
  obtain blk where blk: "blocks cfg b = Some blk" using assms(2) by blast
  show ?thesis
  proof (cases "blk_content blk")
    case (Basic l u)
    then have "u < length code" using assms(1) blk unfolding cfg_closed_def by blast
    then show ?thesis using assms(3) Basic blk by (auto simp: block_offsets_def split: if_splits)
  next
    case Dummy
    then show ?thesis using assms(3) blk by (simp add: block_offsets_def)
  qed
qed

context finite_domain
begin

definition slot :: "'s block_state option \<Rightarrow> nat" where
  "slot r = (case r of None \<Rightarrow> bound + 1 | Some r \<Rightarrow> rank (st_pre r))"

definition potential :: "BlockId set \<Rightarrow> 's state_map \<Rightarrow> nat" where
  "potential N sm = (\<Sum>b\<in>N. slot (sm b))"

text \<open>What a pass over successors does to the work list and the states.\<close>

definition propagated ::
  "BlockId set \<Rightarrow> 's \<Rightarrow> BlockId list \<Rightarrow> BlockId list \<times> 's state_map \<Rightarrow> BlockId list \<times> 's state_map \<Rightarrow> bool" where
  "propagated N post ss = (\<lambda>(work, sm) (work', sm').
     dom sm' = dom sm \<union> set ss \<and> set work \<subseteq> set work' \<and> set work' \<subseteq> set work \<union> set ss
     \<and> (\<forall>b r. sm b = Some r \<longrightarrow> (\<exists>r'. sm' b = Some r' \<and> st_post r' = st_post r \<and> le (st_pre r) (st_pre r')
           \<and> (b \<notin> set work' \<longrightarrow> r' = r)))
     \<and> (\<forall>b. b \<in> dom sm' \<longrightarrow> b \<notin> dom sm \<longrightarrow> b \<in> set work')
     \<and> (\<forall>b r. sm' b = Some r \<longrightarrow> ok (st_pre r))
     \<and> (\<forall>s\<in>set ss. \<exists>r. sm' s = Some r \<and> le post (st_pre r))
     \<and> (\<forall>\<sigma>. (\<forall>b\<in>N. ok (\<sigma> b)) \<longrightarrow> (\<forall>b r. sm b = Some r \<longrightarrow> le (st_pre r) (\<sigma> b)) \<longrightarrow> (\<forall>s\<in>set ss. le post (\<sigma> s))
           \<longrightarrow> (\<forall>b r. sm' b = Some r \<longrightarrow> le (st_pre r) (\<sigma> b)))
     \<and> 2 * potential N sm' + length work' \<le> 2 * potential N sm + length work)"

lemma propagatedD:
  assumes "propagated N post ss (work, sm) (work', sm')"
  shows "dom sm' = dom sm \<union> set ss" "set work \<subseteq> set work'" "set work' \<subseteq> set work \<union> set ss"
    "\<forall>b r. sm b = Some r \<longrightarrow> (\<exists>r'. sm' b = Some r' \<and> st_post r' = st_post r \<and> le (st_pre r) (st_pre r')
           \<and> (b \<notin> set work' \<longrightarrow> r' = r))"
    "\<forall>b. b \<in> dom sm' \<longrightarrow> b \<notin> dom sm \<longrightarrow> b \<in> set work'"
    "\<forall>b r. sm' b = Some r \<longrightarrow> ok (st_pre r)"
    "\<forall>s\<in>set ss. \<exists>r. sm' s = Some r \<and> le post (st_pre r)"
    "\<forall>\<sigma>. (\<forall>b\<in>N. ok (\<sigma> b)) \<longrightarrow> (\<forall>b r. sm b = Some r \<longrightarrow> le (st_pre r) (\<sigma> b)) \<longrightarrow> (\<forall>s\<in>set ss. le post (\<sigma> s))
           \<longrightarrow> (\<forall>b r. sm' b = Some r \<longrightarrow> le (st_pre r) (\<sigma> b))"
    "2 * potential N sm' + length work' \<le> 2 * potential N sm + length work"
  using assms unfolding propagated_def split by - (elim conjE; assumption)+

lemma potential_upd:
  assumes "finite N" "n \<in> N" "slot x < slot (sm n)"
  shows "potential N (sm(n := x)) < potential N sm"
proof -
  have "potential N sm' = slot (sm' n) + (\<Sum>b\<in>N - {n}. slot (sm' b))" for sm'
    unfolding potential_def using assms(1,2) by (simp add: sum.remove)
  moreover have "(\<Sum>b\<in>N - {n}. slot ((sm(n := x)) b)) = (\<Sum>b\<in>N - {n}. slot (sm b))"
    by (rule sum.cong) auto
  ultimately show ?thesis using assms(3) by simp
qed

lemma propagate_one:
  assumes N: "finite N" "n \<in> N" "dom sm \<subseteq> N" and oks: "\<And>b r. sm b = Some r \<Longrightarrow> ok (st_pre r)" "ok post"
    and join: "t_join T = join"
  shows "propagated N post [n] (work, sm) (propagate T initial post n (work, sm))"
proof (cases "sm n")
  case None
  have "slot (Some \<lparr>st_pre = post, st_post = initial\<rparr>) < slot (sm n)"
    using rank_bound [OF oks(2)] None by (simp add: slot_def)
  from potential_upd [where sm = sm, OF N(1,2) this] show ?thesis
    using None oks by (auto simp: propagate_def propagated_def intro!: le_refl)
next
  case (Some r)
  then have okr: "ok (st_pre r)" using oks(1) by blast
  show ?thesis
  proof (cases "snd (join (st_pre r) post)")
    case Unchanged
    then have "le post (st_pre r)" using join_unchanged [OF okr oks(2)] by simp
    moreover from this have "fst (join (st_pre r) post) = st_pre r" by (rule join_same [OF okr oks(2)])
    moreover have "sm(n \<mapsto> r) = sm" using Some by auto
    ultimately show ?thesis using Some Unchanged oks join
      by (auto simp: propagate_def propagated_def split_beta intro!: le_refl)
  next
    case Changed
    let ?p = "fst (join (st_pre r) post)"
    have "slot (Some (r\<lparr>st_pre := ?p\<rparr>)) < slot (sm n)"
      using join_rank [OF okr oks(2) Changed] Some by (simp add: slot_def)
    from potential_upd [where sm = sm, OF N(1,2) this]
    have pot: "potential N (sm(n \<mapsto> r\<lparr>st_pre := ?p\<rparr>)) < potential N sm" .
    have p: "ok ?p" "le (st_pre r) ?p" "le post ?p" using okr oks(2) by (auto intro: join_ok join_left join_right)
    have least: "le ?p (\<sigma> n)" if "\<forall>b\<in>N. ok (\<sigma> b)" "le (st_pre r) (\<sigma> n)" "le post (\<sigma> n)" for \<sigma>
      using that N(2) okr oks(2) by (intro join_least) auto
    have eq: "propagate T initial post n (work, sm) = (work @ [n], sm(n \<mapsto> r\<lparr>st_pre := ?p\<rparr>))"
      using Some Changed join by (simp add: propagate_def split_beta)
    show ?thesis unfolding eq propagated_def using Some oks p pot least
      by (auto intro: le_refl)
  qed
qed

lemma propagated_trans:
  assumes a: "propagated N post xs st1 st2" and b: "propagated N post ys st2 st3"
    and oks: "ok post" "\<And>b r. snd st1 b = Some r \<Longrightarrow> ok (st_pre r)"
  shows "propagated N post (xs @ ys) st1 st3"
proof -
  obtain w1 m1 w2 m2 w3 m3 where st: "st1 = (w1, m1)" "st2 = (w2, m2)" "st3 = (w3, m3)" by (cases st1; cases st2; cases st3)
  note A = propagatedD [OF a [unfolded st]] and B = propagatedD [OF b [unfolded st]]
  have ok1: "ok (st_pre r)" if "m1 b = Some r" for b r using oks(2) that st by auto
  have ok2: "ok (st_pre r)" if "m2 b = Some r" for b r using A(6) that by blast
  have ok3: "ok (st_pre r)" if "m3 b = Some r" for b r using B(6) that by blast
  have keep: "\<exists>r'. m3 b = Some r' \<and> st_post r' = st_post r \<and> le (st_pre r) (st_pre r') \<and> (b \<notin> set w3 \<longrightarrow> r' = r)"
    if b: "m1 b = Some r" for b r
  proof -
    obtain r2 where r2: "m2 b = Some r2" "st_post r2 = st_post r" "le (st_pre r) (st_pre r2)" "b \<notin> set w2 \<longrightarrow> r2 = r"
      using A(4) b by blast
    obtain r3 where r3: "m3 b = Some r3" "st_post r3 = st_post r2" "le (st_pre r2) (st_pre r3)" "b \<notin> set w3 \<longrightarrow> r3 = r2"
      using B(4) r2(1) by blast
    have "le (st_pre r) (st_pre r3)" using le_trans [OF ok1 [OF b] ok2 [OF r2(1)] ok3 [OF r3(1)] r2(3) r3(3)] .
    moreover have "set w2 \<subseteq> set w3" by (rule B(2))
    ultimately show ?thesis using r2 r3 by auto
  qed
  have post: "\<exists>r. m3 s = Some r \<and> le post (st_pre r)" if s: "s \<in> set (xs @ ys)" for s
  proof (cases "s \<in> set ys")
    case True
    then show ?thesis using B(7) by blast
  next
    case False
    then have "s \<in> set xs" using s by simp
    then obtain r2 where r2: "m2 s = Some r2" "le post (st_pre r2)" using A(7) by blast
    obtain r3 where r3: "m3 s = Some r3" "le (st_pre r2) (st_pre r3)" using B(4) r2(1) by blast
    then show ?thesis using le_trans [OF oks(1) ok2 [OF r2(1)] ok3 [OF r3(1)] r2(2) r3(2)] by blast
  qed
  have new: "b \<in> set w3" if "b \<in> dom m3" "b \<notin> dom m1" for b
  proof (cases "b \<in> dom m2")
    case True
    then have "b \<in> set w2" using A(5) that by blast
    then show ?thesis using B(2) by blast
  next
    case False
    then show ?thesis using B(5) that by blast
  qed
  have dom: "dom m3 = dom m1 \<union> set (xs @ ys)" using A(1) B(1) by auto
  have work: "set w1 \<subseteq> set w3" "set w3 \<subseteq> set w1 \<union> set (xs @ ys)" using A(2,3) B(2,3) by auto
  have pot: "2 * potential N m3 + length w3 \<le> 2 * potential N m1 + length w1" using A(9) B(9) by linarith
  have sol: "\<forall>b r. m3 b = Some r \<longrightarrow> le (st_pre r) (\<sigma> b)"
    if "\<forall>b\<in>N. ok (\<sigma> b)" "\<forall>b r. m1 b = Some r \<longrightarrow> le (st_pre r) (\<sigma> b)" "\<forall>s\<in>set (xs @ ys). le post (\<sigma> s)" for \<sigma>
  proof -
    have "\<forall>b r. m2 b = Some r \<longrightarrow> le (st_pre r) (\<sigma> b)" using A(8) that by simp
    then show ?thesis using B(8) that by simp
  qed
  show ?thesis unfolding st propagated_def split
    by (intro conjI allI impI ballI) (use dom work keep new ok3 post sol pot in \<open>blast+\<close>)
qed

lemma propagate_all:
  assumes N: "finite N" "set ss \<subseteq> N" "dom sm \<subseteq> N" and oks: "\<And>b r. sm b = Some r \<Longrightarrow> ok (st_pre r)" "ok post"
    and join: "t_join T = join"
  shows "propagated N post ss (work, sm) (fold (propagate T initial post) ss (work, sm))"
  using N oks(1)
proof (induction ss arbitrary: work sm)
  case Nil
  then show ?case by (auto simp: propagated_def intro: le_refl)
next
  case (Cons n ss)
  obtain w1 m1 where m1: "propagate T initial post n (work, sm) = (w1, m1)" by fastforce
  have one: "propagated N post [n] (work, sm) (w1, m1)"
    using propagate_one [where n = n and work = work and initial = initial, OF Cons.prems(1) _ Cons.prems(3,4) oks(2) join]
      Cons.prems(2) m1 by simp
  have m1ok: "dom m1 \<subseteq> N" "\<And>b r. m1 b = Some r \<Longrightarrow> ok (st_pre r)"
    using propagatedD(1,6) [OF one] Cons.prems(2,3) by auto
  have "propagated N post ss (w1, m1) (fold (propagate T initial post) ss (w1, m1))"
    using Cons.IH [of m1 w1] Cons.prems(1,2) m1ok by simp
  from propagated_trans [OF one this oks(2)] show ?case using Cons.prems(4) m1 by simp
qed

text \<open>A solution of the flow equations, from above.\<close>

definition solution :: "'s transfer \<Rightarrow> 's \<Rightarrow> Bytecode list \<Rightarrow> StacklessControlFlowGraph \<Rightarrow> (BlockId \<Rightarrow> 's) \<Rightarrow> bool" where
  "solution T initial code cfg \<sigma> \<longleftrightarrow> (\<forall>b\<in>dom (blocks cfg). ok (\<sigma> b)) \<and> le initial (\<sigma> (entry_block_id cfg))
     \<and> (\<forall>b\<in>dom (blocks cfg). \<forall>s s'. ok s \<longrightarrow> le s (\<sigma> b) \<longrightarrow> execute_block T b s code cfg = Done s'
          \<longrightarrow> (\<forall>n\<in>set (nexts cfg b). le s' (\<sigma> n)))"

text \<open>The states that the analysis computes are consistent at a block.\<close>

definition settled :: "'s transfer \<Rightarrow> Bytecode list \<Rightarrow> StacklessControlFlowGraph \<Rightarrow> 's state_map \<Rightarrow> BlockId \<Rightarrow> bool" where
  "settled T code cfg sm b \<longleftrightarrow> (\<forall>r. sm b = Some r \<longrightarrow> execute_block T b (st_pre r) code cfg = Done (st_post r)
     \<and> (\<forall>n\<in>set (nexts cfg b). \<exists>r'. sm n = Some r' \<and> le (st_post r) (st_pre r')))"

definition analysis_inv :: "'s transfer \<Rightarrow> 's \<Rightarrow> Bytecode list \<Rightarrow> StacklessControlFlowGraph \<Rightarrow> BlockId list \<times> 's state_map \<Rightarrow> bool" where
  "analysis_inv T initial code cfg = (\<lambda>(work, sm).
     dom sm \<subseteq> dom (blocks cfg) \<and> set work \<subseteq> dom sm \<and> (\<forall>b r. sm b = Some r \<longrightarrow> ok (st_pre r))
     \<and> (\<exists>r. sm (entry_block_id cfg) = Some r \<and> le initial (st_pre r))
     \<and> (\<forall>b. b \<notin> set work \<longrightarrow> settled T code cfg sm b)
     \<and> (\<forall>\<sigma>. solution T initial code cfg \<sigma> \<longrightarrow> (\<forall>b r. sm b = Some r \<longrightarrow> le (st_pre r) (\<sigma> b))))"

lemma execute_block_total:
  assumes closed: "cfg_closed code cfg" and b: "b \<in> dom (blocks cfg)" and s: "ok s"
    and ex: "\<And>s i off. ok s \<Longrightarrow> i \<in> set code \<Longrightarrow> ok (t_execute T s i off)"
  shows "\<exists>s'. execute_block T b s code cfg = Done s' \<and> ok s'"
  unfolding execute_block_offsets [OF b]
proof (rule ofold_invariant [of ok, OF s])
  fix x s assume "x \<in> set (block_offsets T cfg b)" "ok s"
  then have "x < length code" "ok (t_execute T s (code ! x) x)"
    using block_offsets_bound [OF closed b] ex by (auto intro!: ex nth_mem)
  then show "\<exists>s'. execute_at T code x s = Done s' \<and> ok s'" by (simp add: execute_at_def code_at_def)
qed

lemma analyze_step_inv:
  assumes closed: "cfg_closed code cfg"
    and ex: "\<And>s i off. ok s \<Longrightarrow> i \<in> set code \<Longrightarrow> ok (t_execute T s i off)"
    and join: "t_join T = join" and init: "ok initial"
    and inv: "analysis_inv T initial code cfg (work, sm)" and work: "work = b # rest"
  shows "\<exists>work' sm'. analyze_step T initial code cfg (work, sm) = Done (work', sm') \<and> analysis_inv T initial code cfg (work', sm')
    \<and> 2 * potential (dom (blocks cfg)) sm' + length work' < 2 * potential (dom (blocks cfg)) sm + length work"
proof -
  let ?N = "dom (blocks cfg)"
  have I: "dom sm \<subseteq> ?N" "set work \<subseteq> dom sm" "\<And>b r. sm b = Some r \<Longrightarrow> ok (st_pre r)"
    "\<exists>r. sm (entry_block_id cfg) = Some r \<and> le initial (st_pre r)" "\<And>b. b \<notin> set work \<Longrightarrow> settled T code cfg sm b"
    "\<And>\<sigma> b r. solution T initial code cfg \<sigma> \<Longrightarrow> sm b = Some r \<Longrightarrow> le (st_pre r) (\<sigma> b)"
    using inv unfolding analysis_inv_def split by blast+
  obtain r where r: "sm b = Some r" using I(2) work by auto
  have bN: "b \<in> ?N" using I(1) r by blast
  obtain post where post: "execute_block T b (st_pre r) code cfg = Done post" "ok post"
    using execute_block_total [OF closed bN I(3) [OF r]] ex by blast
  have nexts: "cfg_successors cfg b = Done (nexts cfg b)" "set (nexts cfg b) \<subseteq> ?N"
    using bN closed unfolding cfg_closed_def by (auto simp: cfg_successors_def cfg_block_def) blast
  obtain w2 m2 where st2: "fold (propagate T initial post) (nexts cfg b) (rest, sm) = (w2, m2)" by fastforce
  have "propagated ?N post (nexts cfg b) (rest, sm) (w2, m2)"
    using propagate_all [OF _ nexts(2) I(1) I(3) post(2) join, where work = rest and initial = initial] closed st2
    by (simp add: cfg_closed_def)
  note P = propagatedD [OF this]
  obtain r2 where r2: "m2 b = Some r2" "le (st_pre r) (st_pre r2)" "b \<notin> set w2 \<longrightarrow> r2 = r" using P(4) r by blast
  let ?m3 = "m2(b \<mapsto> r2\<lparr>st_post := post\<rparr>)"
  have step: "analyze_step T initial code cfg (work, sm) = Done (w2, ?m3)"
    by (simp add: analyze_step_def work r post(1) nexts(1) st2 r2(1))
  have pre3: "\<exists>q'. ?m3 c = Some q' \<and> st_pre q' = st_pre q" if "m2 c = Some q" for c q
    using that r2(1) by (cases "c = b") auto
  have pre3': "\<exists>q'. m2 c = Some q' \<and> st_pre q' = st_pre q" if "?m3 c = Some q" for c q
    using that r2(1) by (cases "c = b") auto
  have mono: "\<exists>q'. ?m3 c = Some q' \<and> le (st_pre q) (st_pre q')" if "sm c = Some q" for c q
    using P(4) that pre3 by metis
  have above: "\<exists>q. ?m3 n = Some q \<and> le post (st_pre q)" if "n \<in> set (nexts cfg b)" for n
    using P(7) that pre3 by metis
  have pot: "2 * potential ?N ?m3 + length w2 < 2 * potential ?N sm + length work"
  proof -
    have "slot (?m3 c) = slot (m2 c)" for c using r2(1) by (simp add: slot_def)
    then have "potential ?N ?m3 = potential ?N m2" by (simp add: potential_def)
    then show ?thesis using P(9) work by simp
  qed
  have ok3: "ok (st_pre q)" if "?m3 c = Some q" for c q using pre3' [OF that] P(6) by metis
  have settled3: "settled T code cfg ?m3 c" if c: "c \<notin> set w2" for c
  proof (cases "c = b")
    case True
    then have "r2 = r" using c r2(3) by simp
    then show ?thesis using True post(1) above by (simp add: settled_def)
  next
    case False
    show ?thesis unfolding settled_def
    proof (intro allI impI)
      fix q assume q: "?m3 c = Some q"
      then have m2: "m2 c = Some q" using False by simp
      have "c \<in> dom sm" using P(5) m2 c by blast
      then obtain q0 where q0: "sm c = Some q0" by blast
      then have "q = q0" using P(4) c m2 by (metis option.inject)
      moreover have "c \<notin> set work" using c P(2) False work by auto
      ultimately have old: "execute_block T c (st_pre q) code cfg = Done (st_post q)"
        "\<forall>n\<in>set (nexts cfg c). \<exists>r'. sm n = Some r' \<and> le (st_post q) (st_pre r')"
        using I(5) [of c] q0 by (auto simp: settled_def)
      have "\<exists>r'. ?m3 n = Some r' \<and> le (st_post q) (st_pre r')" if n: "n \<in> set (nexts cfg c)" for n
      proof -
        obtain q1 where q1: "sm n = Some q1" "le (st_post q) (st_pre q1)" using old(2) n by blast
        obtain q2 where q2: "?m3 n = Some q2" "le (st_pre q1) (st_pre q2)" using mono [OF q1(1)] by blast
        have "ok (st_post q)"
          using execute_block_total [OF closed _ ok3 [OF q], of c T] ex old(1) I(1) q0 by force
        then show ?thesis using le_trans [OF _ I(3) [OF q1(1)] ok3 [OF q2(1)] q1(2) q2(2)] q2(1) by blast
      qed
      then show "execute_block T c (st_pre q) code cfg = Done (st_post q)
          \<and> (\<forall>n\<in>set (nexts cfg c). \<exists>r'. ?m3 n = Some r' \<and> le (st_post q) (st_pre r'))"
        using old(1) by blast
    qed
  qed
  have entry3: "\<exists>q. ?m3 (entry_block_id cfg) = Some q \<and> le initial (st_pre q)"
  proof -
    obtain q where q: "sm (entry_block_id cfg) = Some q" "le initial (st_pre q)" using I(4) by blast
    obtain q' where q': "?m3 (entry_block_id cfg) = Some q'" "le (st_pre q) (st_pre q')" using mono [OF q(1)] by blast
    then show ?thesis using le_trans [OF init I(3) [OF q(1)] ok3 [OF q'(1)] q(2) q'(2)] by blast
  qed
  have sol3: "le (st_pre q) (\<sigma> c)" if \<sigma>: "solution T initial code cfg \<sigma>" and q: "?m3 c = Some q" for \<sigma> c q
  proof -
    have "le (st_pre r) (\<sigma> b)" using I(6) [OF \<sigma> r] .
    then have "\<forall>n\<in>set (nexts cfg b). le post (\<sigma> n)" using \<sigma> bN I(3) [OF r] post(1) unfolding solution_def by blast
    moreover have "\<forall>b\<in>?N. ok (\<sigma> b)" using \<sigma> by (simp add: solution_def)
    moreover have "\<forall>b r. sm b = Some r \<longrightarrow> le (st_pre r) (\<sigma> b)" using I(6) [OF \<sigma>] by blast
    ultimately have "\<forall>b r. m2 b = Some r \<longrightarrow> le (st_pre r) (\<sigma> b)" using P(8) by blast
    then show ?thesis using pre3' [OF q] by metis
  qed
  have "dom ?m3 \<subseteq> ?N" "set w2 \<subseteq> dom ?m3"
    using P(1,3) I(1,2) nexts(2) bN work by auto
  then have "analysis_inv T initial code cfg (w2, ?m3)"
    unfolding analysis_inv_def split using ok3 entry3 settled3 sol3 by blast
  then show ?thesis using step pot by blast
qed

text \<open>The analysis ends, and its result is the least solution.\<close>

lemma analyze_total:
  assumes closed: "cfg_closed code cfg"
    and ex: "\<And>s i off. ok s \<Longrightarrow> i \<in> set code \<Longrightarrow> ok (t_execute T s i off)"
    and join: "t_join T = join" and init: "ok initial"
  shows "\<exists>sm. analyze_function T initial code cfg = Done sm \<and> analysis_inv T initial code cfg ([], sm)"
proof -
  let ?e = "entry_block_id cfg"
  let ?s0 = "([?e], [?e \<mapsto> \<lparr>st_pre = initial, st_post = initial\<rparr>])"
  have "\<exists>st. loop (\<lambda>(work, _). work \<noteq> []) (analyze_step T initial code cfg) ?s0 = Done st
      \<and> analysis_inv T initial code cfg st \<and> \<not> (case st of (work, _) \<Rightarrow> work \<noteq> [])"
  proof (rule loop_measure [where m = "\<lambda>(work, sm). 2 * potential (dom (blocks cfg)) sm + length work"])
    fix st assume st: "analysis_inv T initial code cfg st" "case st of (work, _) \<Rightarrow> work \<noteq> []"
    then obtain b rest sm where "st = (b # rest, sm)" by (cases st) (auto simp: neq_Nil_conv)
    then show "\<exists>s'. analyze_step T initial code cfg st = Done s' \<and> analysis_inv T initial code cfg s'
        \<and> (case s' of (work, sm) \<Rightarrow> 2 * potential (dom (blocks cfg)) sm + length work)
          < (case st of (work, sm) \<Rightarrow> 2 * potential (dom (blocks cfg)) sm + length work)"
      using analyze_step_inv [OF closed ex join init, of "b # rest" sm b rest] st(1) by auto
  next
    show "analysis_inv T initial code cfg ?s0"
      using closed init by (auto simp: analysis_inv_def cfg_closed_def settled_def solution_def le_refl)
  qed
  then obtain sm where "loop (\<lambda>(work, _). work \<noteq> []) (analyze_step T initial code cfg) ?s0 = Done ([], sm)"
    "analysis_inv T initial code cfg ([], sm)"
    by auto
  then show ?thesis by (simp add: analyze_function_def)
qed

end

section \<open>States of instructions\<close>

definition exec_at :: "'s transfer \<Rightarrow> Bytecode list \<Rightarrow> CodeOffset \<Rightarrow> 's \<Rightarrow> 's" where
  "exec_at T code i s = t_execute T s (code ! i) i"

text \<open>The state that every offset of a run starts from.\<close>

fun trail :: "'s transfer \<Rightarrow> Bytecode list \<Rightarrow> CodeOffset list \<Rightarrow> 's \<Rightarrow> (CodeOffset \<times> 's) list" where
  "trail T code [] s = []"
| "trail T code (x # xs) s = (x, s) # trail T code xs (exec_at T code x s)"

definition observed :: "'s transfer \<Rightarrow> Bytecode list \<Rightarrow> ('s \<Rightarrow> 's \<Rightarrow> 'a) \<Rightarrow> CodeOffset \<Rightarrow> 's \<Rightarrow> 'a" where
  "observed T code f i s = (if t_backward T then f (exec_at T code i s) s else f s (exec_at T code i s))"

lemma execute_at_Done: "i < length code \<Longrightarrow> execute_at T code i s = Done (exec_at T code i s)"
  by (simp add: execute_at_def code_at_def exec_at_def)

lemma run_trail: "(\<forall>x\<in>set xs. x < length code) \<Longrightarrow> ofold (execute_at T code) xs s = Done (fold (exec_at T code) xs s)"
  by (induction xs arbitrary: s) (auto simp: execute_at_Done)

lemma fst_trail [simp]: "map fst (trail T code xs s) = xs"
  by (induction xs arbitrary: s) auto

lemma trail_append: "trail T code (xs @ ys) s = trail T code xs s @ trail T code ys (fold (exec_at T code) xs s)"
  by (induction xs arbitrary: s) auto

lemma trail_dom: "map_of (trail T code xs s) i = None \<longleftrightarrow> i \<notin> set xs"
  by (metis fst_trail map_of_eq_None_iff set_map)

lemma annotate_trail:
  assumes "\<forall>x\<in>set xs. x < length code" "distinct xs"
  shows "ofold (annotate T code f) xs (s, res) = Done (fold (exec_at T code) xs s,
    (\<lambda>i. case map_of (trail T code xs s) i of Some a \<Rightarrow> Some (observed T code f i a) | None \<Rightarrow> res i))"
  using assms
proof (induction xs arbitrary: s res)
  case (Cons x xs)
  have x: "map_of (trail T code xs (exec_at T code x s)) x = None" using Cons.prems by (simp add: trail_dom)
  have "annotate T code f x (s, res) = Done (exec_at T code x s, res(x \<mapsto> observed T code f x s))"
    using Cons.prems by (simp add: annotate_def execute_at_Done observed_def)
  then show ?case using Cons x by (auto simp: fun_eq_iff split: option.splits)
qed simp

text \<open>The states along a block, in both directions.\<close>

lemma trail_up:
  assumes "l \<le> i" "i \<le> u"
  shows "map_of (trail T code [l..<Suc u] s) i = Some (fold (exec_at T code) [l..<i] s)"
proof -
  have "[l..<Suc u] = [l..<i] @ i # [Suc i..<Suc u]"
    using assms by (metis le_SucI less_Suc_eq_le upt_add_eq_append le_add_diff_inverse upt_conv_Cons)
  then have "trail T code [l..<Suc u] s = trail T code [l..<i] s @ (i, fold (exec_at T code) [l..<i] s) # trail T code [Suc i..<Suc u] (exec_at T code i (fold (exec_at T code) [l..<i] s))"
    by (simp add: trail_append)
  moreover have "map_of (trail T code [l..<i] s) i = None" by (simp add: trail_dom)
  ultimately show ?thesis by (simp add: map_add_def)
qed

lemma trail_down:
  assumes "l \<le> i" "i \<le> u"
  shows "map_of (trail T code (rev [l..<Suc u]) s) i = Some (fold (exec_at T code) (rev [Suc i..<Suc u]) s)"
proof -
  have "[l..<Suc u] = [l..<i] @ i # [Suc i..<Suc u]"
    using assms by (metis le_SucI less_Suc_eq_le upt_add_eq_append le_add_diff_inverse upt_conv_Cons)
  then have "rev [l..<Suc u] = rev [Suc i..<Suc u] @ i # rev [l..<i]" by simp
  then have "trail T code (rev [l..<Suc u]) s = trail T code (rev [Suc i..<Suc u]) s
      @ (i, fold (exec_at T code) (rev [Suc i..<Suc u]) s) # trail T code (rev [l..<i]) (exec_at T code i (fold (exec_at T code) (rev [Suc i..<Suc u]) s))"
    by (simp add: trail_append del: upt_Suc)
  moreover have "map_of (trail T code (rev [Suc i..<Suc u]) s) i = None" by (simp add: trail_dom del: upt_Suc)
  ultimately show ?thesis by (simp add: map_add_def del: upt_Suc)
qed

text \<open>The table that \<open>state_per_instruction\<close> builds, when no offset is in two blocks.\<close>

definition entering :: "'s transfer \<Rightarrow> Bytecode list \<Rightarrow> StacklessControlFlowGraph \<Rightarrow> 's state_map \<Rightarrow> BlockId \<Rightarrow> CodeOffset \<Rightarrow> 's" where
  "entering T code cfg sm b i = the (map_of (trail T code (block_offsets T cfg b) (st_pre (the (sm b)))) i)"

lemma distinct_block_offsets: "distinct (block_offsets T cfg b)"
  by (auto simp: block_offsets_def split: BlockContent.split)

lemma state_per_instruction_table:
  assumes closed: "cfg_closed code cfg" and dom: "dom sm \<subseteq> dom (blocks cfg)"
    and disjoint: "\<And>b b' i. b \<in> dom sm \<Longrightarrow> b' \<in> dom sm \<Longrightarrow> i \<in> set (block_offsets T cfg b) \<Longrightarrow> i \<in> set (block_offsets T cfg b') \<Longrightarrow> b = b'"
  shows "\<exists>res. state_per_instruction T sm code cfg f = Done res
    \<and> (\<forall>b\<in>dom sm. \<forall>i\<in>set (block_offsets T cfg b). res i = Some (observed T code f i (entering T code cfg sm b i)))
    \<and> (\<forall>i. (\<forall>b\<in>dom sm. i \<notin> set (block_offsets T cfg b)) \<longrightarrow> res i = None)"
proof -
  have "\<exists>res. ofold (annotate_block T code cfg f sm) bs (\<lambda>_. None) = Done res
    \<and> (\<forall>b\<in>set bs. \<forall>i\<in>set (block_offsets T cfg b). res i = Some (observed T code f i (entering T code cfg sm b i)))
    \<and> (\<forall>i. (\<forall>b\<in>set bs. i \<notin> set (block_offsets T cfg b)) \<longrightarrow> res i = None)"
    if "set bs \<subseteq> dom sm" for bs
    using that
  proof (induction bs rule: rev_induct)
    case (snoc b bs)
    obtain res where res: "ofold (annotate_block T code cfg f sm) bs (\<lambda>_. None) = Done res"
      "\<forall>c\<in>set bs. \<forall>i\<in>set (block_offsets T cfg c). res i = Some (observed T code f i (entering T code cfg sm c i))"
      "\<forall>i. (\<forall>c\<in>set bs. i \<notin> set (block_offsets T cfg c)) \<longrightarrow> res i = None"
      using snoc by auto
    have b: "b \<in> dom sm" "b \<in> dom (blocks cfg)" using snoc.prems dom by auto
    have bound: "\<forall>x\<in>set (block_offsets T cfg b). x < length code" using block_offsets_bound [OF closed b(2)] by blast
    let ?t = "trail T code (block_offsets T cfg b) (st_pre (the (sm b)))"
    let ?res = "\<lambda>i. case map_of ?t i of Some a \<Rightarrow> Some (observed T code f i a) | None \<Rightarrow> res i"
    have new: "?res i = (if i \<in> set (block_offsets T cfg b) then Some (observed T code f i (entering T code cfg sm b i)) else res i)" for i
      using trail_dom [of T code "block_offsets T cfg b" "st_pre (the (sm b))" i]
      by (auto simp: entering_def split: option.split)
    have "annotate_block T code cfg f sm b res = Done ?res"
    proof (cases "blk_content (the (blocks cfg b)) = Dummy")
      case True
      then have "block_offsets T cfg b = []" by (simp add: block_offsets_def)
      then show ?thesis using True by (simp add: annotate_block_offsets [OF b(2)])
    next
      case False
      then show ?thesis
        by (simp add: annotate_block_offsets [OF b(2)] annotate_trail [OF bound distinct_block_offsets])
    qed
    then have "ofold (annotate_block T code cfg f sm) (bs @ [b]) (\<lambda>_. None) = Done ?res"
      using res(1) by (simp add: ofold_append)
    moreover have "?res i = Some (observed T code f i (entering T code cfg sm c i))"
      if c: "c \<in> set (bs @ [b])" "i \<in> set (block_offsets T cfg c)" for c i
    proof (cases "i \<in> set (block_offsets T cfg b)")
      case True
      then have "c = b" using disjoint [of c b i] c snoc.prems b(1) by auto
      then show ?thesis using True new by simp
    next
      case False
      then have "c \<in> set bs" using c by auto
      then show ?thesis using False new res(2) c(2) by simp
    qed
    moreover have "?res i = None" if "\<forall>c\<in>set (bs @ [b]). i \<notin> set (block_offsets T cfg c)" for i
      using that new [of i] res(3) by simp
    ultimately show ?case by blast
  qed simp
  moreover have "finite (dom sm)" using closed dom by (auto simp: cfg_closed_def intro: finite_subset)
  ultimately show ?thesis unfolding state_per_instruction_def
    by (metis order_refl set_sorted_list_of_set)
qed

section \<open>Graphs of functions\<close>

lemma blocks_finite:
  assumes ok: "blocks_ok code offs ignore blks keys"
  shows "finite (dom blks)"
proof -
  have "b \<in> {DUMMY_ENTRANCE, DUMMY_EXIT} \<union> snd ` set keys" if b: "b \<in> dom blks" for b
  proof (cases "b = DUMMY_ENTRANCE \<or> b = DUMMY_EXIT")
    case False
    obtain blk where "blks b = Some blk" using b by blast
    then obtain l where "map_of keys l = Some b" using ok False unfolding blocks_ok_def by blast
    then show ?thesis by (force dest: map_of_SomeD)
  qed auto
  then have "dom blks \<subseteq> {DUMMY_ENTRANCE, DUMMY_EXIT} \<union> snd ` set keys" by blast
  then show ?thesis by (rule finite_subset) simp
qed

lemma key_in_dom: "blocks_ok code offs ignore blks keys \<Longrightarrow> map_of keys q = Some b \<Longrightarrow> b \<in> dom blks"
  by (drule key_span, assumption) (auto simp: span_def split: option.splits)

lemma blocks_successors:
  assumes ok: "blocks_ok code offs ignore blks keys" and b: "blks b = Some blk"
  shows "set (blk_successors blk) \<subseteq> dom blks"
proof -
  have exit: "DUMMY_EXIT \<in> dom blks" using ok by (auto simp: blocks_ok_def)
  show ?thesis
  proof (cases "b = DUMMY_ENTRANCE \<or> b = DUMMY_EXIT")
    case True
    moreover obtain e where "map_of keys 0 = Some e" using ok by (auto simp: blocks_ok_def)
    ultimately show ?thesis using ok b key_in_dom [OF ok, of 0 e] by (auto simp: blocks_ok_def)
  next
    case False
    then obtain l u ss where blk: "blk = \<lparr>blk_successors = ss, blk_content = Basic l u\<rparr>" "block_spec code offs ignore keys l u ss"
      using ok b unfolding blocks_ok_def by blast
    have "the (map_of keys q) \<in> dom blks" if q: "q \<in> set (flow code offs ignore u)" for q
    proof -
      obtain c where "map_of keys q = Some c" using blk(2) q unfolding block_spec_def by blast
      then show ?thesis using key_in_dom [OF ok] by simp
    qed
    then show ?thesis using blk exit unfolding block_spec_def by auto
  qed
qed

lemma blocks_content:
  assumes ok: "blocks_ok code offs ignore blks keys" and b: "blks b = Some blk" "blk_content blk = Basic l u"
  shows "u < length code"
  using span_block [OF ok, of b l u] b by (auto simp: span_def block_spec_def)

lemma closed_forward:
  assumes "blocks_ok code offs ignore (blocks cfg) keys" "entry_block_id cfg = DUMMY_ENTRANCE"
  shows "cfg_closed code cfg"
  unfolding cfg_closed_def
  using blocks_finite [OF assms(1)] blocks_successors [OF assms(1)] blocks_content [OF assms(1)] assms
  by (auto simp: blocks_ok_def)

lemma mem_block_offsets:
  "i \<in> set (block_offsets T cfg b) \<longleftrightarrow> (case blk_content (the (blocks cfg b)) of Dummy \<Rightarrow> False | Basic l u \<Rightarrow> l \<le> i \<and> i \<le> u)"
  by (auto simp: block_offsets_def split: BlockContent.split)

lemma mem_block_offsets_span:
  "b \<in> dom (blocks cfg) \<Longrightarrow> i \<in> set (block_offsets T cfg b) \<longleftrightarrow> (\<exists>l u. span (blocks cfg) b = Some (l, u) \<and> l \<le> i \<and> i \<le> u)"
  by (auto simp: mem_block_offsets span_def split: BlockContent.split)

lemma span_offsets:
  "span (blocks cfg) b = Some (l, u) \<Longrightarrow> block_offsets T cfg b = (if t_backward T then rev [l..<Suc u] else [l..<Suc u]) \<and> b \<in> dom (blocks cfg)"
  by (auto simp: span_def block_offsets_def split: option.splits BlockContent.splits)

text \<open>The backward graph: the same blocks, with the edges reversed, and from the exit to every
  basic block.\<close>

lemma add_predecessors:
  assumes "\<forall>e\<in>set es. snd e \<in> dom preds"
  shows "\<exists>preds'. ofold (add_predecessor from_all) es preds = Done preds' \<and> dom preds' = dom preds
    \<and> (\<forall>b\<in>dom preds. set (the (preds' b)) = set (the (preds b))
         \<union> (if from_all \<and> b = DUMMY_EXIT then {} else {a. (a, b) \<in> set es}))"
  using assms
proof (induction es arbitrary: preds)
  case (Cons e es)
  obtain ps where ps: "preds (snd e) = Some ps" using Cons.prems by auto
  let ?p1 = "if from_all \<and> snd e = DUMMY_EXIT then preds else preds(snd e \<mapsto> ps @ [fst e])"
  have step: "add_predecessor from_all e preds = Done ?p1" using ps by (simp add: add_predecessor_def)
  have d: "dom ?p1 = dom preds" using ps by auto
  obtain p2 where p2: "ofold (add_predecessor from_all) es ?p1 = Done p2" "dom p2 = dom ?p1"
    "\<forall>b\<in>dom ?p1. set (the (p2 b)) = set (the (?p1 b)) \<union> (if from_all \<and> b = DUMMY_EXIT then {} else {a. (a, b) \<in> set es})"
    using Cons.IH [of ?p1] Cons.prems d by auto
  have "set (the (p2 b)) = set (the (preds b)) \<union> (if from_all \<and> b = DUMMY_EXIT then {} else {a. (a, b) \<in> set (e # es)})"
    if "b \<in> dom preds" for b
    using p2(3) d that ps by (cases e) (auto split: if_splits)
  then show ?case using step p2(1,2) d by (intro exI [of _ p2]) simp
qed auto

lemma mem_block_edges:
  "(a, b) \<in> set (block_edges blks nodes) \<longleftrightarrow> a \<in> set nodes \<and> b \<in> set (blk_successors (the (blks a)))"
  by (auto simp: block_edges_def)

lemma new_backward_total:
  assumes wb: "well_blocked code offs False"
  shows "\<exists>cfg blks keys. new_backward code True = Done cfg \<and> blocks_ok code offs False blks keys
    \<and> dom (blocks cfg) = dom blks \<and> entry_block_id cfg = DUMMY_EXIT \<and> cfg_closed code cfg
    \<and> (\<forall>b. span (blocks cfg) b = span blks b)
    \<and> (\<forall>b\<in>dom blks. b \<noteq> DUMMY_EXIT \<longrightarrow> set (nexts cfg b) = {a \<in> dom blks. b \<in> set (blk_successors (the (blks a)))})
    \<and> (\<forall>b. span blks b \<noteq> None \<longrightarrow> b \<in> set (nexts cfg DUMMY_EXIT))"
proof -
  obtain blks keys where c: "collect_blocks code False = Done blks" "blocks_ok code offs False blks keys"
    using collect_blocks_total [OF wb] by blast
  have fin: "finite (dom blks)" by (rule blocks_finite [OF c(2)])
  let ?nodes = "sorted_list_of_set (dom blks)"
  have nodes: "set ?nodes = dom blks" using fin by simp
  let ?p0 = "\<lambda>b. if b \<in> set ?nodes then Some ([] :: BlockId list) else None"
  have p0: "dom ?p0 = dom blks" using nodes by (auto split: if_splits)
  have "snd e \<in> dom ?p0" if e: "e \<in> set (block_edges blks ?nodes)" for e
  proof -
    obtain a b where ab: "e = (a, b)" by (cases e)
    then have a: "a \<in> dom blks" "b \<in> set (blk_successors (the (blks a)))"
      using e nodes mem_block_edges [of a b blks ?nodes] by simp_all
    then obtain blk where "blks a = Some blk" by blast
    then have "b \<in> dom blks" using blocks_successors [OF c(2), of a blk] a(2) by auto
    then show ?thesis using ab p0 by simp
  qed
  then have "\<forall>e\<in>set (block_edges blks ?nodes). snd e \<in> dom ?p0" by blast
  from add_predecessors [OF this, of True]
  obtain p1 where p1a: "ofold (add_predecessor True) (block_edges blks ?nodes) ?p0 = Done p1" "dom p1 = dom ?p0"
    "\<forall>b\<in>dom ?p0. set (the (p1 b)) = set (the (?p0 b)) \<union> (if True \<and> b = DUMMY_EXIT then {} else {a. (a, b) \<in> set (block_edges blks ?nodes)})"
    by blast
  have "set (the (p1 b)) = (if b = DUMMY_EXIT then {} else {a. (a, b) \<in> set (block_edges blks ?nodes)})"
    if b: "b \<in> dom blks" for b
  proof -
    have "set (the (?p0 b)) = {}" using b nodes by simp
    then show ?thesis using p1a(3) p0 b by simp
  qed
  then have p1: "ofold (add_predecessor True) (block_edges blks ?nodes) ?p0 = Done p1" "dom p1 = dom blks"
    "\<forall>b\<in>dom blks. set (the (p1 b)) = (if b = DUMMY_EXIT then {} else {a. (a, b) \<in> set (block_edges blks ?nodes)})"
    using p1a(1,2) p0 by auto
  have exit: "DUMMY_EXIT \<in> dom blks" using c(2) by (auto simp: blocks_ok_def)
  obtain pe where pe: "p1 DUMMY_EXIT = Some pe" using exit p1(2) by blast
  let ?p2 = "p1(DUMMY_EXIT \<mapsto> pe @ filter (\<lambda>b. b \<noteq> DUMMY_ENTRANCE \<and> b \<noteq> DUMMY_EXIT) ?nodes)"
  define cfg where "cfg = \<lparr>entry_block_id = DUMMY_EXIT,
       blocks = (\<lambda>b. case (?p2 b, blks b) of
         (Some ps, Some blk) \<Rightarrow> Some \<lparr>blk_successors = ps, blk_content = blk_content blk\<rparr> | _ \<Rightarrow> None),
       backward = True, ignore_return_abort = False\<rparr>"
  have cfg: "new_backward code True = Done cfg"
    using c(1) p1(1) pe by (simp add: new_backward_def new_backward_with_options_def Let_def cfg_def)
  have d2: "dom ?p2 = dom blks" using p1(2) exit by auto
  have blk: "blocks cfg b = map_option (\<lambda>blk. \<lparr>blk_successors = the (?p2 b), blk_content = blk_content blk\<rparr>) (blks b)" for b
  proof (cases "blks b")
    case None
    moreover have "b \<noteq> DUMMY_EXIT" using None exit by auto
    ultimately show ?thesis by (simp add: cfg_def split: option.split)
  next
    case (Some x)
    then have "b \<in> dom ?p2" using d2 by blast
    then obtain ps where "?p2 b = Some ps" by blast
    then show ?thesis using Some by (simp add: cfg_def)
  qed
  have dom: "dom (blocks cfg) = dom blks" using blk by (auto simp: dom_def)
  have span: "span (blocks cfg) b = span blks b" for b by (simp add: span_def blk split: option.split)
  have nexts: "nexts cfg b = the (?p2 b)" if "b \<in> dom blks" for b using that blk [of b] by auto
  have preds: "set (nexts cfg b) = {a \<in> dom blks. b \<in> set (blk_successors (the (blks a)))}" if b: "b \<in> dom blks" "b \<noteq> DUMMY_EXIT" for b
    using nexts [OF b(1)] p1(3) b nodes by (auto simp: mem_block_edges)
  have exits: "set (nexts cfg DUMMY_EXIT) = {b \<in> dom blks. b \<noteq> DUMMY_ENTRANCE \<and> b \<noteq> DUMMY_EXIT}"
  proof -
    have "pe = []" using bspec [OF p1(3) exit] pe by simp
    then show ?thesis using nexts [OF exit] pe nodes by simp
  qed
  have "cfg_closed code cfg" unfolding cfg_closed_def
  proof (intro conjI allI impI)
    show "finite (dom (blocks cfg))" using dom fin by simp
    show "entry_block_id cfg \<in> dom (blocks cfg)" using exit dom by (simp add: cfg_def)
    fix b x assume x: "blocks cfg b = Some x"
    then have b: "b \<in> dom blks" using dom by blast
    show "set (blk_successors x) \<subseteq> dom (blocks cfg)"
      using preds [OF b] exits x dom by (cases "b = DUMMY_EXIT") auto
    fix l u assume "blk_content x = Basic l u"
    then have "span blks b = Some (l, u)" using x span [of b] by (simp add: span_def)
    then show "u < length code" using span_block [OF c(2)] unfolding block_spec_def by blast
  qed
  moreover have "b \<in> set (nexts cfg DUMMY_EXIT)" if b: "span blks b \<noteq> None" for b
  proof -
    have "b \<noteq> DUMMY_ENTRANCE" "b \<noteq> DUMMY_EXIT" "b \<in> dom blks" using b c(2) by (auto simp: span_def blocks_ok_def split: option.splits)
    then show ?thesis using exits by simp
  qed
  moreover have "entry_block_id cfg = DUMMY_EXIT" by (simp add: cfg_def)
  ultimately show ?thesis using cfg c(2) dom span preds by blast
qed

section \<open>States along the flow of control\<close>

context finite_domain
begin

lemma execs_ok:
  assumes "ok s" "\<And>s i off. ok s \<Longrightarrow> i \<in> set code \<Longrightarrow> ok (t_execute T s i off)" "\<forall>i\<in>set xs. i < length code"
  shows "ok (fold (exec_at T code) xs s)"
  using assms(1,3) by (induction xs arbitrary: s) (auto simp: exec_at_def assms(2))

lemma settled_post:
  assumes closed: "cfg_closed code cfg" and b: "b \<in> dom (blocks cfg)" "sm b = Some r" "settled T code cfg sm b"
  shows "st_post r = fold (exec_at T code) (block_offsets T cfg b) (st_pre r)"
    and "n \<in> set (nexts cfg b) \<Longrightarrow> \<exists>r'. sm n = Some r' \<and> le (st_post r) (st_pre r')"
proof -
  have "\<forall>x\<in>set (block_offsets T cfg b). x < length code" using block_offsets_bound [OF closed b(1)] by blast
  then show "st_post r = fold (exec_at T code) (block_offsets T cfg b) (st_pre r)"
    using b(2,3) by (simp add: settled_def execute_block_offsets [OF b(1)] run_trail)
qed (use b in \<open>simp add: settled_def\<close>)

text \<open>A forward analysis: the states before the reached instructions are above the initial one
  and what the predecessors leave.\<close>

lemma forward_states:
  assumes wb: "well_blocked code offs False" and fwd: "\<not> t_backward T"
    and ex: "\<And>s i off. ok s \<Longrightarrow> i \<in> set code \<Longrightarrow> ok (t_execute T s i off)"
    and join: "t_join T = join" and init: "ok initial"
  shows "\<exists>cfg sm V bef. new_forward code = Done cfg \<and> analyze_function T initial code cfg = Done sm
    \<and> state_per_instruction T sm code cfg f = Done (\<lambda>i. if i \<in> V then Some (f (bef i) (exec_at T code i (bef i))) else None)
    \<and> 0 \<in> V \<and> le initial (bef 0)
    \<and> (\<forall>i\<in>V. i < length code \<and> ok (bef i) \<and> (\<forall>j\<in>set (succs code offs i). j \<in> V \<and> le (exec_at T code i (bef i)) (bef j)))"
proof -
  obtain blks keys where c: "collect_blocks code False = Done blks" "blocks_ok code offs False blks keys"
    using collect_blocks_total [OF wb] by blast
  define cfg where "cfg = \<lparr>entry_block_id = DUMMY_ENTRANCE, blocks = blks, backward = False, ignore_return_abort = False\<rparr>"
  have cfg: "new_forward code = Done cfg" "blocks cfg = blks" "entry_block_id cfg = DUMMY_ENTRANCE"
    using c(1) by (simp_all add: new_forward_def new_forward_with_options_def cfg_def)
  have closed: "cfg_closed code cfg" using closed_forward c(2) cfg by metis
  obtain sm where sm: "analyze_function T initial code cfg = Done sm" "analysis_inv T initial code cfg ([], sm)"
    using analyze_total [OF closed ex join init] by blast
  have inv: "dom sm \<subseteq> dom blks" "\<And>b r. sm b = Some r \<Longrightarrow> ok (st_pre r)" "\<And>b. settled T code cfg sm b"
    "\<exists>r. sm DUMMY_ENTRANCE = Some r \<and> le initial (st_pre r)"
    using sm(2) by (auto simp: analysis_inv_def cfg)
  have off: "block_offsets T cfg b = [l..<Suc u]" if "span blks b = Some (l, u)" for b l u
    using span_offsets [of cfg b l u T] that fwd cfg by simp
  have in_off: "i \<in> set (block_offsets T cfg b) \<longleftrightarrow> (\<exists>l u. span blks b = Some (l, u) \<and> l \<le> i \<and> i \<le> u)" if "b \<in> dom sm" for b i
    using mem_block_offsets_span [of b cfg i T] that inv(1) cfg by blast
  have disjoint: "b = b'" if "b \<in> dom sm" "b' \<in> dom sm" "i \<in> set (block_offsets T cfg b)" "i \<in> set (block_offsets T cfg b')" for b b' i
    using that in_off span_unique [OF c(2)] by blast
  let ?V = "{i. \<exists>b\<in>dom sm. i \<in> set (block_offsets T cfg b)}"
  define B where "B i = (SOME b. b \<in> dom sm \<and> i \<in> set (block_offsets T cfg b))" for i
  have B: "B i = b" if "b \<in> dom sm" "i \<in> set (block_offsets T cfg b)" for i b
    using that disjoint unfolding B_def by (metis (mono_tags, lifting) someI)
  let ?bef = "\<lambda>i. entering T code cfg sm (B i) i"
  have at: "?bef i = fold (exec_at T code) [l..<i] (st_pre r) \<and> i \<in> ?V"
    if "sm b = Some r" "span blks b = Some (l, u)" "l \<le> i" "i \<le> u" for b r l u i
  proof -
    have i: "i \<in> set (block_offsets T cfg b)" "b \<in> dom sm" using that off by auto
    then have "B i = b" using B by blast
    then have "?bef i = fold (exec_at T code) [l..<i] (st_pre r)"
      using that(1) by (simp add: entering_def off [OF that(2)] trail_up [OF that(3,4)] del: upt_Suc)
    then show ?thesis using i by blast
  qed
  have bound: "u < length code" if "span blks b = Some (l, u)" for b l u
    using span_block [OF c(2) that] unfolding block_spec_def by blast
  obtain res where res: "state_per_instruction T sm code cfg f = Done res"
    "\<forall>b\<in>dom sm. \<forall>i\<in>set (block_offsets T cfg b). res i = Some (observed T code f i (entering T code cfg sm b i))"
    "\<forall>i. (\<forall>b\<in>dom sm. i \<notin> set (block_offsets T cfg b)) \<longrightarrow> res i = None"
    using state_per_instruction_table [of code cfg sm T f, OF closed] disjoint inv(1) unfolding cfg(2) by blast
  have "res i = (if i \<in> ?V then Some (f (?bef i) (exec_at T code i (?bef i))) else None)" for i
  proof (cases "i \<in> ?V")
    case True
    then obtain b where b: "b \<in> dom sm" "i \<in> set (block_offsets T cfg b)" by blast
    show ?thesis using res(2) b B [OF b] True fwd by (simp add: observed_def)
  next
    case False
    then show ?thesis using res(3) by simp
  qed
  then have "res = (\<lambda>i. if i \<in> ?V then Some (f (?bef i) (exec_at T code i (?bef i))) else None)" by blast
  moreover have "0 \<in> ?V \<and> le initial (?bef 0)"
  proof -
    obtain r where r: "sm DUMMY_ENTRANCE = Some r" "le initial (st_pre r)" using inv(4) by blast
    obtain e where e: "map_of keys 0 = Some e" "blks DUMMY_ENTRANCE = Some \<lparr>blk_successors = [e], blk_content = Dummy\<rparr>"
      using c(2) by (auto simp: blocks_ok_def)
    have post: "st_post r = st_pre r" "e \<in> set (nexts cfg DUMMY_ENTRANCE)"
      using settled_post(1) [OF closed _ r(1) inv(3)] e(2) cfg(2) by (auto simp: block_offsets_def)
    then obtain r' where r': "sm e = Some r'" "le (st_pre r) (st_pre r')"
      using settled_post(2) [OF closed _ r(1) inv(3), of e] e(2) cfg(2) by auto
    obtain u where "span blks e = Some (0, u)" using key_span [OF c(2) e(1)] by blast
    then have "?bef 0 = st_pre r' \<and> 0 \<in> ?V" using at [OF r'(1), of 0 u 0] by simp
    then show ?thesis using le_trans [OF init inv(2) [OF r(1)] inv(2) [OF r'(1)] r(2) r'(2)] by simp
  qed
  moreover have "i < length code \<and> ok (?bef i) \<and> (\<forall>j\<in>set (succs code offs i). j \<in> ?V \<and> le (exec_at T code i (?bef i)) (?bef j))"
    if iV: "i \<in> ?V" for i
  proof -
    obtain b r l u where b: "sm b = Some r" "span blks b = Some (l, u)" "l \<le> i" "i \<le> u" using iV in_off by blast
    have len: "i < length code" using bound [OF b(2)] b(4) by simp
    have bef: "?bef i = fold (exec_at T code) [l..<i] (st_pre r)" using at [OF b] by blast
    have okb: "ok (?bef i)" unfolding bef using len by (intro execs_ok inv(2) [OF b(1)] ex) auto
    have okx: "ok (exec_at T code i (?bef i))" using ex [OF okb] len by (simp add: exec_at_def)
    have next_state: "fold (exec_at T code) [l..<Suc i] (st_pre r) = exec_at T code i (?bef i)" using b(3) by (simp add: bef)
    have "j \<in> ?V \<and> le (exec_at T code i (?bef i)) (?bef j)" if j: "j \<in> set (succs code offs i)" for j
    proof (cases "i < u")
      case True
      then have "j = Suc i" using interior_flow(1) [OF wb c(2) b(2,3) True] j by simp
      then show ?thesis using at [OF b(1,2), of j] b(3) True next_state le_refl [OF okx] by auto
    next
      case False
      then have i: "i = u" using b(4) by simp
      have "flow code offs False u = succs code offs u" by (simp add: flow_def)
      then obtain b' u' where b': "b' \<in> set (nexts cfg b)" "span blks b' = Some (j, u')"
        using end_flow(1) [OF c(2) b(2), of j] j i cfg(2) by auto
      have bN: "b \<in> dom (blocks cfg)" using inv(1) b(1) cfg(2) by auto
      obtain r' where r': "sm b' = Some r'" "le (st_post r) (st_pre r')" using settled_post(2) [OF closed bN b(1) inv(3) b'(1)] by blast
      have "st_post r = exec_at T code i (?bef i)"
        using settled_post(1) [OF closed bN b(1) inv(3)] off [OF b(2)] next_state i by simp
      moreover have "?bef j = st_pre r' \<and> j \<in> ?V"
        using at [OF r'(1) b'(2), of j] span_block [OF c(2) b'(2)] by (auto simp: block_spec_def)
      ultimately show ?thesis using r'(2) by simp
    qed
    then show ?thesis using len okb by blast
  qed
  ultimately show ?thesis using cfg(1) sm(1) res(1) by (intro exI [of _ cfg] exI [of _ sm] exI [of _ ?V] exI [of _ ?bef]) simp
qed

text \<open>A state that no instruction leaves bounds the result.\<close>

definition constant_bound :: "'s transfer \<Rightarrow> 's \<Rightarrow> Bytecode list \<Rightarrow> 's \<Rightarrow> bool" where
  "constant_bound T initial code c \<longleftrightarrow> ok c \<and> le initial c
     \<and> (\<forall>s i off. ok s \<longrightarrow> le s c \<longrightarrow> i \<in> set code \<longrightarrow> le (t_execute T s i off) c)"

lemma constant_execs:
  assumes c: "constant_bound T initial code c"
    and ex: "\<And>s i off. ok s \<Longrightarrow> i \<in> set code \<Longrightarrow> ok (t_execute T s i off)"
    and s: "ok s" "le s c" "\<forall>i\<in>set xs. i < length code"
  shows "le (fold (exec_at T code) xs s) c"
  using s
proof (induction xs arbitrary: s)
  case (Cons x xs)
  have "code ! x \<in> set code" using Cons.prems by simp
  then have "ok (exec_at T code x s)" "le (exec_at T code x s) c"
    using ex c Cons.prems unfolding exec_at_def constant_bound_def by blast+
  then show ?case using Cons by simp
qed simp

lemma constant_solution:
  assumes closed: "cfg_closed code cfg" and c: "constant_bound T initial code c"
    and ex: "\<And>s i off. ok s \<Longrightarrow> i \<in> set code \<Longrightarrow> ok (t_execute T s i off)"
  shows "solution T initial code cfg (\<lambda>_. c)"
  unfolding solution_def
proof (intro conjI ballI allI impI)
  fix b s s' assume b: "b \<in> dom (blocks cfg)" and s: "ok s" "le s c" "execute_block T b s code cfg = Done s'"
  have off: "\<forall>x\<in>set (block_offsets T cfg b). x < length code" using block_offsets_bound [OF closed b] by blast
  then have "s' = fold (exec_at T code) (block_offsets T cfg b) s"
    using s(3) by (simp add: execute_block_offsets [OF b] run_trail)
  then show "le s' c" using constant_execs [OF c ex s(1,2) off] by simp
qed (use c in \<open>auto simp: constant_bound_def\<close>)

text \<open>A backward analysis that starts at every block: the state after an instruction is above
  the states before its successors.\<close>

lemma backward_states:
  assumes wb: "well_blocked code offs False" and bwd: "t_backward T"
    and ex: "\<And>s i off. ok s \<Longrightarrow> i \<in> set code \<Longrightarrow> ok (t_execute T s i off)"
    and join: "t_join T = join" and init: "ok initial"
  shows "\<exists>cfg sm aft. new_backward code True = Done cfg \<and> analyze_function T initial code cfg = Done sm
    \<and> state_per_instruction T sm code cfg f = Done (\<lambda>i. if i < length code then Some (f (exec_at T code i (aft i)) (aft i)) else None)
    \<and> (\<forall>i < length code. ok (aft i) \<and> (\<forall>j\<in>set (succs code offs i). le (exec_at T code j (aft j)) (aft i)))
    \<and> (\<forall>c. constant_bound T initial code c \<longrightarrow> (\<forall>i < length code. le (aft i) c))"
proof -
  obtain cfg blks keys where c: "new_backward code True = Done cfg" "blocks_ok code offs False blks keys"
    "dom (blocks cfg) = dom blks" "entry_block_id cfg = DUMMY_EXIT" "cfg_closed code cfg"
    "\<And>b. span (blocks cfg) b = span blks b"
    "\<And>b. b \<in> dom blks \<Longrightarrow> b \<noteq> DUMMY_EXIT \<Longrightarrow> set (nexts cfg b) = {a \<in> dom blks. b \<in> set (blk_successors (the (blks a)))}"
    "\<And>b. span blks b \<noteq> None \<Longrightarrow> b \<in> set (nexts cfg DUMMY_EXIT)"
    using new_backward_total [OF wb] by blast
  note closed = c(5)
  obtain sm where sm: "analyze_function T initial code cfg = Done sm" "analysis_inv T initial code cfg ([], sm)"
    using analyze_total [OF closed ex join init] by blast
  have inv: "dom sm \<subseteq> dom (blocks cfg)" "\<And>b r. sm b = Some r \<Longrightarrow> ok (st_pre r)" "\<And>b. settled T code cfg sm b"
    "\<exists>r. sm DUMMY_EXIT = Some r"
    using sm(2) by (auto simp: analysis_inv_def c(4))
  obtain rx where rx: "sm DUMMY_EXIT = Some rx" using inv(4) by blast
  have off: "block_offsets T cfg b = rev [l..<Suc u]" if "span blks b = Some (l, u)" for b l u
    using span_offsets [of cfg b l u T] that bwd c(6) by simp
  have in_off: "i \<in> set (block_offsets T cfg b) \<longleftrightarrow> (\<exists>l u. span blks b = Some (l, u) \<and> l \<le> i \<and> i \<le> u)" if "b \<in> dom sm" for b i
    using mem_block_offsets_span [of b cfg i T] that inv(1) c(6) by (simp add: subset_iff)
  have disjoint: "b = b'" if "b \<in> dom sm" "b' \<in> dom sm" "i \<in> set (block_offsets T cfg b)" "i \<in> set (block_offsets T cfg b')" for b b' i
    using that in_off span_unique [OF c(2)] by blast
  have reached: "\<exists>r. sm b = Some r" if "span blks b \<noteq> None" for b
    using settled_post(2) [OF closed _ rx inv(3) c(8) [OF that]] inv(1) rx by blast
  define B where "B i = (SOME b. b \<in> dom sm \<and> i \<in> set (block_offsets T cfg b))" for i
  have B: "B i = b" if "b \<in> dom sm" "i \<in> set (block_offsets T cfg b)" for i b
    using that disjoint unfolding B_def by (metis (mono_tags, lifting) someI)
  let ?aft = "\<lambda>i. entering T code cfg sm (B i) i"
  have at: "?aft i = fold (exec_at T code) (rev [Suc i..<Suc u]) (st_pre r)"
    if "sm b = Some r" "span blks b = Some (l, u)" "l \<le> i" "i \<le> u" for b r l u i
  proof -
    have i: "i \<in> set (block_offsets T cfg b)" "b \<in> dom sm" using that off by auto
    then have "B i = b" using B by blast
    then show ?thesis using that(1) by (simp add: entering_def off [OF that(2)] trail_down [OF that(3,4)] del: upt_Suc)
  qed
  have bound: "u < length code" if "span blks b = Some (l, u)" for b l u
    using span_block [OF c(2) that] unfolding block_spec_def by blast
  have placed: "\<exists>b r l u. sm b = Some r \<and> span blks b = Some (l, u) \<and> l \<le> i \<and> i \<le> u" if "i < length code" for i
    using span_cover [OF c(2) that] reached by blast
  obtain res where res: "state_per_instruction T sm code cfg f = Done res"
    "\<forall>b\<in>dom sm. \<forall>i\<in>set (block_offsets T cfg b). res i = Some (observed T code f i (entering T code cfg sm b i))"
    "\<forall>i. (\<forall>b\<in>dom sm. i \<notin> set (block_offsets T cfg b)) \<longrightarrow> res i = None"
    using state_per_instruction_table [of code cfg sm T f, OF closed inv(1)] disjoint by blast
  have "res i = (if i < length code then Some (f (exec_at T code i (?aft i)) (?aft i)) else None)" for i
  proof (cases "i < length code")
    case True
    then obtain b r l u where b: "sm b = Some r" "span blks b = Some (l, u)" "l \<le> i" "i \<le> u" using placed by blast
    then have "b \<in> dom sm" "i \<in> set (block_offsets T cfg b)" using off by auto
    then show ?thesis using res(2) B True bwd by (simp add: observed_def)
  next
    case False
    then have "\<forall>b\<in>dom sm. i \<notin> set (block_offsets T cfg b)" using in_off bound by (metis le_less_trans)
    then show ?thesis using res(3) False by simp
  qed
  moreover have "ok (?aft i) \<and> (\<forall>j\<in>set (succs code offs i). le (exec_at T code j (?aft j)) (?aft i))"
    if len: "i < length code" for i
  proof -
    obtain b r l u where b: "sm b = Some r" "span blks b = Some (l, u)" "l \<le> i" "i \<le> u" using placed [OF len] by blast
    have aft: "?aft i = fold (exec_at T code) (rev [Suc i..<Suc u]) (st_pre r)" using at [OF b] .
    have okb: "ok (?aft i)" unfolding aft using bound [OF b(2)] by (intro execs_ok inv(2) [OF b(1)] ex) auto
    have "le (exec_at T code j (?aft j)) (?aft i)" if j: "j \<in> set (succs code offs i)" for j
    proof (cases "i < u")
      case True
      then have "j = Suc i" using interior_flow(1) [OF wb c(2) b(2,3) True] j by simp
      moreover have "[Suc i..<Suc u] = Suc i # [Suc (Suc i)..<Suc u]" using True by (simp add: upt_conv_Cons del: upt_Suc)
      ultimately have "exec_at T code j (?aft j) = ?aft i"
        using at [OF b(1,2), of "Suc i"] aft b(3) True by (simp del: upt_Suc)
      then show ?thesis using le_refl [OF okb] by simp
    next
      case False
      then have i: "i = u" using b(4) by simp
      have "flow code offs False u = succs code offs u" by (simp add: flow_def)
      then obtain b' u' where b': "b' \<in> set (blk_successors (the (blks b)))" "span blks b' = Some (j, u')"
        using end_flow(1) [OF c(2) b(2), of j] j i by auto
      obtain r' where r': "sm b' = Some r'" using reached b'(2) by blast
      have bN: "b' \<in> dom (blocks cfg)" "b' \<in> dom blks" "b \<in> dom blks" using inv(1) r' b(1) c(3) by auto
      have "b' \<noteq> DUMMY_EXIT" using b'(2) c(2) by (auto simp: span_def blocks_ok_def)
      then have "b \<in> set (nexts cfg b')" using c(7) [OF bN(2)] bN(3) b'(1) by simp
      then have le: "le (st_post r') (st_pre r)" using settled_post(2) [OF closed bN(1) r' inv(3), of b] b(1) by auto
      have ju: "j \<le> u'" using span_block [OF c(2) b'(2)] by (auto simp: block_spec_def)
      then have "rev [j..<Suc u'] = rev [Suc j..<Suc u'] @ [j]" by (simp add: upt_conv_Cons del: upt_Suc)
      then have "st_post r' = exec_at T code j (?aft j)"
        using settled_post(1) [OF closed bN(1) r' inv(3)] off [OF b'(2)] at [OF r' b'(2), of j] ju by (simp del: upt_Suc)
      moreover have "?aft i = st_pre r" using aft i by simp
      ultimately show ?thesis using le by simp
    qed
    then show ?thesis using okb by blast
  qed
  moreover have "le (?aft i) k" if k: "constant_bound T initial code k" and len: "i < length code" for k i
  proof -
    obtain b r l u where b: "sm b = Some r" "span blks b = Some (l, u)" "l \<le> i" "i \<le> u" using placed [OF len] by blast
    have "le (st_pre r) k"
      using sm(2) constant_solution [OF closed k ex] b(1) unfolding analysis_inv_def by auto
    moreover have "\<forall>x\<in>set (rev [Suc i..<Suc u]). x < length code" using bound [OF b(2)] by auto
    ultimately show ?thesis unfolding at [OF b] using constant_execs [OF k ex inv(2) [OF b(1)]] by blast
  qed
  ultimately show ?thesis using c(1) sm(1) res(1)
    by (intro exI [of _ cfg] exI [of _ sm] exI [of _ ?aft]) (simp add: fun_eq_iff)
qed

end

section \<open>Properties\<close>

text \<open>C8: a forward analysis over sets of locals ends on every function whose jumps have targets
  and end their blocks; its states are consistent with the blocks and their successors, and
  they are the least such states.\<close>

theorem set_analysis_least:
  assumes wb: "well_blocked code offs False"
    and T: "t_join T = set_join" "\<And>s i off. s \<subseteq> {..<n} \<Longrightarrow> i \<in> set code \<Longrightarrow> t_execute T s i off \<subseteq> {..<n :: nat}"
    and init: "initial \<subseteq> {..<n}"
  shows "\<exists>cfg sm. new_forward code = Done cfg \<and> analyze_function T initial code cfg = Done sm
    \<and> (\<exists>r. sm DUMMY_ENTRANCE = Some r \<and> initial \<subseteq> st_pre r)
    \<and> (\<forall>b r. sm b = Some r \<longrightarrow> execute_block T b (st_pre r) code cfg = Done (st_post r)
         \<and> (\<forall>b'\<in>set (nexts cfg b). \<exists>r'. sm b' = Some r' \<and> st_post r \<subseteq> st_pre r'))
    \<and> (\<forall>\<sigma>. (\<forall>b\<in>dom (blocks cfg). \<sigma> b \<subseteq> {..<n}) \<and> initial \<subseteq> \<sigma> DUMMY_ENTRANCE
         \<and> (\<forall>b\<in>dom (blocks cfg). \<forall>s s'. s \<subseteq> {..<n} \<longrightarrow> s \<subseteq> \<sigma> b \<longrightarrow> execute_block T b s code cfg = Done s'
              \<longrightarrow> (\<forall>b'\<in>set (nexts cfg b). s' \<subseteq> \<sigma> b'))
         \<longrightarrow> (\<forall>b r. sm b = Some r \<longrightarrow> st_pre r \<subseteq> \<sigma> b))"
proof -
  obtain blks keys where c: "collect_blocks code False = Done blks" "blocks_ok code offs False blks keys"
    using collect_blocks_total [OF wb] by blast
  define cfg where "cfg = \<lparr>entry_block_id = DUMMY_ENTRANCE, blocks = blks, backward = False, ignore_return_abort = False\<rparr>"
  have cfg: "new_forward code = Done cfg" "blocks cfg = blks" "entry_block_id cfg = DUMMY_ENTRANCE"
    using c(1) by (simp_all add: new_forward_def new_forward_with_options_def cfg_def)
  have closed: "cfg_closed code cfg" using closed_forward c(2) cfg by metis
  obtain sm where sm: "analyze_function T initial code cfg = Done sm" "bounded_sets.analysis_inv n T initial code cfg ([], sm)"
    using bounded_sets.analyze_total [OF closed T(2,1) init] by blast
  then show ?thesis using cfg(1)
    unfolding bounded_sets.analysis_inv_def bounded_sets.settled_def bounded_sets.solution_def cfg(3)
    by (intro exI [of _ cfg] exI [of _ sm]) simp
qed

theorem set_analysis_least_witness:
  "\<exists>cfg sm. new_forward [BLabel 0 1, BBranch 0 1 2 0, BLabel 0 2, BRet 0 []] = Done cfg
    \<and> analyze_function \<lparr>t_join = set_join, t_backward = False, t_execute = (\<lambda>s i _. s \<union> set (srcs i))\<rparr> {3}
        [BLabel 0 1, BBranch 0 1 2 0, BLabel 0 2, BRet 0 []] cfg = Done sm
    \<and> (\<exists>r. sm DUMMY_ENTRANCE = Some r \<and> 3 \<in> st_pre r)"
proof -
  let ?code = "[BLabel 0 1, BBranch 0 1 2 0, BLabel 0 2, BRet 0 []]"
  let ?T = "\<lparr>t_join = set_join, t_backward = False, t_execute = (\<lambda>s i _. s \<union> set (srcs i))\<rparr>"
  have "t_execute ?T s i off \<subseteq> {..<5}" if "s \<subseteq> {..<5}" "i \<in> set ?code" for s i off using that by auto
  from set_analysis_least [OF loop_well_blocked, of ?T 5 "{3}", OF _ this] show ?thesis by auto
qed

end
