(* ===== verification/BytecodeSem.thy ===== *)
theory BytecodeSem
  imports Bytecode
begin

text \<open>
  A reference semantics of stackless bytecode, against which the transformations of bytecode
  are proved.  The machine is a parameter: what the constants, the operations and the
  expressions mean is defined outside the analyses (by the Move VM and the backends), and a
  value may be a reference into the memory.  An operation gets the values of its sources and
  may write to memory and to the locals in \<open>B\<close>, the locals that some instruction borrows from;
  every other local changes only when it is a destination.
\<close>

section \<open>The machine\<close>

record ('v, 'm) machine =
  m_const :: "Constant \<Rightarrow> 'v"
  m_op :: "Operation \<Rightarrow> TempIndex list \<Rightarrow> 'v list \<Rightarrow> (TempIndex \<rightharpoonup> 'v) \<Rightarrow> 'm \<Rightarrow> 'v + ('v list \<times> (TempIndex \<rightharpoonup> 'v) \<times> 'm)"
  m_true :: "'v \<Rightarrow> bool"
  m_variant :: "'v \<Rightarrow> 'm \<Rightarrow> nat"
  m_interp :: "'m \<Rightarrow> 'v interp"
  m_save :: "nat \<Rightarrow> QualifiedInstId \<Rightarrow> 'm \<Rightarrow> 'm"

type_synonym 'v locals = "TempIndex \<Rightarrow> 'v"

datatype ('v, 'm) result =
    Running CodeOffset "'v locals" 'm
  | Returned "'v list" 'm
  | Aborted 'v 'm
  | Halted 'm
  | Violated
  | Blocked
  | Stuck

fun assign_all :: "TempIndex list \<Rightarrow> 'v list \<Rightarrow> 'v locals \<Rightarrow> 'v locals" where
  "assign_all (d # ds) (v # vs) env = assign_all ds vs (env(d := v))"
| "assign_all _ _ env = env"

text \<open>The local that an operation takes by name.\<close>

definition op_locs :: "Operation \<Rightarrow> TempIndex list \<Rightarrow> TempIndex list" where
  "op_locs oper ss = (if oper = OpBorrowLoc then take 1 ss else [])"

definition write_locals :: "TempIndex set \<Rightarrow> (TempIndex \<rightharpoonup> 'v) \<Rightarrow> 'v locals \<Rightarrow> 'v locals" where
  "write_locals B upd env = (\<lambda>t. if t \<in> B then (case upd t of Some v \<Rightarrow> v | None \<Rightarrow> env t) else env t)"

definition exec_call ::
  "('v, 'm) machine \<Rightarrow> TempIndex set \<Rightarrow> TempIndex list \<Rightarrow> Operation \<Rightarrow> TempIndex list
    \<Rightarrow> CodeOffset \<Rightarrow> 'v locals \<Rightarrow> 'm \<Rightarrow> ('v, 'm) result" where
  "exec_call M B ds oper ss pc env mem =
     (if oper = OpStop then Halted mem
      else case m_op M oper (op_locs oper ss) (map env ss) ((Some \<circ> env) |` B) mem of
        Inl code \<Rightarrow> Aborted code mem
      | Inr (vs, upd, mem') \<Rightarrow>
          if length vs = length ds then Running (pc + 1) (assign_all ds vs (write_locals B upd env)) mem'
          else Stuck)"

definition goto :: "(Label \<rightharpoonup> CodeOffset) \<Rightarrow> Label \<Rightarrow> 'v locals \<Rightarrow> 'm \<Rightarrow> ('v, 'm) result" where
  "goto offs l env mem = (case offs l of Some pc \<Rightarrow> Running pc env mem | None \<Rightarrow> Stuck)"

fun exec_instr ::
  "('v, 'm) machine \<Rightarrow> TempIndex set \<Rightarrow> (Label \<rightharpoonup> CodeOffset) \<Rightarrow> Bytecode
    \<Rightarrow> CodeOffset \<Rightarrow> 'v locals \<Rightarrow> 'm \<Rightarrow> ('v, 'm) result" where
  "exec_instr M B offs (BLoad _ d c) pc env mem = Running (pc + 1) (env(d := m_const M c)) mem"
| "exec_instr M B offs (BAssign _ d s _) pc env mem = Running (pc + 1) (env(d := env s)) mem"
| "exec_instr M B offs (BCall _ ds oper ss _) pc env mem = exec_call M B ds oper ss pc env mem"
| "exec_instr M B offs (BRet _ ss) pc env mem = Returned (map env ss) mem"
| "exec_instr M B offs (BBranch _ l1 l2 c) pc env mem = goto offs (if m_true M (env c) then l1 else l2) env mem"
| "exec_instr M B offs (BJump _ l) pc env mem = goto offs l env mem"
| "exec_instr M B offs (BVariantSwitch _ idx ls) pc env mem =
     (if m_variant M (env idx) mem < length ls then goto offs (ls ! m_variant M (env idx) mem) env mem else Stuck)"
| "exec_instr M B offs (BLabel _ _) pc env mem = Running (pc + 1) env mem"
| "exec_instr M B offs (BAbort _ s) pc env mem = Aborted (env s) mem"
| "exec_instr M B offs (BNop _) pc env mem = Running (pc + 1) env mem"
| "exec_instr M B offs (BSaveMem _ l q) pc env mem = Running (pc + 1) env (m_save M l q mem)"
| "exec_instr M B offs (BProp _ k e) pc env mem =
     (let v = exp_val (m_interp M mem) env (\<lambda>_. i_invalid (m_interp M mem)) e in
      if k = PropModifies \<or> m_true M v then Running (pc + 1) env mem
      else if k = PropAssert then Violated else Blocked)"

fun step :: "('v, 'm) machine \<Rightarrow> TempIndex set \<Rightarrow> Bytecode list \<Rightarrow> (Label \<rightharpoonup> CodeOffset) \<Rightarrow> ('v, 'm) result \<Rightarrow> ('v, 'm) result" where
  "step M B code offs (Running pc env mem) = (if pc < length code then exec_instr M B offs (code ! pc) pc env mem else Stuck)"
| "step M B code offs r = r"

definition run :: "('v, 'm) machine \<Rightarrow> TempIndex set \<Rightarrow> Bytecode list \<Rightarrow> (Label \<rightharpoonup> CodeOffset) \<Rightarrow> nat \<Rightarrow> ('v, 'm) result \<Rightarrow> ('v, 'm) result" where
  "run M B code offs n = step M B code offs ^^ n"

lemma run_simps [simp]:
  "run M B code offs 0 r = r"
  "run M B code offs (Suc n) r = run M B code offs n (step M B code offs r)"
  by (simp_all add: run_def funpow_swap1)

section \<open>Facts\<close>

fun is_running :: "('v, 'm) result \<Rightarrow> bool" where
  "is_running (Running _ _ _) = True"
| "is_running _ = False"

lemma step_stopped: "\<not> is_running r \<Longrightarrow> step M B code offs r = r"
  by (cases r) simp_all

lemma run_stopped: "\<not> is_running r \<Longrightarrow> run M B code offs n r = r"
  by (induction n) (cases r; simp)+

lemma run_add: "run M B code offs (m + n) r = run M B code offs n (run M B code offs m r)"
  by (induction m arbitrary: r) simp_all

lemma assign_all_other: "x \<notin> set ds \<Longrightarrow> assign_all ds vs env x = env x"
  by (induction ds vs env rule: assign_all.induct) auto

lemma assign_all_cong:
  "length vs = length ds \<Longrightarrow> (x \<notin> set ds \<Longrightarrow> env x = env' x) \<Longrightarrow> assign_all ds vs env x = assign_all ds vs env' x"
proof (induction ds arbitrary: vs env env')
  case (Cons d ds)
  then obtain v vs' where "vs = v # vs'" by (cases vs) auto
  then show ?case using Cons.prems Cons.IH [of vs' "env(d := v)" "env'(d := v)"] by (auto simp: fun_upd_def)
qed simp

lemma write_locals_other: "x \<notin> B \<Longrightarrow> write_locals B upd env x = env x"
  by (simp add: write_locals_def)

lemma goto_Running: "goto offs l env mem = Running pc env' mem' \<longleftrightarrow> offs l = Some pc \<and> env' = env \<and> mem' = mem"
  by (auto simp: goto_def split: option.split)

text \<open>A step goes to a successor, and writes to the destinations and to borrowed locals.\<close>

lemma exec_instr_succs:
  assumes ok: "targets_defined code offs" and pc: "pc < length code"
    and r: "exec_instr M B offs (code ! pc) pc env mem = Running pc' env' mem'" "pc' < length code"
  shows "pc' \<in> set (succs code offs pc)"
proof -
  have goto: "pc' \<in> set (succs code offs pc)"
    if "goto offs l env mem = Running pc' env' mem'" "l \<in> set (branch_dests (code ! pc))" "is_branch (code ! pc)" for l
    using that by (force simp: succs_def goto_Running)
  have next_pc: "pc' \<in> set (succs code offs pc)" if "pc' = pc + 1" "\<not> is_branch (code ! pc)"
    using that r(2) by (simp add: succs_def)
  show ?thesis
  proof (cases "code ! pc")
    case (BCall a ds oper ss aa)
    then have "pc' = pc + 1" "oper \<noteq> OpStop"
      using r(1) by (auto simp: exec_call_def split: if_splits sum.splits prod.splits)
    then show ?thesis using next_pc BCall by (simp add: is_branch_def)
  next
    case (BBranch a l1 l2 c)
    then show ?thesis using r(1) goto [of "if m_true M (env c) then l1 else l2"] by (simp add: is_branch_def)
  next
    case (BJump a l)
    then show ?thesis using r(1) goto [of l] by (simp add: is_branch_def)
  next
    case (BVariantSwitch a idx ls)
    then have "m_variant M (env idx) mem < length ls" using r(1) by (auto split: if_splits)
    then show ?thesis using r(1) BVariantSwitch goto [of "ls ! m_variant M (env idx) mem"] by (simp add: is_branch_def)
  next
    case (BProp a k e)
    then have "pc' = pc + 1" using r(1) by (auto simp: Let_def split: if_splits)
    then show ?thesis using next_pc BProp by (simp add: is_branch_def)
  qed (use r(1) next_pc in \<open>auto simp: is_branch_def\<close>)
qed

lemma exec_instr_other:
  assumes "exec_instr M B offs b pc env mem = Running pc' env' mem'" "x \<notin> set (dests b)" "x \<notin> B"
  shows "env' x = env x"
proof (cases b)
  case (BCall a ds oper ss aa)
  then show ?thesis using assms
    by (auto simp: exec_call_def assign_all_other write_locals_other split: if_splits sum.splits prod.splits)
qed (use assms in \<open>auto simp: goto_Running Let_def split: if_splits\<close>)

text \<open>Code with the same labels at the same offsets runs alike when its instructions do.\<close>

lemma run_same:
  assumes "length code' = length code" "P (Running pc env mem)"
    and "\<And>pc env mem. P (Running pc env mem) \<Longrightarrow> pc < length code \<Longrightarrow>
       exec_instr M B offs (code' ! pc) pc env mem = exec_instr M B offs (code ! pc) pc env mem
       \<and> (\<forall>pc' env' mem'. exec_instr M B offs (code ! pc) pc env mem = Running pc' env' mem' \<longrightarrow> pc' < length code
            \<longrightarrow> P (Running pc' env' mem'))"
  shows "run M B code' offs n (Running pc env mem) = run M B code offs n (Running pc env mem)"
  using assms(2)
proof (induction n arbitrary: pc env mem)
  case (Suc n)
  show ?case
  proof (cases "pc < length code")
    case True
    let ?r = "exec_instr M B offs (code ! pc) pc env mem"
    have same: "exec_instr M B offs (code' ! pc) pc env mem = ?r" using assms(3) [OF Suc.prems True] by blast
    have "run M B code' offs n ?r = run M B code offs n ?r"
    proof (cases ?r)
      case (Running pc' env' mem')
      show ?thesis
      proof (cases "pc' < length code")
        case True
        then have "P (Running pc' env' mem')" using assms(3) [OF Suc.prems \<open>pc < length code\<close>] Running by blast
        then show ?thesis using Suc.IH Running by simp
      next
        case False
        then show ?thesis using Running assms(1) by (cases n) (simp_all add: run_stopped)
      qed
    qed (simp_all add: run_stopped)
    then show ?thesis using True assms(1) same by simp
  next
    case False
    then show ?thesis using assms(1) by (simp add: run_stopped)
  qed
qed simp

end
