(* ===== verification/ReachingDef.thy ===== *)
theory ReachingDef
  imports Dataflow BytecodeSem
begin

text \<open>
  Reaching definitions and copy propagation (\<open>reaching_def_analysis.rs\<close>): the state maps a local
  to the locals that hold the same value, over chains of assignments; the join intersects.  Copy
  propagation replaces every source by the least of its aliases that has no alias itself.

  The state is a domain in which a join can only remove aliases; copy propagation is proved to
  leave the runs of a function as they are.
\<close>

section \<open>The state\<close>

type_synonym ReachingDefState = "TempIndex \<rightharpoonup> TempIndex set"

definition def_alias :: "TempIndex \<Rightarrow> TempIndex \<Rightarrow> ReachingDefState \<Rightarrow> ReachingDefState" where
  "def_alias dest src m = m(dest \<mapsto> insert src (case m src of None \<Rightarrow> {} | Some src_aliases \<Rightarrow> src_aliases))"

definition kill :: "TempIndex \<Rightarrow> ReachingDefState \<Rightarrow> ReachingDefState" where
  "kill dest m = (\<lambda>x. if x = dest then None else case m x of None \<Rightarrow> None
     | Some aliases \<Rightarrow> if aliases - {dest} = {} then None else Some (aliases - {dest}))"

definition rd_join :: "ReachingDefState \<Rightarrow> ReachingDefState \<Rightarrow> ReachingDefState \<times> JoinResult" where
  "rd_join self other = fold (\<lambda>idx (m, result). case other idx of
       Some other_aliases \<Rightarrow>
         let self_aliases = the (m idx); intersection = self_aliases \<inter> other_aliases in
         if intersection \<noteq> self_aliases
         then (if intersection = {} then m(idx := None) else m(idx \<mapsto> intersection), Changed)
         else (m, result)
     | None \<Rightarrow> (m(idx := None), Changed))
     (sorted_list_of_set (dom self)) (self, Unchanged)"

definition all_aliases :: "ReachingDefState \<Rightarrow> TempIndex \<Rightarrow> TempIndex set" where
  "all_aliases state temp_idx = (case state temp_idx of None \<Rightarrow> {} | Some aliases \<Rightarrow> aliases)"

section \<open>The analysis\<close>

definition rd_execute :: "TempIndex set \<Rightarrow> ReachingDefState \<Rightarrow> Bytecode \<Rightarrow> ReachingDefState" where
  "rd_execute borrowed state instr =
     (let state = fold kill (dests instr) state in
      case instr of
        BAssign _ dest src _ \<Rightarrow> if dest \<notin> borrowed \<and> src \<notin> borrowed then def_alias dest src state else state
      | BCall _ _ (OpWriteBack (LocalRoot local) _) _ _ \<Rightarrow> kill local state
      | _ \<Rightarrow> state)"

definition rd_transfer :: "TempIndex set \<Rightarrow> ReachingDefState transfer" where
  "rd_transfer borrowed = \<lparr>t_join = rd_join, t_backward = False, t_execute = (\<lambda>state instr _. rd_execute borrowed state instr)\<rparr>"

fun borrowed_local :: "Bytecode \<Rightarrow> TempIndex option outcome" where
  "borrowed_local (BCall _ _ oper ss _) = (case oper of
     OpBorrowLoc \<Rightarrow> omap Some (index_at ss 0)
   | OpWriteBack (LocalRoot src) _ \<Rightarrow> Done (Some src)
   | OpIsParent (LocalRoot src) _ \<Rightarrow> Done (Some src)
   | OpWriteBack (Reference src) _ \<Rightarrow> Done (Some src)
   | OpIsParent (Reference src) _ \<Rightarrow> Done (Some src)
   | _ \<Rightarrow> Done None)"
| "borrowed_local _ = Done None"

definition borrowed_locals :: "Bytecode list \<Rightarrow> TempIndex set outcome" where
  "borrowed_locals code = ofold (\<lambda>bc acc. omap (\<lambda>l. case l of None \<Rightarrow> acc | Some x \<Rightarrow> insert x acc) (borrowed_local bc)) code {}"

definition analyze_reaching_definitions :: "Bytecode list \<Rightarrow> (CodeOffset \<rightharpoonup> ReachingDefState) outcome" where
  "analyze_reaching_definitions code =
     obind (new_forward code) (\<lambda>cfg.
     obind (borrowed_locals code) (\<lambda>borrowed.
     obind (analyze_function (rd_transfer borrowed) Map.empty code cfg) (\<lambda>sm.
       state_per_instruction (rd_transfer borrowed) sm code cfg (\<lambda>before _. before))))"

section \<open>Copy propagation\<close>

definition get_propagated_local :: "TempIndex \<Rightarrow> ReachingDefState \<Rightarrow> TempIndex" where
  "get_propagated_local temp state = (case state temp of
     None \<Rightarrow> temp
   | Some aliases \<Rightarrow> (case filter (\<lambda>a. state a = None) (sorted_list_of_set aliases) of [] \<Rightarrow> temp | a # _ \<Rightarrow> a))"

definition propagate_instr :: "(CodeOffset \<rightharpoonup> ReachingDefState) \<Rightarrow> CodeOffset \<times> Bytecode \<Rightarrow> Bytecode outcome" where
  "propagate_instr defs = (\<lambda>(pc, bytecode).
     let state = (case defs pc of None \<Rightarrow> Map.empty | Some state \<Rightarrow> state) in
     omap fst (remap_src_vars (\<lambda>local. sret (get_propagated_local local state)) bytecode ()))"

definition copy_propagation :: "Bytecode list \<Rightarrow> (CodeOffset \<rightharpoonup> ReachingDefState) \<Rightarrow> Bytecode list outcome" where
  "copy_propagation code defs = osequence (map (propagate_instr defs) (enumerate 0 code))"

definition reaching_def_process :: "bool \<Rightarrow> Bytecode list \<Rightarrow> Bytecode list outcome" where
  "reaching_def_process is_native code =
     (if is_native then Done code else obind (analyze_reaching_definitions code) (copy_propagation code))"

section \<open>The domain\<close>

definition rd_ok :: "nat \<Rightarrow> TempIndex set \<Rightarrow> ReachingDefState \<Rightarrow> bool" where
  "rd_ok n borrowed m \<longleftrightarrow> (\<forall>x A. m x = Some A \<longrightarrow> x < n \<and> x \<notin> borrowed \<and> A \<noteq> {} \<and> A \<subseteq> {..<n} - borrowed)"

definition rd_weaker :: "ReachingDefState \<Rightarrow> ReachingDefState \<Rightarrow> bool" where
  "rd_weaker m m' \<longleftrightarrow> (\<forall>x A'. m' x = Some A' \<longrightarrow> (\<exists>A. m x = Some A \<and> A' \<subseteq> A))"

definition rd_rank :: "nat \<Rightarrow> ReachingDefState \<Rightarrow> nat" where
  "rd_rank n m = (\<Sum>x<n. case m x of None \<Rightarrow> 0 | Some A \<Rightarrow> card A)"

definition meet :: "TempIndex set option \<Rightarrow> TempIndex set option \<Rightarrow> TempIndex set option" where
  "meet a b = (case (a, b) of (Some A, Some B) \<Rightarrow> if A \<inter> B = {} then None else Some (A \<inter> B) | _ \<Rightarrow> None)"

lemma rd_ok_finite: "rd_ok n borrowed m \<Longrightarrow> finite (dom m)"
  by (rule finite_subset [of _ "{..<n}"]) (auto simp: rd_ok_def)

lemma rd_join_fold:
  assumes "distinct ks" "\<And>k. k \<in> set ks \<Longrightarrow> \<exists>A. m k = Some A \<and> A \<noteq> {}"
  shows "fold (\<lambda>idx (m, result). case other idx of
       Some other_aliases \<Rightarrow>
         let self_aliases = the (m idx); intersection = self_aliases \<inter> other_aliases in
         if intersection \<noteq> self_aliases
         then (if intersection = {} then m(idx := None) else m(idx \<mapsto> intersection), Changed)
         else (m, result)
     | None \<Rightarrow> (m(idx := None), Changed)) ks (m, c)
    = (\<lambda>k. if k \<in> set ks then meet (m k) (other k) else m k,
       if \<exists>k\<in>set ks. meet (m k) (other k) \<noteq> m k then Changed else c)"
  using assms
proof (induction ks arbitrary: m c)
  case (Cons k ks)
  obtain A where A: "m k = Some A" "A \<noteq> {}" using Cons.prems(2) [of k] by auto
  let ?m1 = "m(k := meet (m k) (other k))" and ?c1 = "if meet (m k) (other k) \<noteq> m k then Changed else c"
  have step: "(case other k of
       Some other_aliases \<Rightarrow>
         let self_aliases = the (m k); intersection = self_aliases \<inter> other_aliases in
         if intersection \<noteq> self_aliases
         then (if intersection = {} then m(k := None) else m(k \<mapsto> intersection), Changed)
         else (m, c)
     | None \<Rightarrow> (m(k := None), Changed)) = (?m1, ?c1)"
    using A by (auto simp: meet_def Let_def fun_eq_iff split: option.split)
  have other: "?m1 x = m x" if "x \<in> set ks" for x using that Cons.prems(1) by auto
  have prems: "\<exists>A. ?m1 x = Some A \<and> A \<noteq> {}" if "x \<in> set ks" for x
    using Cons.prems(2) [of x] that other by simp
  show ?case
    using Cons.prems(1) other
    by (simp only: fold_simps prod.case step Cons.IH [OF _ prems, where c = ?c1] distinct.simps) (auto simp: fun_eq_iff)
qed simp

lemma rd_join_eq:
  assumes "rd_ok n borrowed m"
  shows "rd_join m other = (\<lambda>x. meet (m x) (other x), if \<exists>x. meet (m x) (other x) \<noteq> m x then Changed else Unchanged)"
proof -
  have "\<exists>A. m k = Some A \<and> A \<noteq> {}" if "k \<in> set (sorted_list_of_set (dom m))" for k
    using that rd_ok_finite [OF assms] assms by (auto simp: rd_ok_def)
  moreover have "meet (m x) (other x) = m x" if "x \<notin> dom m" for x
  proof -
    have "m x = None" using that by auto
    then show ?thesis by (simp add: meet_def)
  qed
  then have out: "(if x \<in> dom m then meet (m x) (other x) else m x) = meet (m x) (other x)" for x by metis
  moreover have "(\<exists>x\<in>dom m. meet (m x) (other x) \<noteq> m x) \<longleftrightarrow> (\<exists>x. meet (m x) (other x) \<noteq> m x)"
    using out by metis
  ultimately show ?thesis
    using rd_ok_finite [OF assms] unfolding rd_join_def by (subst rd_join_fold) (simp_all only: set_sorted_list_of_set distinct_sorted_list_of_set out)
qed

lemma meet_None [simp]: "meet None b = None" "meet a None = None"
  by (auto simp: meet_def split: option.split)

lemma meet_Some [simp]: "meet (Some A) (Some B) = (if A \<inter> B = {} then None else Some (A \<inter> B))"
  by (simp add: meet_def)

lemma meet_SomeD: "meet a b = Some C \<Longrightarrow> \<exists>A B. a = Some A \<and> b = Some B \<and> C = A \<inter> B \<and> C \<noteq> {}"
  by (auto simp: meet_def split: option.splits if_splits)

lemma rd_weaker_refl: "rd_weaker a a"
  by (auto simp: rd_weaker_def)

lemma rd_weaker_trans: "rd_weaker a b \<Longrightarrow> rd_weaker b c \<Longrightarrow> rd_weaker a c"
  unfolding rd_weaker_def by (meson order_trans)

interpretation reaching_defs: finite_domain rd_join rd_weaker "rd_ok n borrowed" "rd_rank n" "n * n" for n borrowed
proof
  fix a b c :: ReachingDefState
  assume ok: "rd_ok n borrowed a" "rd_ok n borrowed b"
  note eq = rd_join_eq [OF ok(1), of b]
  have sub: "\<exists>A. a x = Some A \<and> C \<subseteq> A" "\<exists>B. b x = Some B \<and> C \<subseteq> B" if "meet (a x) (b x) = Some C" for x C
    using meet_SomeD [OF that] by auto
  show "rd_ok n borrowed (fst (rd_join a b))"
    using ok(1) sub unfolding eq rd_ok_def by (fastforce dest: meet_SomeD)
  show "rd_weaker a (fst (rd_join a b))" "rd_weaker b (fst (rd_join a b))"
    using sub unfolding eq rd_weaker_def by (simp_all only: fst_conv) blast+
  have same: "(\<forall>x. meet (a x) (b x) = a x) \<longleftrightarrow> rd_weaker b a"
  proof
    assume l: "\<forall>x. meet (a x) (b x) = a x"
    show "rd_weaker b a" unfolding rd_weaker_def
    proof (intro allI impI)
      fix x A assume "a x = Some A"
      then have "meet (a x) (b x) = Some A" using spec [OF l, of x] by simp
      then show "\<exists>B. b x = Some B \<and> A \<subseteq> B" by (rule sub(2))
    qed
  next
    assume r: "rd_weaker b a"
    show "\<forall>x. meet (a x) (b x) = a x"
    proof
      fix x show "meet (a x) (b x) = a x"
      proof (cases "a x")
        case (Some A)
        then obtain B where "b x = Some B" "A \<subseteq> B" using r unfolding rd_weaker_def by blast
        then show ?thesis using Some ok(1) by (auto simp: rd_ok_def Int_absorb2)
      qed simp
    qed
  qed
  show "snd (rd_join a b) = Unchanged \<longleftrightarrow> rd_weaker b a" by (simp add: eq same [symmetric])
  show "fst (rd_join a b) = a" if "rd_weaker b a" using same that by (simp add: eq fun_eq_iff)
  show "rd_weaker (fst (rd_join a b)) c" if c: "rd_ok n borrowed c" "rd_weaker a c" "rd_weaker b c"
    unfolding eq rd_weaker_def
  proof (intro allI impI)
    fix x C assume C: "c x = Some C"
    then obtain A B where "a x = Some A" "C \<subseteq> A" "b x = Some B" "C \<subseteq> B" using c(2,3) unfolding rd_weaker_def by blast
    moreover have "C \<noteq> {}" using c(1) C by (simp add: rd_ok_def)
    ultimately show "\<exists>A. fst (\<lambda>x. meet (a x) (b x), if \<exists>x. meet (a x) (b x) \<noteq> a x then Changed else Unchanged) x = Some A \<and> C \<subseteq> A"
      by auto
  qed
  show "rd_rank n (fst (rd_join a b)) < rd_rank n a" if ch: "snd (rd_join a b) = Changed"
  proof -
    let ?size = "\<lambda>m. \<lambda>x. case m x of None \<Rightarrow> 0 | Some A \<Rightarrow> card (A :: TempIndex set)"
    have fin: "finite A" if "a x = Some A" for x A
      using ok(1) that by (auto simp: rd_ok_def intro: finite_subset [of _ "{..<n} - borrowed"])
    have le: "?size (\<lambda>x. meet (a x) (b x)) x \<le> ?size a x" for x
      using fin sub(1) [of x] by (auto split: option.split intro!: card_mono dest!: meet_SomeD)
    obtain x where x: "meet (a x) (b x) \<noteq> a x" using ch by (auto simp: eq split: if_splits)
    then obtain A where A: "a x = Some A" by (cases "a x") auto
    then have "x < n" "A \<noteq> {}" using ok(1) by (auto simp: rd_ok_def)
    moreover have "?size (\<lambda>x. meet (a x) (b x)) x < ?size a x"
    proof (cases "meet (a x) (b x)")
      case None
      then show ?thesis using A \<open>A \<noteq> {}\<close> fin [OF A] by (simp add: card_gt_0_iff)
    next
      case (Some C)
      then have "C \<subset> A" using meet_SomeD [OF Some] A x by auto
      then show ?thesis using Some A fin [OF A] by (simp add: psubset_card_mono)
    qed
    ultimately show ?thesis unfolding rd_rank_def eq fst_conv
      by (intro sum_strict_mono_ex1) (use le in auto)
  qed
next
  fix a assume ok: "rd_ok n borrowed a"
  have "(case a x of None \<Rightarrow> 0 | Some A \<Rightarrow> card A) \<le> n" for x
  proof (cases "a x")
    case (Some A)
    then have "A \<subseteq> {..<n}" using ok by (auto simp: rd_ok_def)
    then show ?thesis using Some card_mono [of "{..<n}" A] by simp
  qed simp
  then have "rd_rank n a \<le> (\<Sum>x<n. n)" unfolding rd_rank_def by (rule sum_mono)
  then show "rd_rank n a \<le> n * n" by simp
qed (blast intro: rd_weaker_refl rd_weaker_trans)+

section \<open>Aliases are equal\<close>

definition aliases_hold :: "ReachingDefState \<Rightarrow> 'v locals \<Rightarrow> bool" where
  "aliases_hold m env \<longleftrightarrow> (\<forall>x A. m x = Some A \<longrightarrow> (\<forall>a\<in>A. env x = env a))"

lemma aliases_weaker: "rd_weaker m m' \<Longrightarrow> aliases_hold m env \<Longrightarrow> aliases_hold m' env"
  unfolding rd_weaker_def aliases_hold_def by blast

lemma aliases_propagated: "aliases_hold m env \<Longrightarrow> env (get_propagated_local x m) = env x"
proof (cases "m x")
  case (Some A)
  assume "aliases_hold m env"
  then have same: "\<forall>a\<in>A. env x = env a" using Some by (simp add: aliases_hold_def)
  show ?thesis
  proof (cases "filter (\<lambda>a. m a = None) (sorted_list_of_set A)")
    case (Cons a as)
    then have "a \<in> set (sorted_list_of_set A)" by (metis filter_is_subset list.set_intros(1) subsetD)
    then have "a \<in> A" by (cases "finite A") simp_all
    then show ?thesis using Some Cons same by (simp add: get_propagated_local_def)
  qed (use Some in \<open>simp add: get_propagated_local_def\<close>)
qed (simp add: get_propagated_local_def)

lemma kill_Some: "kill d m x = Some A' \<longleftrightarrow> x \<noteq> d \<and> (\<exists>A. m x = Some A \<and> A' = A - {d} \<and> A' \<noteq> {})"
  by (auto simp: kill_def split: option.splits)

lemma kill_all_Some:
  "fold kill ds m x = Some A' \<Longrightarrow> x \<notin> set ds \<and> (\<exists>A. m x = Some A \<and> A' \<subseteq> A - set ds)"
proof (induction ds arbitrary: m)
  case (Cons d ds)
  have "fold kill ds (kill d m) x = Some A'" using Cons.prems by simp
  then obtain A where A: "x \<notin> set ds" "kill d m x = Some A" "A' \<subseteq> A - set ds" using Cons.IH by blast
  then obtain A0 where "x \<noteq> d" "m x = Some A0" "A = A0 - {d}" unfolding kill_Some by blast
  then show ?case using A by auto
qed simp

lemma kill_ok: "rd_ok n B m \<Longrightarrow> rd_ok n B (kill d m)"
  unfolding rd_ok_def
proof (intro allI impI)
  fix x A' assume ok: "\<forall>x A. m x = Some A \<longrightarrow> x < n \<and> x \<notin> B \<and> A \<noteq> {} \<and> A \<subseteq> {..<n} - B" and "kill d m x = Some A'"
  then obtain A where "m x = Some A" "A' = A - {d}" "A' \<noteq> {}" unfolding kill_Some by blast
  then show "x < n \<and> x \<notin> B \<and> A' \<noteq> {} \<and> A' \<subseteq> {..<n} - B" using ok by fast
qed

lemma kill_all_ok: "rd_ok n B m \<Longrightarrow> rd_ok n B (fold kill ds m)"
  by (induction ds arbitrary: m) (auto intro: kill_ok)

lemma def_alias_ok: "rd_ok n B m \<Longrightarrow> d \<in> {..<n} - B \<Longrightarrow> s \<in> {..<n} - B \<Longrightarrow> rd_ok n B (def_alias d s m)"
  by (cases "m s") (auto simp: rd_ok_def def_alias_def)

definition temps_of :: "Bytecode \<Rightarrow> TempIndex set" where
  "temps_of b = set (dests b) \<union> set (srcs b)"

text \<open>What an assignment adds and a write back removes, over what the destinations leave.\<close>

lemma rd_execute_cases:
  obtains (assign) d s k a where "b = BAssign a d s k" "d \<notin> B" "s \<notin> B" "rd_execute B m b = def_alias d s (kill d m)"
    | (write_back) l where "rd_execute B m b = kill l (fold kill (dests b) m)"
    | (plain) "rd_execute B m b = fold kill (dests b) m"
proof (cases b)
  case (BAssign a d s k)
  then show ?thesis using assign plain by (cases "d \<notin> B \<and> s \<notin> B") (auto simp: rd_execute_def)
next
  case (BCall a ds oper ss aa)
  show ?thesis
  proof (cases "\<exists>l e. oper = OpWriteBack (LocalRoot l) e")
    case True
    then show ?thesis using write_back BCall by (auto simp: rd_execute_def)
  next
    case False
    then have "rd_execute B m b = fold kill (dests b) m"
      by (cases oper) (auto simp: rd_execute_def BCall Let_def split: BorrowNode.split)
    then show ?thesis by (rule plain)
  qed
qed (auto simp: rd_execute_def intro: plain)

lemma rd_execute_ok: "rd_ok n B m \<Longrightarrow> temps_of b \<subseteq> {..<n} \<Longrightarrow> rd_ok n B (rd_execute B m b)"
  by (cases rule: rd_execute_cases [of b B m]) (auto simp: temps_of_def intro: kill_ok kill_all_ok def_alias_ok)

lemma aliases_kill: "aliases_hold m env \<Longrightarrow> aliases_hold (kill d m) env"
  unfolding aliases_hold_def kill_Some by blast

text \<open>The effect of an instruction keeps the aliases sound.\<close>

lemma rd_execute_sound:
  assumes m: "aliases_hold m env" "rd_ok n B m"
    and r: "exec_instr M B offs b pc env mem = Running pc' env' mem'"
  shows "aliases_hold (rd_execute B m b) env'"
proof -
  have kept: "aliases_hold (fold kill (dests b) m) env'"
    unfolding aliases_hold_def
  proof (intro allI impI ballI)
    fix x A' a assume x: "fold kill (dests b) m x = Some A'" and a: "a \<in> A'"
    obtain A where A: "x \<notin> set (dests b)" "m x = Some A" "A' \<subseteq> A - set (dests b)" using kill_all_Some [OF x] by blast
    have B: "x \<notin> B" "a \<notin> B" using m(2) A a unfolding rd_ok_def by blast+
    have "env x = env a" using m(1) A a unfolding aliases_hold_def by blast
    then show "env' x = env' a" using exec_instr_other [OF r] A a B by (metis DiffD2 subsetD)
  qed
  show ?thesis
  proof (cases rule: rd_execute_cases [of b B m])
    case (assign d s k a)
    then have k: "aliases_hold (kill d m) env'" using kept by simp
    have "env' = env(d := env s)" using r assign(1) by simp
    then have s: "env' d = env' s" by simp
    have "aliases_hold (def_alias d s (kill d m)) env'"
      using k s unfolding aliases_hold_def def_alias_def by (auto split: option.splits)
    then show ?thesis using assign(4) by simp
  next
    case (write_back l)
    then show ?thesis using aliases_kill [OF kept] by simp
  next
    case plain
    then show ?thesis using kept by simp
  qed
qed

section \<open>Propagated instructions\<close>

text \<open>Write backs have no destination; the renaming drops them.\<close>

fun call_shape :: "Bytecode \<Rightarrow> bool" where
  "call_shape (BCall _ ds oper ss _) = ((is_write_back oper \<longrightarrow> ds = []) \<and> (oper = OpBorrowLoc \<longrightarrow> ss \<noteq> []))"
| "call_shape _ = True"

lemma rename_op_fixed:
  assumes "borrowed_local (BCall a ds oper ss aa) = Done l" "\<And>x. l = Some x \<Longrightarrow> f x = x"
  shows "rename_op f oper = oper"
proof (cases "\<exists>node e. oper = OpWriteBack node e \<or> oper = OpIsParent node e")
  case True
  then obtain node e where "oper = OpWriteBack node e \<or> oper = OpIsParent node e" by blast
  then show ?thesis using assms by (cases node) (auto simp: rename_op_def)
next
  case False
  then show ?thesis by (cases oper) (auto simp: rename_op_def)
qed

lemma op_locs_fixed:
  assumes "borrowed_local (BCall a ds oper ss aa) = Done l" "\<And>x. l = Some x \<Longrightarrow> f x = x"
  shows "op_locs oper (map f ss) = op_locs oper ss"
proof (cases "oper = OpBorrowLoc")
  case True
  then show ?thesis using assms by (cases ss) (auto simp: op_locs_def index_at_def)
qed (simp add: op_locs_def)

lemma rename_op_Stop: "rename_op f oper = OpStop \<longleftrightarrow> oper = OpStop"
  by (cases oper) (auto simp: rename_op_def)

lemma propagate_same:
  assumes m: "aliases_hold m env" "rd_ok n B m"
    and b: "borrowed_local b = Done l" "\<And>x. l = Some x \<Longrightarrow> x \<in> B" "call_shape b"
  shows "exec_instr M B offs (rename_bytecode (\<lambda>x. x) (\<lambda>x. get_propagated_local x m) b) pc env mem
    = exec_instr M B offs b pc env mem"
proof -
  let ?f = "\<lambda>x. get_propagated_local x m"
  have same: "env (?f x) = env x" for x by (rule aliases_propagated [OF m(1)])
  have fixed: "?f x = x" if "x \<in> B" for x
  proof -
    have "m x = None" using m(2) that unfolding rd_ok_def by (metis option.exhaust)
    then show ?thesis by (simp add: get_propagated_local_def)
  qed
  show ?thesis
  proof (cases b)
    case (BCall a ds oper ss aa)
    have l: "?f x = x" if "l = Some x" for x using fixed [OF b(2) [OF that]] .
    have "rename_op ?f oper = oper" by (rule rename_op_fixed [OF b(1) [unfolded BCall] l])
    moreover have "op_locs oper (map ?f ss) = op_locs oper ss" by (rule op_locs_fixed [OF b(1) [unfolded BCall] l])
    moreover have "map env (map ?f ss) = map env ss" using same by simp
    moreover have "(if is_write_back oper then [] else map (\<lambda>x. x) ds) = ds" using b(3) BCall by simp
    ultimately show ?thesis using BCall by (simp add: exec_call_def del: map_map list.map_ident)
  next
    case (BProp a k e)
    have "exp_val (m_interp M mem) env le (rename_exp ?f e) = exp_val (m_interp M mem) env le e" for le
      by (simp only: exp_val_rename same)
    then show ?thesis using BProp by simp
  qed (simp_all add: same comp_def)
qed

lemma borrowed_locals_total:
  assumes "\<forall>b\<in>set code. call_shape b"
  shows "\<exists>B. borrowed_locals code = Done B \<and> (\<forall>b\<in>set code. \<exists>l. borrowed_local b = Done l \<and> (\<forall>x. l = Some x \<longrightarrow> x \<in> B))"
  using assms
proof (induction code rule: rev_induct)
  case (snoc b code)
  obtain B where B: "borrowed_locals code = Done B"
    "\<forall>b\<in>set code. \<exists>l. borrowed_local b = Done l \<and> (\<forall>x. l = Some x \<longrightarrow> x \<in> B)"
    using snoc by auto
  have "\<exists>l. borrowed_local b = Done l"
  proof (cases b)
    case (BCall a ds oper ss aa)
    show ?thesis
    proof (cases "oper = OpBorrowLoc")
      case True
      then show ?thesis using snoc.prems BCall by (simp add: index_at_def)
    next
      case False
      then show ?thesis by (cases oper) (auto simp: BCall split: BorrowNode.split)
    qed
  qed simp_all
  then obtain l where l: "borrowed_local b = Done l" by blast
  let ?B = "case l of None \<Rightarrow> B | Some x \<Rightarrow> insert x B"
  have "borrowed_locals (code @ [b]) = Done ?B"
    using B(1) l by (simp add: borrowed_locals_def ofold_append)
  moreover have "\<exists>l. borrowed_local c = Done l \<and> (\<forall>x. l = Some x \<longrightarrow> x \<in> ?B)" if c: "c \<in> set (code @ [b])" for c
  proof (cases "c \<in> set code")
    case True
    then obtain l' where "borrowed_local c = Done l'" "\<forall>x. l' = Some x \<longrightarrow> x \<in> B" using B(2) by blast
    then show ?thesis by (cases l) auto
  next
    case False
    then show ?thesis using c l by auto
  qed
  ultimately show ?case by blast
qed (simp add: borrowed_locals_def)

text \<open>A bound of the locals that the code names.\<close>

definition locals_bound :: "Bytecode list \<Rightarrow> nat" where
  "locals_bound code = Suc (Max (insert 0 (\<Union>b\<in>set code. temps_of b)))"

lemma temps_of_bound: "b \<in> set code \<Longrightarrow> temps_of b \<subseteq> {..<locals_bound code}"
  by (auto simp: locals_bound_def temps_of_def less_Suc_eq_le intro!: Max_ge)

text \<open>Code without labels in which only the last instruction leaves.\<close>

lemma straight_well_blocked:
  assumes "label_offsets code = Done Map.empty" "code \<noteq> []" "\<forall>b\<in>set (butlast code). \<not> is_branch b"
    "is_exit (last code)"
  shows "well_blocked code Map.empty ignore"
proof -
  have split: "code = butlast code @ [last code]" using assms(2) by simp
  have set: "set code = insert (last code) (set (butlast code))" by (subst split) simp
  have "\<not> is_branch (code ! pc)" if "pc + 1 < length code" for pc
    using assms(3) that nth_butlast [of pc code] by (metis length_butlast less_diff_conv nth_mem)
  moreover have "branch_dests b = []" if "b \<in> set code" for b
    using that exit_no_dests [OF assms(4)] assms(3) not_branch_dests unfolding set by blast
  moreover have "is_exit b" if "b \<in> set code" "is_branch b" for b using that assms(3,4) unfolding set by blast
  ultimately show ?thesis using assms(1,2) by (auto simp: well_blocked_def targets_defined_def)
qed

section \<open>Correctness\<close>

abbreviation propagated :: "Bytecode list \<Rightarrow> nat set \<Rightarrow> (nat \<Rightarrow> ReachingDefState) \<Rightarrow> CodeOffset \<Rightarrow> Bytecode" where
  "propagated code V bef i \<equiv> rename_bytecode (\<lambda>x. x) (\<lambda>x. get_propagated_local x (if i \<in> V then bef i else Map.empty)) (code ! i)"

lemma copy_propagation_Done:
  assumes "\<forall>b\<in>set code. plain_props b"
  shows "copy_propagation code (\<lambda>i. if i \<in> V then Some (bef i) else None) = Done (map (propagated code V bef) [0..<length code])"
proof -
  have "propagate_instr (\<lambda>i. if i \<in> V then Some (bef i) else None) (i, code ! i) = Done (propagated code V bef i)" if "i < length code" for i
    using assms that by (simp add: propagate_instr_def remap_src_vars_rename sret_apply)
  then have "map (propagate_instr (\<lambda>i. if i \<in> V then Some (bef i) else None)) (enumerate 0 code)
      = map Done (map (propagated code V bef) [0..<length code])"
    by (intro nth_equalityI) (auto simp: nth_enumerate_eq)
  then show ?thesis by (simp add: copy_propagation_def osequence_Done_iff del: map_map)
qed

lemma reaching_states:
  assumes wb: "well_blocked code offs False" and shape: "\<forall>b\<in>set code. call_shape b"
  shows "\<exists>B V bef. borrowed_locals code = Done B
    \<and> analyze_reaching_definitions code = Done (\<lambda>i. if i \<in> V then Some (bef i) else None)
    \<and> (\<forall>b\<in>set code. \<exists>l. borrowed_local b = Done l \<and> (\<forall>x. l = Some x \<longrightarrow> x \<in> B))
    \<and> 0 \<in> V \<and> bef 0 = Map.empty
    \<and> (\<forall>i\<in>V. rd_ok (locals_bound code) B (bef i)
         \<and> (\<forall>j\<in>set (succs code offs i). j \<in> V \<and> rd_weaker (rd_execute B (bef i) (code ! i)) (bef j)))"
proof -
  obtain B where B: "borrowed_locals code = Done B"
    "\<forall>b\<in>set code. \<exists>l. borrowed_local b = Done l \<and> (\<forall>x. l = Some x \<longrightarrow> x \<in> B)"
    using borrowed_locals_total [OF shape] by blast
  let ?T = "rd_transfer B"
  have "\<not> t_backward ?T" "t_join ?T = rd_join" by (simp_all add: rd_transfer_def)
  moreover have "rd_ok (locals_bound code) B (t_execute ?T s i off)" if "rd_ok (locals_bound code) B s" "i \<in> set code" for s i off
    using that temps_of_bound by (simp add: rd_transfer_def rd_execute_ok)
  moreover have "rd_ok (locals_bound code) B Map.empty" by (simp add: rd_ok_def)
  ultimately obtain cfg sm V bef where r: "new_forward code = Done cfg" "analyze_function ?T Map.empty code cfg = Done sm"
    "state_per_instruction ?T sm code cfg (\<lambda>before _. before) = Done (\<lambda>i. if i \<in> V then Some (bef i) else None)"
    "0 \<in> V" "rd_weaker Map.empty (bef 0)"
    "\<forall>i\<in>V. i < length code \<and> rd_ok (locals_bound code) B (bef i)
       \<and> (\<forall>j\<in>set (succs code offs i). j \<in> V \<and> rd_weaker (exec_at ?T code i (bef i)) (bef j))"
    using reaching_defs.forward_states [OF wb, where T = ?T and f = "\<lambda>before _. before" and initial = Map.empty and n = "locals_bound code" and borrowed = B]
    by blast
  have "bef 0 x = None" for x using r(5) unfolding rd_weaker_def by (metis option.exhaust option.distinct(1))
  then have "bef 0 = Map.empty" by (rule ext)
  moreover have "analyze_reaching_definitions code = Done (\<lambda>i. if i \<in> V then Some (bef i) else None)"
    by (simp add: analyze_reaching_definitions_def r(1,2,3) B(1))
  moreover have "exec_at ?T code i s = rd_execute B s (code ! i)" for i s by (simp add: exec_at_def rd_transfer_def)
  ultimately show ?thesis using B r(4,6) by (intro exI [of _ B] exI [of _ V] exI [of _ bef]) simp
qed

text \<open>C7: copy propagation ends on every function whose jumps have targets and end their blocks,
  and the new code behaves like the old: from every state of the locals and the memory it
  makes the same steps and ends with the same values, whatever the operations mean, if an
  operation changes only its destinations, memory, and the locals that are borrowed from.\<close>

theorem copy_propagation_correct:
  assumes "well_blocked code offs False" "\<forall>b\<in>set code. plain_props b \<and> call_shape b"
  shows "\<exists>B code'. borrowed_locals code = Done B \<and> reaching_def_process False code = Done code'
    \<and> (\<forall>(M :: ('v, 'm) machine) env mem n.
         run M B code' offs n (Running 0 env mem) = run M B code offs n (Running 0 env mem))"
proof -
  obtain B V bef where R: "borrowed_locals code = Done B"
    "analyze_reaching_definitions code = Done (\<lambda>i. if i \<in> V then Some (bef i) else None)"
    "\<forall>b\<in>set code. \<exists>l. borrowed_local b = Done l \<and> (\<forall>x. l = Some x \<longrightarrow> x \<in> B)"
    "0 \<in> V" "bef 0 = Map.empty"
    "\<forall>i\<in>V. rd_ok (locals_bound code) B (bef i)
         \<and> (\<forall>j\<in>set (succs code offs i). j \<in> V \<and> rd_weaker (rd_execute B (bef i) (code ! i)) (bef j))"
    using reaching_states [OF assms(1)] assms(2) by blast
  have ok: "targets_defined code offs" using assms(1) by (simp add: well_blocked_def)
  let ?code' = "map (propagated code V bef) [0..<length code]"
  let ?P = "\<lambda>r :: ('v, 'm) result. case r of Running pc env mem \<Rightarrow> pc \<in> V \<and> aliases_hold (bef pc) env | _ \<Rightarrow> False"
  have "run M B ?code' offs n (Running 0 env mem) = run M B code offs n (Running 0 env mem)" for M :: "('v, 'm) machine" and env mem n
  proof (rule run_same [where P = ?P])
    show "?P (Running 0 env mem)" using R(4,5) by (simp add: aliases_hold_def)
  next
    fix pc env and mem :: 'm assume P: "?P (Running pc env mem)" and pc: "pc < length code"
    then have V: "pc \<in> V" "aliases_hold (bef pc) env" by simp_all
    note okm = bspec [OF R(6) V(1)]
    have b: "code ! pc \<in> set code" using pc by simp
    obtain l where l: "borrowed_local (code ! pc) = Done l" "\<And>x. l = Some x \<Longrightarrow> x \<in> B" using R(3) b by blast
    have "exec_instr M B offs (?code' ! pc) pc env mem = exec_instr M B offs (code ! pc) pc env mem"
      using propagate_same [OF V(2) conjunct1 [OF okm] l] assms(2) b V(1) pc by simp
    moreover have "?P (Running pc' env' mem')"
      if r: "exec_instr M B offs (code ! pc) pc env mem = Running pc' env' mem'" "pc' < length code" for pc' env' mem'
    proof -
      have s: "pc' \<in> set (succs code offs pc)" by (rule exec_instr_succs [OF ok pc r])
      have "aliases_hold (rd_execute B (bef pc) (code ! pc)) env'"
        by (rule rd_execute_sound [OF V(2) conjunct1 [OF okm] r(1)])
      then have "pc' \<in> V \<and> aliases_hold (bef pc') env'" using okm s aliases_weaker by blast
      then show ?thesis by simp
    qed
    ultimately show "exec_instr M B offs (?code' ! pc) pc env mem = exec_instr M B offs (code ! pc) pc env mem
       \<and> (\<forall>pc' env' mem'. exec_instr M B offs (code ! pc) pc env mem = Running pc' env' mem' \<longrightarrow> pc' < length code
            \<longrightarrow> ?P (Running pc' env' mem'))"
      by blast
  qed simp
  moreover have "reaching_def_process False code = Done ?code'"
    using copy_propagation_Done assms(2) by (simp add: reaching_def_process_def R(2))
  ultimately show ?thesis using R(1) by blast
qed

theorem copy_propagation_correct_witness:
  "\<exists>B code'. borrowed_locals [BLoad 0 0 (KBool True), BAssign 1 1 0 AssignCopy, BRet 2 [1]] = Done B
    \<and> reaching_def_process False [BLoad 0 0 (KBool True), BAssign 1 1 0 AssignCopy, BRet 2 [1]] = Done code'
    \<and> (\<forall>(M :: (bool, unit) machine) env n. run M B code' Map.empty n (Running 0 env ())
          = run M B [BLoad 0 0 (KBool True), BAssign 1 1 0 AssignCopy, BRet 2 [1]] Map.empty n (Running 0 env ()))"
proof -
  have "well_blocked [BLoad 0 0 (KBool True), BAssign 1 1 0 AssignCopy, BRet 2 [1]] Map.empty False"
    by (rule straight_well_blocked) (simp_all add: label_offsets_def enumerate_eq_zip is_branch_def)
  from copy_propagation_correct [OF this, where 'v = bool and 'm = unit] show ?thesis by simp
qed

end
