(* ===== verification/Compaction.thy ===== *)
theory Compaction
  imports BytecodeSem
begin

text \<open>
  Code that is rewritten instruction by instruction: every instruction becomes a piece of code,
  and labels keep their place.  Where the pieces start, what the labels of the new code are, how
  a step of an instruction moves, and the simulation of runs in which the new code makes fewer
  steps.
\<close>

section \<open>Pieces\<close>

definition pieces :: "(CodeOffset \<Rightarrow> Bytecode list) \<Rightarrow> CodeOffset \<Rightarrow> Bytecode list" where
  "pieces out k = concat (map out [0..<k])"

definition piece_pos :: "(CodeOffset \<Rightarrow> Bytecode list) \<Rightarrow> CodeOffset \<Rightarrow> CodeOffset" where
  "piece_pos out k = length (pieces out k)"

lemma pieces_Suc [simp]: "pieces out (Suc k) = pieces out k @ out k"
  by (simp add: pieces_def)

lemma pieces_0 [simp]: "pieces out 0 = []" "piece_pos out 0 = 0"
  by (simp_all add: pieces_def piece_pos_def)

lemma piece_pos_Suc [simp]: "piece_pos out (Suc k) = piece_pos out k + length (out k)"
  by (simp add: piece_pos_def)

lemma pieces_le: "i \<le> n \<Longrightarrow> \<exists>rest. pieces out n = pieces out i @ rest"
proof (induction n)
  case (Suc n)
  then show ?case by (cases "i = Suc n") auto
qed simp

lemma piece_at:
  assumes "i < n" "j < length (out i)"
  shows "piece_pos out i + j < length (pieces out n)" "pieces out n ! (piece_pos out i + j) = out i ! j"
proof -
  obtain rest where "pieces out n = pieces out (Suc i) @ rest" using pieces_le [of "Suc i" n out] assms(1) by auto
  then have "pieces out n = pieces out i @ out i @ rest" by simp
  then show "piece_pos out i + j < length (pieces out n)" "pieces out n ! (piece_pos out i + j) = out i ! j"
    using assms(2) by (simp_all add: piece_pos_def nth_append)
qed

definition not_label :: "Bytecode \<Rightarrow> bool" where
  "not_label b \<longleftrightarrow> (\<forall>a l. b \<noteq> BLabel a l)"

text \<open>Labels stay, and no other instruction makes one.\<close>

definition keeps_labels :: "Bytecode list \<Rightarrow> (CodeOffset \<Rightarrow> Bytecode list) \<Rightarrow> bool" where
  "keeps_labels code out \<longleftrightarrow> (\<forall>i < length code.
     if not_label (code ! i) then (\<forall>b\<in>set (out i). not_label b) else out i = [code ! i])"

lemma label_step_other: "not_label b \<Longrightarrow> label_step (i, b) offs = Done offs"
  by (cases b) (auto simp: not_label_def)

lemma label_offsets_append_other: "\<forall>b\<in>set bs. not_label b \<Longrightarrow> label_offsets (code @ bs) = label_offsets code"
proof (induction bs rule: rev_induct)
  case (snoc b bs)
  have "label_offsets (code @ bs @ [b]) = obind (label_offsets (code @ bs)) (label_step (length (code @ bs), b))"
    using label_offsets_snoc [of "code @ bs" b] by simp
  moreover have "label_step (length (code @ bs), b) offs = Done offs" for offs
    using snoc.prems by (intro label_step_other) simp
  ultimately show ?case using snoc by (cases "label_offsets code") (auto simp del: label_step.simps)
qed simp

lemma label_offsets_pieces:
  assumes keep: "keeps_labels code out" and k: "k \<le> length code" and offs: "label_offsets (take k code) = Done offs"
  shows "label_offsets (pieces out k) = Done (\<lambda>l. map_option (piece_pos out) (offs l))"
  using k offs
proof (induction k arbitrary: offs)
  case 0
  then show ?case by (auto simp: label_offsets_def)
next
  case (Suc k)
  have take: "take (Suc k) code = take k code @ [code ! k]" using Suc.prems by (simp add: take_Suc_conv_app_nth)
  obtain o1 where o1: "label_offsets (take k code) = Done o1" "label_step (k, code ! k) o1 = Done offs"
    using Suc.prems unfolding take label_offsets_snoc by (auto simp: obind_Done_iff)
  have IH: "label_offsets (pieces out k) = Done (\<lambda>l. map_option (piece_pos out) (o1 l))"
    using Suc.IH o1(1) Suc.prems by simp
  show ?case
  proof (cases "not_label (code ! k)")
    case True
    then have "\<forall>b\<in>set (out k). not_label b" using keep Suc.prems unfolding keeps_labels_def by (metis Suc_le_lessD)
    then show ?thesis using IH o1(2) label_step_other [OF True] by (simp add: label_offsets_append_other)
  next
    case False
    then obtain a l where b: "code ! k = BLabel a l" by (auto simp: not_label_def)
    have "out k = [code ! k]" using keep Suc.prems False unfolding keeps_labels_def by (metis Suc_le_lessD)
    moreover have "l \<notin> dom o1" "offs = o1(l \<mapsto> k)" using o1(2) b by (simp_all split: if_splits)
    moreover have "piece_pos out k = length (pieces out k)" by (simp add: piece_pos_def)
    ultimately show ?thesis using IH b by (auto simp: label_offsets_snoc fun_eq_iff domIff)
  qed
qed

section \<open>Steps\<close>

fun move :: "(CodeOffset \<Rightarrow> CodeOffset) \<Rightarrow> ('v, 'm) result \<Rightarrow> ('v, 'm) result" where
  "move pos (Running pc env mem) = Running (pos pc) env mem"
| "move pos r = r"

lemma goto_move: "goto (\<lambda>l. map_option pos (offs l)) l env mem = move pos (goto offs l env mem)"
  by (simp add: goto_def split: option.split)

text \<open>A step of the same instruction at the start of its piece.\<close>

lemma exec_instr_move:
  assumes "pos (pc + 1) = pos pc + 1"
  shows "exec_instr M B (\<lambda>l. map_option pos (offs l)) b (pos pc) env mem = move pos (exec_instr M B offs b pc env mem)"
  using assms by (cases b) (auto simp: goto_move exec_call_def Let_def split: sum.split)

lemma exec_instr_pc:
  "exec_instr M B offs b pc env mem = Running pc' env' mem' \<Longrightarrow> pc' = pc + 1 \<or> (\<exists>l. offs l = Some pc')"
  by (cases b) (auto simp: goto_Running exec_call_def Let_def split: sum.splits if_splits)

section \<open>Simulation with fewer steps\<close>

text \<open>Related runs end in the same result: the new code makes one step for one or more of the
  old, or waits while a measure of the old falls.\<close>

lemma stuttering:
  fixes c c' :: "('v, 'm) result" and R :: "('v, 'm) result \<Rightarrow> ('v, 'm) result \<Rightarrow> bool" and m :: "('v, 'm) result \<Rightarrow> nat"
  assumes sim: "\<And>c c'. R c c' \<Longrightarrow> is_running c \<Longrightarrow> is_running c' \<and>
      ((\<exists>k. R (run M B code offs (Suc k) c) (step M B code' offs' c')) \<or> (R (step M B code offs c) c' \<and> m (step M B code offs c) < m c))"
    and stop: "\<And>c c'. R c c' \<Longrightarrow> \<not> is_running c \<Longrightarrow> c' = c"
    and R: "R c c'" and r: "\<not> is_running r"
  shows "(\<exists>n. run M B code offs n c = r) \<longleftrightarrow> (\<exists>n. run M B code' offs' n c' = r)"
proof
  assume "\<exists>n. run M B code offs n c = r"
  then obtain n where "run M B code offs n c = r" by blast
  then show "\<exists>n. run M B code' offs' n c' = r" using R
  proof (induction n arbitrary: c c' rule: less_induct)
    case (less n)
    show ?case
    proof (cases "is_running c")
      case False
      then have "c = r" "c' = c" using less.prems stop by (auto simp: run_stopped)
      then show ?thesis by (intro exI [of _ 0]) simp
    next
      case True
      then have n: "n > 0" using less.prems(1) r by (cases n) auto
      from sim [OF less.prems(2) True] consider
        (jump) k where "R (run M B code offs (Suc k) c) (step M B code' offs' c')"
        | (wait) "R (step M B code offs c) c'"
        by blast
      then show ?thesis
      proof cases
        case jump
        have "run M B code offs (n - Suc k) (run M B code offs (Suc k) c) = r"
        proof (cases "Suc k \<le> n")
          case True
          then show ?thesis using less.prems(1) by (metis run_add le_add_diff_inverse)
        next
          case False
          then have "run M B code offs (Suc k) c = r"
            using less.prems(1) r run_stopped by (metis run_add le_add_diff_inverse nat_le_linear)
          then show ?thesis using r by (simp add: run_stopped)
        qed
        then obtain n' where "run M B code' offs' n' (step M B code' offs' c') = r"
          using less.IH [of "n - Suc k", OF _ _ jump] n by auto
        then have "run M B code' offs' (Suc n') c' = r" by simp
        then show ?thesis by blast
      next
        case wait
        obtain p where p: "n = Suc p" using n by (cases n) auto
        then show ?thesis using less.IH [of p, OF _ _ wait] less.prems(1) by simp
      qed
    qed
  qed
next
  assume "\<exists>n. run M B code' offs' n c' = r"
  then obtain n where "run M B code' offs' n c' = r" by blast
  then show "\<exists>n. run M B code offs n c = r" using R
  proof (induction n arbitrary: c c')
    case 0
    then have "\<not> is_running c" using sim [OF 0(2)] r by auto
    then show ?case using stop [OF 0(2)] 0(1) by (intro exI [of _ 0]) simp
  next
    case (Suc n)
    from Suc.prems(2) show ?case
    proof (induction c rule: measure_induct_rule [of m])
      case (less c)
      show ?case
      proof (cases "is_running c")
        case False
        then have "c' = c" using stop less.prems by blast
        then have "c = r" using Suc.prems(1) False by (metis run_stopped)
        then show ?thesis by (intro exI [of _ 0]) simp
      next
        case True
        from sim [OF less.prems True] consider
          (jump) k where "R (run M B code offs (Suc k) c) (step M B code' offs' c')"
          | (wait) "R (step M B code offs c) c'" "m (step M B code offs c) < m c"
          by blast
        then show ?thesis
        proof cases
          case jump
          have "run M B code' offs' n (step M B code' offs' c') = r" using Suc.prems(1) by simp
          then obtain p where "run M B code offs p (run M B code offs (Suc k) c) = r" using Suc.IH jump by blast
          then have "run M B code offs (Suc k + p) c = r" by (simp only: run_add)
          then show ?thesis by blast
        next
          case wait
          obtain p where "run M B code offs p (step M B code offs c) = r" using less.IH [OF wait(2,1)] by blast
          then have "run M B code offs (Suc p) c = r" by simp
          then show ?thesis by blast
        qed
      qed
    qed
  qed
qed

end
