(* ===== verification/LiveVar.thy ===== *)
theory LiveVar
  imports ReachingDef Compaction
begin

text \<open>
  Live variables (\<open>livevar_analysis.rs\<close>): the backward analysis, the removal of dead loads and
  assignments, the merge of a call with the assignment that copies its result, the blocks that
  destroy references which die along an edge, and the removal of unused locals.

  The new code is proved to run like the old for functions without references and without
  switches on variants; a switch is proved to lose the assignment that it depends on.
\<close>

section \<open>The analysis\<close>

type_synonym LiveVarState = "TempIndex set"

definition lv_remove :: "TempIndex list \<Rightarrow> LiveVarState \<Rightarrow> bool \<times> LiveVarState" where
  "lv_remove vars state = fold (\<lambda>v (removed, s). if v \<in> s then (True, s - {v}) else (removed, s)) vars (False, state)"

definition lv_insert :: "TempIndex list \<Rightarrow> LiveVarState \<Rightarrow> LiveVarState" where
  "lv_insert vars state = fold insert vars state"

definition lv_join :: "LiveVarState \<Rightarrow> LiveVarState \<Rightarrow> LiveVarState \<times> JoinResult" where
  "lv_join self other = fold (\<lambda>livevar (s, result). if livevar \<notin> s then (insert livevar s, Changed) else (s, result))
     (sorted_list_of_set other) (self, Unchanged)"

fun lv_execute :: "LiveVarState \<Rightarrow> Bytecode \<Rightarrow> LiveVarState" where
  "lv_execute state (BAssign _ dst src _) =
     (case lv_remove [dst] state of (removed, state) \<Rightarrow> if removed then lv_insert [src] state else state)"
| "lv_execute state (BLoad _ dst _) = snd (lv_remove [dst] state)"
| "lv_execute state (BCall _ dsts _ ss _) = lv_insert ss (snd (lv_remove dsts state))"
| "lv_execute state (BRet _ ss) = lv_insert ss state"
| "lv_execute state (BAbort _ src) = lv_insert [src] state"
| "lv_execute state (BBranch _ _ _ src) = lv_insert [src] state"
| "lv_execute state _ = state"

definition lv_transfer :: "LiveVarState transfer" where
  "lv_transfer = \<lparr>t_join = lv_join, t_backward = True, t_execute = (\<lambda>state instr _. lv_execute state instr)\<rparr>"

record LiveVarInfoAtCodeOffset =
  lv_before :: "TempIndex set"
  lv_after :: "TempIndex set"

type_synonym LiveVarAnnotation = "CodeOffset \<rightharpoonup> LiveVarInfoAtCodeOffset"

definition livevar_analyze :: "Bytecode list \<Rightarrow> LiveVarAnnotation outcome" where
  "livevar_analyze code =
     obind (new_backward code True) (\<lambda>cfg.
     obind (analyze_function lv_transfer {} code cfg) (\<lambda>state_map.
       state_per_instruction lv_transfer state_map code cfg
         (\<lambda>before after. \<lparr>lv_before = before, lv_after = after\<rparr>)))"

section \<open>The new code\<close>

text \<open>The part of a function target that the transformation reads.\<close>

record func_locals =
  local_types :: "MType list"
  parameter_count :: nat
  user_local_count :: nat

text \<open>The next label and the next attribute: \<open>Label::new\<close> and \<open>AttrId::new\<close> cut a number to
  16 bits.\<close>

type_synonym 'a fresh = "(nat \<times> nat, 'a) comp"

definition new_label :: "Label fresh" where
  "new_label = (\<lambda>(next_label, next_attr). Done (of_nat next_label, (next_label + 1, next_attr)))"

definition new_attr_id :: "AttrId fresh" where
  "new_attr_id = (\<lambda>(next_label, next_attr). Done (of_nat next_attr, (next_label, next_attr + 1)))"

definition create_block_to_destroy_refs :: "Label \<Rightarrow> TempIndex list \<Rightarrow> (Label \<times> Bytecode list) fresh" where
  "create_block_to_destroy_refs jump_label refs =
     (if refs = [] then sret (jump_label, [])
      else
        sbind new_label (\<lambda>start_label.
        sbind new_attr_id (\<lambda>a.
        sbind (smapM (\<lambda>idx. sbind new_attr_id (\<lambda>a. sret (BCall a [] OpDestroy [idx] None))) refs) (\<lambda>destroys.
        sbind new_attr_id (\<lambda>a'.
          sret (start_label, BLabel a start_label # destroys @ [BJump a' jump_label]))))))"

definition lost_ref :: "MType list \<Rightarrow> LiveVarAnnotation \<Rightarrow> CodeOffset \<Rightarrow> TempIndex \<Rightarrow> TempIndex list \<Rightarrow> TempIndex list outcome" where
  "lost_ref types annotations dest x acc = obind (get_local_type types x) (\<lambda>ty.
     if is_reference ty
     then omap (\<lambda>info. if x \<notin> lv_before info then acc @ [x] else acc) (at annotations dest)
     else Done acc)"

definition lost_refs_along_edge :: "MType list \<Rightarrow> LiveVarAnnotation \<Rightarrow> CodeOffset \<Rightarrow> CodeOffset \<Rightarrow> TempIndex list outcome" where
  "lost_refs_along_edge types annotations src dest = obind (at annotations src) (\<lambda>info.
     ofold (lost_ref types annotations dest) (sorted_list_of_set (lv_after info)) [])"

definition destroy_along_edge ::
  "MType list \<Rightarrow> LiveVarAnnotation \<Rightarrow> (Label \<rightharpoonup> CodeOffset) \<Rightarrow> CodeOffset \<Rightarrow> Label \<Rightarrow> (Label \<times> Bytecode list) fresh" where
  "destroy_along_edge types annotations offs src label =
     sbind (slift (obind (at offs label) (lost_refs_along_edge types annotations src)))
       (create_block_to_destroy_refs label)"

text \<open>The code for an instruction, and whether the next one is skipped.\<close>

fun merged_call :: "Bytecode \<Rightarrow> Bytecode \<Rightarrow> LiveVarInfoAtCodeOffset outcome \<Rightarrow> (Bytecode list \<times> bool) outcome" where
  "merged_call (BCall a ds oper ss aa) (BAssign _ dest src _) info = omap (\<lambda>info.
     if src = ds ! 0 \<and> src \<notin> lv_after info then ([BCall a [dest] oper ss aa], True)
     else ([BCall a ds oper ss aa], False)) info"
| "merged_call call _ info = Done ([call], False)"

definition transform_instr ::
  "MType list \<Rightarrow> LiveVarAnnotation \<Rightarrow> (Label \<rightharpoonup> CodeOffset) \<Rightarrow> Bytecode list \<Rightarrow> CodeOffset \<Rightarrow> (Bytecode list \<times> bool) fresh" where
  "transform_instr types annotations offs code i =
     sbind (slift (at annotations i)) (\<lambda>annotation_at. case code ! i of
       BBranch a then_label else_label src \<Rightarrow>
         sbind (destroy_along_edge types annotations offs i then_label) (\<lambda>(then_label, then_code).
         sbind (destroy_along_edge types annotations offs i else_label) (\<lambda>(else_label, else_code).
           sret (BBranch a then_label else_label src # then_code @ else_code, False)))
     | BVariantSwitch a src labels \<Rightarrow>
         sbind (smapM (destroy_along_edge types annotations offs i) labels) (\<lambda>edges.
           sret (BVariantSwitch a src (map fst edges) # concat (map snd edges), False))
     | BLoad a dest c \<Rightarrow> sret (if dest \<notin> lv_after annotation_at then [] else [BLoad a dest c], False)
     | BAssign a dest src k \<Rightarrow> sret (if dest \<notin> lv_after annotation_at then [] else [BAssign a dest src k], False)
     | BCall a ds oper ss aa \<Rightarrow>
         if i + 1 < length code \<and> length ds = 1 \<and> oper \<noteq> OpBorrowLoc \<and> (\<nexists>m d tys. oper = OpBorrowGlobal m d tys)
         then slift (merged_call (BCall a ds oper ss aa) (code ! (i + 1)) (at annotations (i + 1)))
         else sret ([BCall a ds oper ss aa], False)
     | b \<Rightarrow> sret ([b], False))"

definition transform_step ::
  "MType list \<Rightarrow> LiveVarAnnotation \<Rightarrow> (Label \<rightharpoonup> CodeOffset) \<Rightarrow> Bytecode list \<Rightarrow> CodeOffset
    \<Rightarrow> (Bytecode list \<times> bool) \<times> (nat \<times> nat) \<Rightarrow> ((Bytecode list \<times> bool) \<times> (nat \<times> nat)) outcome" where
  "transform_step types annotations offs code i = (\<lambda>((out, skip_next), ids).
     if skip_next then Done ((out, False), ids)
     else omap (\<lambda>((bs, skip_next), ids). ((out @ bs, skip_next), ids)) (transform_instr types annotations offs code i ids))"

text \<open>Marks for mutable references that may not be initialised.\<close>

definition uninit_marks :: "func_locals \<Rightarrow> LiveVarAnnotation \<Rightarrow> Bytecode list fresh" where
  "uninit_marks ft annotations = (case annotations 0 of
     None \<Rightarrow> sret []
   | Some info \<Rightarrow> (\<lambda>ids. ofold (\<lambda>index (out, ids).
       if index \<ge> parameter_count ft
       then obind (get_local_type (local_types ft) index) (\<lambda>ty.
         if is_mutable_reference ty
         then omap (\<lambda>(a, ids). (out @ [BCall a [] OpUninit [index] None], ids)) (new_attr_id ids)
         else Done (out, ids))
       else Done (out, ids)) (sorted_list_of_set (lv_before info)) ([], ids)))"

definition transform_code :: "func_locals \<Rightarrow> LiveVarAnnotation \<Rightarrow> Bytecode list \<Rightarrow> Bytecode list fresh" where
  "transform_code ft annotations code = (\<lambda>ids.
     obind (label_offsets code) (\<lambda>offs.
     obind (uninit_marks ft annotations ids) (\<lambda>(marks, ids).
     omap (\<lambda>((out, _), ids). (out, ids))
       (ofold (transform_step (local_types ft) annotations offs code) [0..<length code] ((marks, False), ids)))))"

section \<open>The processor\<close>

definition next_free_attr_index :: "Bytecode list \<Rightarrow> nat" where
  "next_free_attr_index code = (case map (\<lambda>b. unat (get_attr_id b)) code of [] \<Rightarrow> 0 | x # xs \<Rightarrow> fold max xs x) + 1"

definition next_free_label_index :: "Bytecode list \<Rightarrow> nat" where
  "next_free_label_index code =
     (case List.map_filter (\<lambda>b. case b of BLabel _ l \<Rightarrow> Some (unat l) | _ \<Rightarrow> None) code of
        [] \<Rightarrow> 0 | x # xs \<Rightarrow> fold max xs x) + 1"

definition analyze_and_transform :: "func_locals \<Rightarrow> nat \<Rightarrow> nat \<Rightarrow> Bytecode list \<Rightarrow> (Bytecode list \<times> LiveVarAnnotation) outcome" where
  "analyze_and_transform ft next_free_label next_free_attr code =
     obind (livevar_analyze code) (\<lambda>annotations.
     omap (\<lambda>(code, _). (code, annotations)) (transform_code ft annotations code (next_free_label, next_free_attr)))"

text \<open>The new index of a local: user locals keep theirs.\<close>

definition transform_local :: "MType list \<Rightarrow> TempIndex \<Rightarrow> (MType list \<times> (TempIndex \<rightharpoonup> TempIndex), TempIndex) comp" where
  "transform_local types local = (\<lambda>(new_vars, remap). case remap local of
     Some new_idx \<Rightarrow> Done (new_idx, (new_vars, remap))
   | None \<Rightarrow> omap (\<lambda>ty. (length new_vars, (new_vars @ [ty], remap(local \<mapsto> length new_vars)))) (get_local_type types local))"

definition eliminate_unused_vars ::
  "func_locals \<Rightarrow> Bytecode list \<Rightarrow> (Bytecode list \<times> MType list \<times> (TempIndex \<rightharpoonup> TempIndex)) outcome" where
  "eliminate_unused_vars ft code =
     obind (osequence (map (get_local_type (local_types ft)) [0..<user_local_count ft])) (\<lambda>user_types.
       smapM (remap_all_vars (transform_local (local_types ft))) code
         (user_types, \<lambda>i. if i < user_local_count ft then Some i else None))"

record func_data =
  fd_code :: "Bytecode list"
  fd_local_types :: "MType list"
  fd_livevars :: "LiveVarAnnotation option"

definition livevar_process :: "bool \<Rightarrow> bool \<Rightarrow> bool \<Rightarrow> nat \<Rightarrow> nat \<Rightarrow> func_data \<Rightarrow> func_data outcome" where
  "livevar_process is_native annotate_data rename params user_locals data =
     (if is_native then Done data
      else
        let ft = \<lparr>local_types = fd_local_types data, parameter_count = params, user_local_count = user_locals\<rparr> in
        obind (analyze_and_transform ft (next_free_label_index (fd_code data)) (next_free_attr_index (fd_code data)) (fd_code data))
          (\<lambda>(code, annotations).
        let data = data\<lparr>fd_code := code\<rparr>;
            data = (if annotate_data then data\<lparr>fd_livevars := Some annotations\<rparr> else data)
        in
          if rename
          then obind (eliminate_unused_vars ft (fd_code data)) (\<lambda>(code, types, _).
            let data = data\<lparr>fd_local_types := types, fd_code := code\<rparr> in
            if annotate_data
            then omap (\<lambda>annotations. data\<lparr>fd_livevars := Some annotations\<rparr>) (livevar_analyze code)
            else Done data)
          else Done data))"

section \<open>The annotations\<close>

lemma lv_remove_fold:
  "fold (\<lambda>v (removed, s). if v \<in> s then (True, s - {v}) else (removed, s)) vars (c, state)
    = (c \<or> set vars \<inter> state \<noteq> {}, state - set vars)"
  by (induction vars arbitrary: c state) auto

lemma lv_remove_eq: "lv_remove vars state = (set vars \<inter> state \<noteq> {}, state - set vars)"
  by (simp add: lv_remove_def lv_remove_fold)

lemma lv_insert_eq: "lv_insert vars state = state \<union> set vars"
  unfolding lv_insert_def by (induction vars arbitrary: state) auto

lemma lv_join_eq: "lv_join = set_join"
  unfolding lv_join_def set_join_def by (intro ext arg_cong [where f = "\<lambda>f. fold f _ _"]) auto

lemma lv_execute_eq:
  "lv_execute A (BAssign a d s k) = (if d \<in> A then insert s (A - {d}) else A)"
  "lv_execute A (BLoad a d c) = A - {d}"
  "lv_execute A (BCall a ds oper ss aa) = A - set ds \<union> set ss"
  "lv_execute A (BRet a ss) = A \<union> set ss"
  "lv_execute A (BAbort a s) = insert s A"
  "lv_execute A (BBranch a l1 l2 s) = insert s A"
  by (auto simp: lv_remove_eq lv_insert_eq)

lemma lv_execute_bound: "A \<subseteq> {..<n} \<Longrightarrow> temps_of b \<subseteq> {..<n} \<Longrightarrow> lv_execute A b \<subseteq> {..<n}"
  by (cases b) (auto simp: lv_execute_eq temps_of_def simp del: lv_execute.simps(1-6) split: if_splits)

definition live_info :: "Bytecode list \<Rightarrow> (CodeOffset \<Rightarrow> TempIndex set) \<Rightarrow> CodeOffset \<Rightarrow> LiveVarInfoAtCodeOffset" where
  "live_info code A i = \<lparr>lv_before = lv_execute (A i) (code ! i), lv_after = A i\<rparr>"

lemma live_info_simps [simp]: "lv_before (live_info code A i) = lv_execute (A i) (code ! i)" "lv_after (live_info code A i) = A i"
  by (simp_all add: live_info_def)

text \<open>What is live after an instruction: the analysis is total; a local that is live before a
  successor is live, and only locals of the code are.\<close>

lemma livevar_states:
  assumes wb: "well_blocked code offs False"
  shows "\<exists>A. livevar_analyze code = Done (\<lambda>i. if i < length code then Some (live_info code A i) else None)
    \<and> (\<forall>i < length code. A i \<subseteq> {..<locals_bound code} \<and> (\<forall>j\<in>set (succs code offs i). lv_execute (A j) (code ! j) \<subseteq> A i))
    \<and> (\<forall>C \<subseteq> {..<locals_bound code}. (\<forall>b\<in>set code. \<forall>S\<subseteq>C. lv_execute S b \<subseteq> C) \<longrightarrow> (\<forall>i < length code. A i \<subseteq> C))"
proof -
  let ?n = "locals_bound code"
  have ex: "t_execute lv_transfer s i off \<subseteq> {..<?n}" if "s \<subseteq> {..<?n}" "i \<in> set code" for s i off
    using lv_execute_bound [OF that(1) temps_of_bound [OF that(2)]] by (simp add: lv_transfer_def)
  have T: "t_backward lv_transfer" "t_join lv_transfer = set_join" by (simp_all add: lv_transfer_def lv_join_eq)
  obtain cfg sm A where r: "new_backward code True = Done cfg" "analyze_function lv_transfer {} code cfg = Done sm"
    "state_per_instruction lv_transfer sm code cfg (\<lambda>before after. \<lparr>lv_before = before, lv_after = after\<rparr>)
      = Done (\<lambda>i. if i < length code then Some \<lparr>lv_before = exec_at lv_transfer code i (A i), lv_after = A i\<rparr> else None)"
    "\<forall>i < length code. A i \<subseteq> {..<?n} \<and> (\<forall>j\<in>set (succs code offs i). exec_at lv_transfer code j (A j) \<subseteq> A i)"
    "\<forall>c. bounded_sets.constant_bound ?n lv_transfer {} code c \<longrightarrow> (\<forall>i < length code. A i \<subseteq> c)"
    using bounded_sets.backward_states [OF wb T(1), where n = ?n and initial = "{}"
        and f = "\<lambda>before after. \<lparr>lv_before = before, lv_after = after\<rparr>", OF ex T(2)]
    by blast
  have e: "exec_at lv_transfer code i s = lv_execute s (code ! i)" for i s by (simp add: exec_at_def lv_transfer_def)
  have "livevar_analyze code = Done (\<lambda>i. if i < length code then Some (live_info code A i) else None)"
    using r(3) unfolding e live_info_def by (simp add: livevar_analyze_def r(1,2))
  moreover have "A i \<subseteq> C" if "C \<subseteq> {..<?n}" "\<forall>b\<in>set code. \<forall>S\<subseteq>C. lv_execute S b \<subseteq> C" "i < length code" for C i
  proof -
    have "bounded_sets.constant_bound ?n lv_transfer {} code C"
      using that(1,2) unfolding bounded_sets.constant_bound_def by (auto simp: lv_transfer_def)
    then show ?thesis using r(5) that(3) by blast
  qed
  ultimately show ?thesis using r(4) unfolding e by (intro exI [of _ A]) blast
qed

section \<open>Live locals determine a step\<close>

text \<open>The instructions that the analysis covers: no switch on a variant, and no proposition over
  temporaries.\<close>

fun live_covered :: "Bytecode \<Rightarrow> bool" where
  "live_covered (BVariantSwitch _ _ _) = False"
| "live_covered (BProp _ _ e) = (exp_temps e = {})"
| "live_covered _ = True"

fun alike :: "TempIndex set \<Rightarrow> ('v, 'm) result \<Rightarrow> ('v, 'm) result \<Rightarrow> bool" where
  "alike A (Running pc env mem) r = (\<exists>env'. r = Running pc env' mem \<and> (\<forall>x\<in>A. env x = env' x))"
| "alike A r r' = (r' = r)"

lemma alike_goto: "\<forall>x\<in>A. env x = env' x \<Longrightarrow> alike A (goto offs l env mem) (goto offs l env' mem)"
  by (simp add: goto_def split: option.split)

lemma write_no_locals [simp]: "write_locals {} upd env = env"
  by (simp add: write_locals_def)

lemma live_step:
  assumes b: "live_covered b" and live: "\<forall>x\<in>lv_execute A b. env x = env' x"
  shows "alike A (exec_instr M {} offs b pc env mem) (exec_instr M {} offs b pc env' mem)"
proof (cases b)
  case (BCall a ds oper ss aa)
  then have same: "map env ss = map env' ss" and rest: "\<forall>x\<in>A - set ds. env x = env' x"
    using live by (auto simp: lv_execute_eq simp del: lv_execute.simps(3))
  have "assign_all ds vs env x = assign_all ds vs env' x" if "x \<in> A" "length vs = length ds" for vs x
    using assign_all_cong [of vs ds x env env'] rest that by blast
  then show ?thesis by (simp add: BCall exec_call_def same del: map_eq_conv split: sum.split)
next
  case (BProp a k e)
  have "exp_val (m_interp M mem) env le e = exp_val (m_interp M mem) env' le e" for le
    by (rule exp_val_temps(1)) (use b BProp in simp)
  then show ?thesis using live BProp by (simp add: Let_def)
qed (use assms in \<open>auto simp: lv_execute_eq alike_goto simp del: lv_execute.simps(1-6) split: if_splits\<close>)

section \<open>The new code of functions without references\<close>

definition lv_merges :: "Bytecode list \<Rightarrow> (CodeOffset \<Rightarrow> TempIndex set) \<Rightarrow> CodeOffset \<Rightarrow> bool" where
  "lv_merges code A i \<longleftrightarrow> i + 1 < length code \<and> (case code ! i of
     BCall a ds oper ss aa \<Rightarrow> length ds = 1 \<and> oper \<noteq> OpBorrowLoc \<and> (\<nexists>m d tys. oper = OpBorrowGlobal m d tys)
       \<and> (case code ! (i + 1) of BAssign _ dest src _ \<Rightarrow> src = ds ! 0 \<and> src \<notin> A (i + 1) | _ \<Rightarrow> False)
   | _ \<Rightarrow> False)"

definition lv_dead :: "Bytecode list \<Rightarrow> (CodeOffset \<Rightarrow> TempIndex set) \<Rightarrow> CodeOffset \<Rightarrow> bool" where
  "lv_dead code A i \<longleftrightarrow> (case code ! i of BLoad _ d _ \<Rightarrow> d \<notin> A i | BAssign _ d _ _ \<Rightarrow> d \<notin> A i | _ \<Rightarrow> False)"

fun set_dest :: "Bytecode \<Rightarrow> Bytecode \<Rightarrow> Bytecode" where
  "set_dest (BCall a ds oper ss aa) (BAssign _ dest _ _) = BCall a [dest] oper ss aa"
| "set_dest b _ = b"

definition lv_skipped :: "Bytecode list \<Rightarrow> (CodeOffset \<Rightarrow> TempIndex set) \<Rightarrow> CodeOffset \<Rightarrow> bool" where
  "lv_skipped code A i \<longleftrightarrow> i > 0 \<and> lv_merges code A (i - 1)"

definition lv_out :: "Bytecode list \<Rightarrow> (CodeOffset \<Rightarrow> TempIndex set) \<Rightarrow> CodeOffset \<Rightarrow> Bytecode list" where
  "lv_out code A i =
     (if lv_skipped code A i \<or> lv_dead code A i then []
      else if lv_merges code A i then [set_dest (code ! i) (code ! (i + 1))] else [code ! i])"

lemma lv_mergesE:
  assumes "lv_merges code A i"
  obtains a t oper ss aa a' d k where "code ! i = BCall a [t] oper ss aa" "code ! (i + 1) = BAssign a' d t k" "t \<notin> A (i + 1)"
    "i + 1 < length code"
proof -
  obtain a ds oper ss aa where c: "code ! i = BCall a ds oper ss aa" "length ds = 1" "i + 1 < length code"
    using assms by (cases "code ! i") (auto simp: lv_merges_def)
  then obtain t where "ds = [t]" by (auto simp: length_Suc_conv)
  then show ?thesis using assms c that by (cases "code ! (i + 1)") (auto simp: lv_merges_def)
qed

lemma skipped_not_merges: "lv_skipped code A i \<Longrightarrow> \<not> lv_merges code A i"
  by (auto simp: lv_skipped_def elim!: lv_mergesE)

lemma dead_not_merges: "lv_dead code A i \<Longrightarrow> \<not> lv_merges code A i"
  by (auto simp: lv_dead_def elim!: lv_mergesE)

lemma skipped_Suc: "lv_skipped code A (Suc i) \<longleftrightarrow> lv_merges code A i"
  by (simp add: lv_skipped_def)

definition no_refs :: "MType list \<Rightarrow> Bytecode list \<Rightarrow> bool" where
  "no_refs types code \<longleftrightarrow> locals_bound code \<le> length types \<and> (\<forall>ty\<in>set types. \<not> is_reference ty)"

lemma no_refs_type: "no_refs types code \<Longrightarrow> x < locals_bound code \<Longrightarrow> \<exists>ty. get_local_type types x = Done ty \<and> \<not> is_reference ty"
  by (auto simp: no_refs_def get_local_type_def index_at_def)

lemma lost_none:
  assumes types: "no_refs types code" and S: "S \<subseteq> {..<locals_bound code}"
  shows "ofold (lost_ref types annotations dest) (sorted_list_of_set S) [] = Done []"
proof -
  have "finite S" using S finite_subset by blast
  then have "\<forall>x\<in>set (sorted_list_of_set S). x < locals_bound code" using S by auto
  moreover have "ofold (lost_ref types annotations dest) xs [] = Done []" if "\<forall>x\<in>set xs. x < locals_bound code" for xs
    using that by (induction xs) (use no_refs_type [OF types] in \<open>fastforce simp: lost_ref_def\<close>)+
  ultimately show ?thesis by blast
qed

lemma destroy_nothing:
  assumes types: "no_refs types code" and A: "A i \<subseteq> {..<locals_bound code}" "i < length code" and l: "l \<in> dom offs"
  shows "destroy_along_edge types (\<lambda>i. if i < length code then Some (live_info code A i) else None) offs i l = sret (l, [])"
proof -
  obtain q where "offs l = Some q" using l by blast
  then show ?thesis
    using A lost_none [OF types A(1)]
    by (simp add: destroy_along_edge_def lost_refs_along_edge_def create_block_to_destroy_refs_def slift_def sbind_def sret_def)
qed

lemma slift_Done [simp]: "slift (Done x) = sret x"
  by (simp add: slift_def sret_def)

lemma transform_instr_out:
  assumes types: "no_refs types code" and A: "A i \<subseteq> {..<locals_bound code}" and i: "i < length code"
    and ok: "targets_defined code offs" "live_covered (code ! i)" and s: "\<not> lv_skipped code A i"
  shows "transform_instr types (\<lambda>i. if i < length code then Some (live_info code A i) else None) offs code i
    = sret (lv_out code A i, lv_merges code A i)"
proof -
  let ?ann = "\<lambda>i. if i < length code then Some (live_info code A i) else None"
  have at: "at ?ann j = Done (live_info code A j)" if "j < length code" for j using that by simp
  have dest: "set (branch_dests (code ! i)) \<subseteq> dom offs" using ok(1) i by (simp add: targets_defined_def)
  show ?thesis
  proof (cases "code ! i")
    case (BLoad a d c)
    then show ?thesis using s unfolding transform_instr_def at [OF i] by (simp add: lv_out_def lv_dead_def lv_merges_def)
  next
    case (BAssign a d x k)
    then show ?thesis using s unfolding transform_instr_def at [OF i] by (simp add: lv_out_def lv_dead_def lv_merges_def)
  next
    case (BCall a ds oper ss aa)
    let ?c = "i + 1 < length code \<and> length ds = 1 \<and> oper \<noteq> OpBorrowLoc \<and> (\<nexists>m d tys. oper = OpBorrowGlobal m d tys)"
    have dead: "\<not> lv_dead code A i" by (simp add: lv_dead_def BCall)
    have eq: "transform_instr types ?ann offs code i = (if ?c
        then slift (merged_call (BCall a ds oper ss aa) (code ! (i + 1)) (at ?ann (i + 1)))
        else sret ([BCall a ds oper ss aa], False))"
      unfolding transform_instr_def at [OF i] by (simp add: BCall)
    show ?thesis
    proof (cases ?c)
      case True
      then have at1: "at ?ann (i + 1) = Done (live_info code A (i + 1))" using at by blast
      show ?thesis
      proof (cases "lv_merges code A i")
        case m: True
        then show ?thesis unfolding eq at1 using True s dead BCall
          by (auto simp: lv_out_def elim!: lv_mergesE)
      next
        case m: False
        then have "merged_call (BCall a ds oper ss aa) (code ! (i + 1)) (Done (live_info code A (i + 1))) = Done ([BCall a ds oper ss aa], False)"
          using True BCall by (cases "code ! (i + 1)") (auto simp: lv_merges_def)
        then show ?thesis unfolding eq at1 using True s dead BCall m by (simp add: lv_out_def)
      qed
    next
      case False
      then have "\<not> lv_merges code A i" using BCall by (auto simp: lv_merges_def)
      then show ?thesis unfolding eq using False s dead BCall by (auto simp: lv_out_def)
    qed
  next
    case (BBranch a l1 l2 x)
    then have "destroy_along_edge types ?ann offs i l = sret (l, [])" if "l \<in> {l1, l2}" for l
      using destroy_nothing [where A = A, OF types A i] dest that BBranch by auto
    then show ?thesis using s BBranch unfolding transform_instr_def at [OF i] by (simp add: lv_out_def lv_dead_def lv_merges_def)
  qed (use s ok(2) in \<open>simp_all add: transform_instr_def at i lv_out_def lv_dead_def lv_merges_def\<close>)
qed

lemma transform_loop:
  assumes types: "no_refs types code" and A: "\<forall>i < length code. A i \<subseteq> {..<locals_bound code}"
    and ok: "targets_defined code offs" "\<forall>b\<in>set code. live_covered b" and k: "k \<le> length code"
  shows "ofold (transform_step types (\<lambda>i. if i < length code then Some (live_info code A i) else None) offs code)
      [0..<k] (([], False), ids) = Done ((pieces (lv_out code A) k, lv_skipped code A k), ids)"
  using k
proof (induction k)
  case 0
  then show ?case by (simp add: lv_skipped_def)
next
  case (Suc k)
  let ?ann = "\<lambda>i. if i < length code then Some (live_info code A i) else None"
  have IH: "ofold (transform_step types ?ann offs code) [0..<k] (([], False), ids) = Done ((pieces (lv_out code A) k, lv_skipped code A k), ids)"
    using Suc by simp
  have "transform_step types ?ann offs code k ((pieces (lv_out code A) k, lv_skipped code A k), ids)
      = Done ((pieces (lv_out code A) (Suc k), lv_skipped code A (Suc k)), ids)"
  proof (cases "lv_skipped code A k")
    case True
    then show ?thesis using skipped_not_merges [OF True] by (simp add: transform_step_def lv_out_def skipped_Suc)
  next
    case False
    have "transform_instr types ?ann offs code k = sret (lv_out code A k, lv_merges code A k)"
      using transform_instr_out [where A = A, OF types _ _ ok(1) _ False] A ok(2) Suc.prems by simp
    then show ?thesis using False by (simp add: transform_step_def sret_apply skipped_Suc)
  qed
  then show ?case using IH by (simp add: ofold_append)
qed

lemma transform_code_pieces:
  assumes types: "no_refs (local_types ft) code" and A: "\<forall>i < length code. A i \<subseteq> {..<locals_bound code}"
    and ok: "targets_defined code offs" "\<forall>b\<in>set code. live_covered b" "code \<noteq> []"
  shows "transform_code ft (\<lambda>i. if i < length code then Some (live_info code A i) else None) code ids
    = Done (pieces (lv_out code A) (length code), ids)"
proof -
  let ?ann = "\<lambda>i. if i < length code then Some (live_info code A i) else None"
  let ?B = "lv_execute (A 0) (code ! 0)"
  have c0: "code ! 0 \<in> set code" using ok(3) by simp
  have B: "?B \<subseteq> {..<locals_bound code}"
    using lv_execute_bound [OF _ temps_of_bound [OF c0]] A ok(3) by simp
  have "finite ?B" using B finite_subset by blast
  then have "\<forall>x\<in>set (sorted_list_of_set ?B). x < locals_bound code" using B by auto
  moreover have "ofold (\<lambda>index (out, ids).
       if index \<ge> parameter_count ft
       then obind (get_local_type (local_types ft) index) (\<lambda>ty.
         if is_mutable_reference ty
         then omap (\<lambda>(a, ids). (out @ [BCall a [] OpUninit [index] None], ids)) (new_attr_id ids)
         else Done (out, ids))
       else Done (out, ids)) xs ([], ids) = Done ([], ids)" if "\<forall>x\<in>set xs. x < locals_bound code" for xs ids
    using that
  proof (induction xs)
    case (Cons x xs)
    obtain ty where "get_local_type (local_types ft) x = Done ty" "\<not> is_reference ty"
      using no_refs_type [OF types, of x] Cons.prems by auto
    moreover from this have "\<not> is_mutable_reference ty" by (cases ty) auto
    ultimately show ?case using Cons by simp
  qed simp
  ultimately have "uninit_marks ft ?ann ids = Done ([], ids)" using ok(3) by (simp add: uninit_marks_def)
  moreover have "label_offsets code = Done offs" using ok(1) by (simp add: targets_defined_def)
  ultimately show ?thesis using transform_loop [where A = A, OF types A ok(1,2) order_refl, of ids] by (simp add: transform_code_def)
qed

section \<open>The new code runs like the old\<close>

lemma lv_out_labels:
  assumes "i < length code"
  shows "if not_label (code ! i) then (\<forall>b\<in>set (lv_out code A i). not_label b) else lv_out code A i = [code ! i]"
proof (cases "not_label (code ! i)")
  case True
  then have "not_label (set_dest (code ! i) b)" for b by (cases "code ! i"; cases b) (auto simp: not_label_def)
  then show ?thesis using True by (simp add: lv_out_def)
next
  case False
  then obtain a l where "code ! i = BLabel a l" by (auto simp: not_label_def)
  moreover from this have "\<not> lv_skipped code A i" "\<not> lv_merges code A i"
    by (auto simp: lv_skipped_def elim!: lv_mergesE)
  ultimately show ?thesis using False by (simp add: lv_out_def lv_dead_def)
qed

text \<open>The configurations of the old and the new code.\<close>

definition lv_related :: "Bytecode list \<Rightarrow> (CodeOffset \<Rightarrow> TempIndex set) \<Rightarrow> ('v, 'm) result \<Rightarrow> ('v, 'm) result \<Rightarrow> bool" where
  "lv_related code A c c' = (case c of
     Running pc env mem \<Rightarrow> pc \<le> length code \<and> \<not> lv_skipped code A pc
       \<and> (\<exists>env'. c' = Running (piece_pos (lv_out code A) pc) env' mem
            \<and> (pc < length code \<longrightarrow> (\<forall>x\<in>lv_execute (A pc) (code ! pc). env x = env' x)))
   | _ \<Rightarrow> c' = c)"

lemma lv_related_stopped: "\<not> is_running c \<Longrightarrow> lv_related code A c c"
  by (cases c) (simp_all add: lv_related_def)

fun steps_left :: "nat \<Rightarrow> ('v, 'm) result \<Rightarrow> nat" where
  "steps_left n (Running pc _ _) = Suc n - pc"
| "steps_left n _ = 0"

lemma not_skipped_after: "\<not> lv_merges code A pc \<Longrightarrow> \<not> lv_skipped code A (pc + 1)"
  by (simp add: lv_skipped_def)

lemma label_not_skipped:
  assumes "targets_defined code offs" "offs l = Some q"
  shows "q < length code \<and> \<not> lv_skipped code A q"
proof -
  have "is_label code q l" using assms label_offsets_Done by (auto simp: targets_defined_def)
  then obtain a where "q < length code" "code ! q = BLabel a l" by (auto simp: is_label_def)
  then show ?thesis by (auto simp: lv_skipped_def elim!: lv_mergesE)
qed

lemma lv_simulation:
  assumes ok: "targets_defined code offs" "\<forall>b\<in>set code. live_covered b"
    and A: "\<And>i j. i < length code \<Longrightarrow> j \<in> set (succs code offs i) \<Longrightarrow> lv_execute (A j) (code ! j) \<subseteq> A i"
    and new: "code' = pieces (lv_out code A) (length code)" "offs' = (\<lambda>l. map_option (piece_pos (lv_out code A)) (offs l))"
    and R: "lv_related code A (Running pc env mem) c'"
  shows "(\<exists>k. lv_related code A (run M {} code offs (Suc k) (Running pc env mem)) (step M {} code' offs' c'))
    \<or> (lv_related code A (step M {} code offs (Running pc env mem)) c'
       \<and> steps_left (length code) (step M {} code offs (Running pc env mem)) < steps_left (length code) (Running pc env mem))"
proof -
  let ?out = "lv_out code A" and ?pos = "piece_pos (lv_out code A)"
  obtain env' where c': "c' = Running (?pos pc) env' mem" and pc: "pc \<le> length code" "\<not> lv_skipped code A pc"
    and live: "pc < length code \<Longrightarrow> \<forall>x\<in>lv_execute (A pc) (code ! pc). env x = env' x"
    using R by (auto simp: lv_related_def)
  show ?thesis
  proof (cases "pc < length code")
    case False
    then have "pc = length code" using pc(1) by simp
    then have "?pos pc = length code'" by (simp add: new(1) piece_pos_def)
    then show ?thesis using False c' by (intro disjI1 exI [of _ 0]) (simp add: lv_related_def)
  next
    case len: True
    note live = live [OF len]
    let ?b = "code ! pc"
    have cov: "live_covered ?b" using ok(2) len by simp
    have after: "\<forall>x\<in>lv_execute (A q) (code ! q). e1 x = e2 x"
      if "\<forall>x\<in>A i. e1 x = e2 x" "q \<in> set (succs code offs i)" "i < length code" for i q and e1 e2 :: "nat \<Rightarrow> 'a"
      using A [OF that(3,2)] that(1) by blast
    show ?thesis
    proof (cases "lv_dead code A pc")
      case True
      then obtain d where d: "d \<notin> A pc" "\<exists>v. step M {} code offs (Running pc env mem) = Running (pc + 1) (env(d := v)) mem"
        "lv_execute (A pc) ?b = A pc" "\<not> is_branch ?b"
        using len by (cases ?b) (auto simp: lv_dead_def lv_execute_eq is_branch_def simp del: lv_execute.simps(1-6))
      then obtain v where v: "step M {} code offs (Running pc env mem) = Running (pc + 1) (env(d := v)) mem" by blast
      have "\<forall>x\<in>A pc. (env(d := v)) x = env' x" using live d(1,3) by auto
      moreover have "pc + 1 < length code \<Longrightarrow> pc + 1 \<in> set (succs code offs pc)" using d(4) by (simp add: succs_def)
      ultimately have "pc + 1 < length code \<Longrightarrow> \<forall>x\<in>lv_execute (A (pc + 1)) (code ! (pc + 1)). (env(d := v)) x = env' x"
        using after [of pc "env(d := v)" env' "pc + 1"] len by blast
      moreover have "?out pc = []" using True by (simp add: lv_out_def)
      ultimately have "lv_related code A (Running (pc + 1) (env(d := v)) mem) c'"
        using len c' not_skipped_after [OF dead_not_merges [OF True]] by (simp add: lv_related_def)
      then show ?thesis using v pc(1) by (intro disjI2) (simp add: Suc_diff_le)
    next
      case alive: False
      have first: "?out pc \<noteq> []" using pc(2) alive by (simp add: lv_out_def)
      have at: "?pos pc < length code'" "code' ! ?pos pc = ?out pc ! 0"
        using piece_at [OF len, of 0 ?out] first new(1) by simp_all
      have step': "step M {} code' offs' c' = exec_instr M {} offs' (?out pc ! 0) (?pos pc) env' mem"
        using at c' by simp
      show ?thesis
      proof (cases "lv_merges code A pc")
        case m: True
        then obtain a t oper ss aa a' d k where b: "?b = BCall a [t] oper ss aa" "code ! (pc + 1) = BAssign a' d t k"
          "t \<notin> A (pc + 1)" "pc + 1 < length code" by (rule lv_mergesE)
        have out: "?out pc = [BCall a [d] oper ss aa]" using m alive pc(2) b by (simp add: lv_out_def)
        have skip: "?out (Suc pc) = []" using m by (simp add: lv_out_def skipped_Suc)
        have pos2: "?pos (pc + 2) = ?pos pc + 1" using out skip by (simp add: numeral_2_eq_2)
        have same: "map env ss = map env' ss" and rest: "\<forall>x\<in>A pc - {t}. env x = env' x"
          using live b(1) by (auto simp: lv_execute_eq simp del: lv_execute.simps(3))
        have no_merge: "\<not> lv_merges code A (pc + 1)" using skipped_not_merges [of code A "Suc pc"] m by (simp add: skipped_Suc)
        show ?thesis
        proof (intro disjI1 exI [of _ 1])
          show "lv_related code A (run M {} code offs (Suc 1) (Running pc env mem)) (step M {} code' offs' c')"
          proof (cases "\<exists>v upd mem'. oper \<noteq> OpStop \<and> m_op M oper (op_locs oper ss) (map env' ss) ((Some \<circ> env') |` {}) mem = Inr ([v], upd, mem')")
            case True
            then obtain v upd mem' where r: "oper \<noteq> OpStop" "m_op M oper (op_locs oper ss) (map env' ss) (\<lambda>_. None) mem = Inr ([v], upd, mem')"
              by auto
            have new_step: "step M {} code' offs' c' = Running (?pos pc + 1) (env'(d := v)) mem'"
              unfolding step' out using r by (simp add: exec_call_def)
            have old_step: "run M {} code offs (Suc 1) (Running pc env mem) = Running (pc + 2) (env(t := v, d := v)) mem'"
              using len b(1,2,4) r(1) r(2) [folded same] by (simp add: exec_call_def)
            have agree: "(env(t := v, d := v)) x = (env'(d := v)) x"
              if x: "x \<in> A (pc + 1)" for x
            proof (cases "x = d")
              case False
              have "pc + 1 \<in> set (succs code offs pc)" using b(1,4) r(1) by (simp add: succs_def is_branch_def)
              then have "lv_execute (A (pc + 1)) (code ! (pc + 1)) \<subseteq> A pc" using A len by blast
              then have "x \<in> A pc" using x False b(2) by (auto simp: lv_execute_eq simp del: lv_execute.simps(1) split: if_splits)
              moreover have "x \<noteq> t" using x b(3) by blast
              ultimately show ?thesis using rest False by simp
            qed simp
            have "pc + 2 \<in> set (succs code offs (pc + 1))" if "pc + 2 < length code" using b(2) that by (simp add: succs_def is_branch_def)
            then have "\<forall>x\<in>lv_execute (A (pc + 2)) (code ! (pc + 2)). (env(t := v, d := v)) x = (env'(d := v)) x" if "pc + 2 < length code"
              using after [of "pc + 1" "env(t := v, d := v)" "env'(d := v)" "pc + 2"] agree b(4) that by blast
            moreover have "\<not> lv_skipped code A (pc + 2)" using not_skipped_after [OF no_merge] by simp
            ultimately show ?thesis unfolding new_step old_step lv_related_def using b(4) pos2 by simp
          next
            case False
            have eq: "exec_call M {} [t] oper ss pc env mem = exec_call M {} [d] oper ss (?pos pc) env' mem
               \<and> \<not> is_running (exec_call M {} [t] oper ss pc env mem)"
              using False by (auto simp: exec_call_def same length_Suc_conv simp del: map_eq_conv split: sum.split)
            then have "run M {} code offs (Suc 1) (Running pc env mem) = exec_call M {} [t] oper ss pc env mem"
              using len b(1) step_stopped [OF conjunct2 [OF eq]] by simp
            moreover have "step M {} code' offs' c' = exec_call M {} [t] oper ss pc env mem"
              unfolding step' out using eq by simp
            ultimately show ?thesis using lv_related_stopped [OF conjunct2 [OF eq]] by metis
          qed
        qed
      next
        case m: False
        have out: "?out pc = [?b]" using m alive pc(2) by (simp add: lv_out_def)
        have new_step: "step M {} code' offs' c' = move ?pos (exec_instr M {} offs ?b pc env' mem)"
          using exec_instr_move [of ?pos pc M "{}" offs ?b env' mem] unfolding step' unfolding new(2) by (simp add: out)
        have old_step: "step M {} code offs (Running pc env mem) = exec_instr M {} offs ?b pc env mem" using len by simp
        have alike: "alike (A pc) (exec_instr M {} offs ?b pc env mem) (exec_instr M {} offs ?b pc env' mem)"
          by (rule live_step [OF cov live])
        have "lv_related code A (step M {} code offs (Running pc env mem)) (step M {} code' offs' c')"
        proof (cases "exec_instr M {} offs ?b pc env mem")
          case (Running q e mem')
          then obtain e' where e': "exec_instr M {} offs ?b pc env' mem = Running q e' mem'" "\<forall>x\<in>A pc. e x = e' x"
            using alike by auto
          have q: "q \<le> length code \<and> \<not> lv_skipped code A q"
            using exec_instr_pc [OF Running] label_not_skipped [OF ok(1), of _ q A] not_skipped_after [OF m] len by fastforce
          have "\<forall>x\<in>lv_execute (A q) (code ! q). e x = e' x" if "q < length code"
            using after [OF e'(2) exec_instr_succs [OF ok(1) len Running that] len] .
          then show ?thesis unfolding old_step new_step using Running e'(1) q by (simp add: lv_related_def)
        qed (use alike len in \<open>simp_all add: old_step new_step lv_related_def\<close>)
        then show ?thesis by (intro disjI1 exI [of _ 0]) simp
      qed
    qed
  qed
qed

lemma pieces_shorter: "length (pieces (lv_out code A) k) \<le> k"
proof (induction k)
  case (Suc k)
  have "length (lv_out code A k) \<le> 1" by (simp add: lv_out_def)
  then show ?case using Suc by simp
qed simp

section \<open>Properties\<close>



section \<open>A switch that loses its load\<close>

definition switch_code :: "Bytecode list" where
  "switch_code = [BLoad 0 0 (KBool True), BVariantSwitch 0 0 [1], BLabel 0 1, BRet 0 []]"

lemma switch_well_blocked: "well_blocked switch_code [1 \<mapsto> 2] False"
proof -
  have offs: "label_offsets switch_code = Done [1 \<mapsto> 2]"
    by (simp add: switch_code_def label_offsets_def enumerate_eq_zip numeral_2_eq_2)
  have "pc = 1" if "pc + 1 < length switch_code \<and> is_branch (switch_code ! pc)" for pc
    using that by (auto simp: switch_code_def is_branch_def nth_Cons' split: if_splits)
  moreover have "2 \<in> leaders switch_code [1 \<mapsto> 2] False"
  proof -
    have "2 = the ([1 \<mapsto> 2 :: nat] (1 :: Label))" "BVariantSwitch 0 0 [1] \<in> set switch_code" "1 \<in> set (branch_dests (BVariantSwitch 0 0 [1]))"
      by (simp_all add: switch_code_def)
    then show ?thesis unfolding leaders_def by blast
  qed
  ultimately have "\<forall>pc. pc + 1 < length switch_code \<and> is_branch (switch_code ! pc) \<longrightarrow> pc + 1 \<in> leaders switch_code [1 \<mapsto> 2] False"
    by (metis one_add_one)
  then show ?thesis
    unfolding well_blocked_def targets_defined_def offs by (auto simp: switch_code_def is_branch_def)
qed

lemma switch_transformed:
  "\<exists>annotations. analyze_and_transform \<lparr>local_types = [MPrimitive PU64], parameter_count = 0, user_local_count = 1\<rparr> 1 1 switch_code
     = Done ([BVariantSwitch 0 0 [1], BLabel 0 1, BRet 0 []], annotations)"
proof -
  let ?types = "[MPrimitive PU64]"
  obtain A where A: "livevar_analyze switch_code = Done (\<lambda>i. if i < length switch_code then Some (live_info switch_code A i) else None)"
    "\<forall>C \<subseteq> {..<locals_bound switch_code}. (\<forall>b\<in>set switch_code. \<forall>S\<subseteq>C. lv_execute S b \<subseteq> C) \<longrightarrow> (\<forall>i < length switch_code. A i \<subseteq> C)"
    using livevar_states [OF switch_well_blocked] by blast
  have "\<forall>b\<in>set switch_code. \<forall>S\<subseteq>{}. lv_execute S b \<subseteq> {}" by (simp add: switch_code_def lv_execute_eq del: lv_execute.simps(1-6))
  then have empty: "A i = {}" if "i < length switch_code" for i using A(2) that by blast
  let ?ann = "\<lambda>i. if i < length switch_code then Some (live_info switch_code A i) else None"
  have offs: "label_offsets switch_code = Done [1 \<mapsto> 2]" using switch_well_blocked by (simp add: well_blocked_def targets_defined_def)
  have len: "length switch_code = 4" by (simp add: switch_code_def)
  have info: "?ann i = Some (live_info switch_code A i)" if "i < 4" for i using that len by simp
  have 0: "transform_instr ?types ?ann [1 \<mapsto> 2] switch_code 0 = sret ([], False)"
    unfolding transform_instr_def at.simps info [of 0, simplified] using empty [of 0] len by (simp add: switch_code_def)
  have "destroy_along_edge ?types ?ann [1 \<mapsto> 2] 1 1 = sret (1, [])"
    by (rule destroy_nothing) (use empty [of 1] len in \<open>simp_all add: switch_code_def no_refs_def locals_bound_def temps_of_def\<close>)
  then have 1: "transform_instr ?types ?ann [1 \<mapsto> 2] switch_code 1 = sret ([BVariantSwitch 0 0 [1]], False)"
    unfolding transform_instr_def at.simps info [of 1, simplified] by (simp add: switch_code_def)
  have 2: "transform_instr ?types ?ann [1 \<mapsto> 2] switch_code 2 = sret ([BLabel 0 1], False)"
    unfolding transform_instr_def at.simps info [of 2, simplified] by (simp add: switch_code_def)
  have 3: "transform_instr ?types ?ann [1 \<mapsto> 2] switch_code 3 = sret ([BRet 0 []], False)"
    unfolding transform_instr_def at.simps info [of 3, simplified] by (simp add: switch_code_def)
  have "[0..<length switch_code] = [0, 1, 2, 3]" by (simp add: len upt_conv_Cons)
  then have "ofold (transform_step ?types ?ann [1 \<mapsto> 2] switch_code) [0..<length switch_code] (([], False), ids)
      = Done (([BVariantSwitch 0 0 [1], BLabel 0 1, BRet 0 []], False), ids)" for ids
    by (simp only:) (simp add: transform_step_def 0 1 2 3 sret_apply del: One_nat_def)
  moreover have "lv_before (live_info switch_code A 0) = {}"
    using empty [of 0] by (simp add: switch_code_def lv_execute_eq del: lv_execute.simps(1-6))
  then have "uninit_marks ft ?ann ids = Done ([], ids)" for ft ids
    using len unfolding uninit_marks_def info [of 0, simplified] by (simp add: sret_apply)
  ultimately show ?thesis using A(1) by (simp add: analyze_and_transform_def transform_code_def offs)
qed


end
