(* ===== verification/BytecodeCfg.thy ===== *)
theory BytecodeCfg
  imports BytecodeSem
begin

text \<open>
  The first phase of control flow reconstruction
  (\<open>stackless-to-intermediate/src/control_flow_reconstruction/bytecode_cfg.rs\<close>): one walk over
  the bytecode cuts it into blocks with terminators, gives a branch whose arm goes back a block
  of its own for that arm, and records loops.  Blocks are numbered in the order they are found;
  synthetic labels count down from the largest word of 16 bits.

  On code whose jumps go forward the blocks are shown to run like the bytecode.
\<close>

section \<open>Blocks and loops\<close>

record LoopInfo =
  li_header :: nat
  li_backedges :: "nat list"
  li_exit :: "Label option"

datatype Terminator =
    TBranch TempIndex bool Label Label
  | TSwitch TempIndex "Label list"
  | TReturn "TempIndex list"
  | TAbort "TempIndex option"
  | TFallthrough
  | TContinue nat
  | TJump Label

record BlockCfg =
  bc_start :: nat
  bc_end :: nat
  bc_term :: Terminator

definition block_new :: "nat \<Rightarrow> nat \<Rightarrow> Terminator \<Rightarrow> BlockCfg" where
  "block_new s e t = \<lparr>bc_start = s, bc_end = e, bc_term = t\<rparr>"

definition block_synthetic :: "nat \<Rightarrow> Terminator \<Rightarrow> BlockCfg" where
  "block_synthetic pc t = \<lparr>bc_start = pc, bc_end = pc, bc_term = t\<rparr>"

record BytecodeCFG =
  cf_blocks :: "BlockCfg list"
  cf_labels :: "Label \<rightharpoonup> nat"
  cf_loops :: "LoopInfo list"
  cf_successors :: "nat list list"

section \<open>Discovery\<close>

text \<open>The state of the walk.\<close>

record discovery =
  ds_blocks :: "BlockCfg list"
  ds_labels :: "Label \<rightharpoonup> nat"
  ds_loops :: "LoopInfo list"
  ds_start :: nat
  ds_synthetic :: Label

text \<open>A back edge is added to the first loop with its header, or starts a loop.  The branch form
  also sets the exit.\<close>

fun add_backedge :: "nat \<Rightarrow> nat \<Rightarrow> Label option \<Rightarrow> LoopInfo list \<Rightarrow> LoopInfo list" where
  "add_backedge header block exit [] = [\<lparr>li_header = header, li_backedges = [block], li_exit = exit\<rparr>]"
| "add_backedge header block exit (info # loops) =
     (if li_header info = header
      then info\<lparr>li_backedges := li_backedges info @ [block],
                li_exit := (case exit of None \<Rightarrow> li_exit info | Some l \<Rightarrow> Some l)\<rparr> # loops
      else info # add_backedge header block exit loops)"

definition is_backward :: "(Label \<rightharpoonup> nat) \<Rightarrow> Label \<Rightarrow> nat \<Rightarrow> bool" where
  "is_backward labels l current_block = (case labels l of Some b \<Rightarrow> b \<le> current_block | None \<Rightarrow> False)"

definition push_block :: "nat \<Rightarrow> Terminator \<Rightarrow> discovery \<Rightarrow> discovery" where
  "push_block pc t st = st\<lparr>ds_blocks := ds_blocks st @ [block_new (ds_start st) pc t], ds_start := pc + 1\<rparr>"

definition discover_branch :: "nat \<Rightarrow> Label \<Rightarrow> Label \<Rightarrow> TempIndex \<Rightarrow> discovery \<Rightarrow> discovery" where
  "discover_branch pc then_label else_label cond_temp st =
     (let current_block = length (ds_blocks st);
          then_is_backward = is_backward (ds_labels st) then_label current_block;
          else_is_backward = is_backward (ds_labels st) else_label current_block
      in
        if then_is_backward \<or> else_is_backward then
          let loop_block_idx = current_block + 1;
              (loop_header, exit_label, negate_cond) =
                (if then_is_backward then (the (ds_labels st then_label), else_label, True)
                 else (the (ds_labels st else_label), then_label, False));
              synthetic_label = ds_synthetic st
          in st\<lparr>ds_loops := add_backedge loop_header loop_block_idx (Some exit_label) (ds_loops st),
                ds_synthetic := synthetic_label - 1,
                ds_labels := (ds_labels st)(synthetic_label \<mapsto> loop_block_idx),
                ds_blocks := ds_blocks st @ [block_new (ds_start st) pc (TBranch cond_temp negate_cond exit_label synthetic_label),
                  block_synthetic pc (TContinue loop_header)],
                ds_start := pc + 1\<rparr>
        else push_block pc (TBranch cond_temp False then_label else_label) st)"

definition discover_jump :: "nat \<Rightarrow> Label \<Rightarrow> discovery \<Rightarrow> discovery" where
  "discover_jump pc label st = (case ds_labels st label of
     Some target_block \<Rightarrow>
       push_block pc (TContinue target_block)
         (st\<lparr>ds_loops := add_backedge target_block (length (ds_blocks st)) None (ds_loops st)\<rparr>)
   | None \<Rightarrow> push_block pc (TJump label) st)"

fun discover_step :: "nat \<times> Bytecode \<Rightarrow> discovery \<Rightarrow> discovery" where
  "discover_step (pc, BLabel _ label) st =
     (let st = push_block pc TFallthrough st in st\<lparr>ds_labels := (ds_labels st)(label \<mapsto> length (ds_blocks st))\<rparr>)"
| "discover_step (pc, BBranch _ then_label else_label cond_temp) st = discover_branch pc then_label else_label cond_temp st"
| "discover_step (pc, BJump _ label) st = discover_jump pc label st"
| "discover_step (pc, BVariantSwitch _ scrutinee_temp labels) st = push_block pc (TSwitch scrutinee_temp labels) st"
| "discover_step (pc, BRet _ temps) st = push_block pc (TReturn temps) st"
| "discover_step (pc, BAbort _ code_temp) st = push_block pc (TAbort (Some code_temp)) st"
| "discover_step (pc, _) st = st"

fun is_return_term :: "Terminator \<Rightarrow> bool" where
  "is_return_term (TReturn _) = True"
| "is_return_term _ = False"

definition close_tail :: "nat \<Rightarrow> discovery \<Rightarrow> BlockCfg list" where
  "close_tail n st = (if ds_blocks st \<noteq> [] \<and> is_return_term (bc_term (last (ds_blocks st))) then ds_blocks st
     else ds_blocks st @ [block_new (ds_start st) n (TReturn [])])"

text \<open>The exit of a loop without one: the first branch inside the range of the loop with one arm
  inside and one outside.\<close>

definition exit_of_branch :: "(Label \<rightharpoonup> nat) \<Rightarrow> nat \<Rightarrow> nat \<Rightarrow> Terminator \<Rightarrow> Label option" where
  "exit_of_branch labels h b term = (case term of
     TBranch _ _ then_label else_label \<Rightarrow>
       let in_loop = (\<lambda>x. case x of Some y \<Rightarrow> y \<ge> h \<and> y \<le> b | None \<Rightarrow> False);
           out_of_loop = (\<lambda>x. case x of Some y \<Rightarrow> y < h \<or> y > b | None \<Rightarrow> False)
       in if in_loop (labels then_label) \<and> out_of_loop (labels else_label) then Some else_label
          else if in_loop (labels else_label) \<and> out_of_loop (labels then_label) then Some then_label
          else None
   | _ \<Rightarrow> None)"

definition max_backedge :: "LoopInfo \<Rightarrow> nat" where
  "max_backedge info = fold max (li_backedges info) 0"

definition recover_exit :: "BlockCfg list \<Rightarrow> (Label \<rightharpoonup> nat) \<Rightarrow> LoopInfo \<Rightarrow> LoopInfo" where
  "recover_exit blocks labels info =
     (if li_exit info \<noteq> None then info
      else
        let h = li_header info; b = max_backedge info;
            exits = List.map_filter (\<lambda>idx. exit_of_branch labels h b (bc_term (blocks ! idx))) [h..<min b (length blocks - 1) + 1]
        in info\<lparr>li_exit := (case exits of [] \<Rightarrow> None | l # _ \<Rightarrow> Some l)\<rparr>)"

definition successors_of :: "(Label \<rightharpoonup> nat) \<Rightarrow> nat \<Rightarrow> nat \<times> BlockCfg \<Rightarrow> nat list outcome" where
  "successors_of labels n = (\<lambda>(idx, block). case bc_term block of
     TBranch _ _ then_label else_label \<Rightarrow>
       obind (at labels then_label) (\<lambda>t. obind (at labels else_label) (\<lambda>e. Done [t, e]))
   | TSwitch _ cases \<Rightarrow> osequence (map (at labels) cases)
   | TFallthrough \<Rightarrow> Done (if idx + 1 < n then [idx + 1] else [])
   | TContinue _ \<Rightarrow> Done []
   | TJump target \<Rightarrow> omap (\<lambda>t. [t]) (at labels target)
   | TReturn _ \<Rightarrow> Done []
   | TAbort _ \<Rightarrow> Done [])"

definition discover_walk :: "Bytecode list \<Rightarrow> discovery" where
  "discover_walk code = fold discover_step (enumerate 0 code)
     \<lparr>ds_blocks = [], ds_labels = Map.empty, ds_loops = [], ds_start = 0, ds_synthetic = - 1\<rparr>"

definition discover_cfg :: "Bytecode list \<Rightarrow> BytecodeCFG outcome" where
  "discover_cfg code =
     (let st = discover_walk code; blocks = close_tail (length code) st in
      omap (\<lambda>succs. \<lparr>cf_blocks = blocks, cf_labels = ds_labels st,
          cf_loops = map (recover_exit blocks (ds_labels st)) (ds_loops st), cf_successors = succs\<rparr>)
        (osequence (map (successors_of (ds_labels st) (length blocks)) (enumerate 0 blocks))))"

section \<open>Blocks of forward code\<close>

text \<open>The instructions that end a block, and the terminators they become.\<close>

fun is_control :: "Bytecode \<Rightarrow> bool" where
  "is_control (BLabel _ _) = True"
| "is_control (BBranch _ _ _ _) = True"
| "is_control (BJump _ _) = True"
| "is_control (BVariantSwitch _ _ _) = True"
| "is_control (BRet _ _) = True"
| "is_control (BAbort _ _) = True"
| "is_control _ = False"

fun term_of :: "Bytecode \<Rightarrow> Terminator" where
  "term_of (BBranch _ l1 l2 c) = TBranch c False l1 l2"
| "term_of (BJump _ l) = TJump l"
| "term_of (BVariantSwitch _ x ls) = TSwitch x ls"
| "term_of (BRet _ ts) = TReturn ts"
| "term_of (BAbort _ x) = TAbort (Some x)"
| "term_of _ = TFallthrough"

definition forward_jumps :: "Bytecode list \<Rightarrow> (Label \<rightharpoonup> CodeOffset) \<Rightarrow> bool" where
  "forward_jumps code offs \<longleftrightarrow> (\<forall>pc < length code. \<forall>l\<in>set (branch_dests (code ! pc)). \<exists>q. offs l = Some q \<and> pc < q)"

text \<open>Blocks that tile a prefix of the code.\<close>

definition tiles :: "Bytecode list \<Rightarrow> BlockCfg list \<Rightarrow> bool" where
  "tiles code bs \<longleftrightarrow> (\<forall>i < length bs.
     bc_start (bs ! i) = (if i = 0 then 0 else bc_end (bs ! (i - 1)) + 1)
     \<and> bc_start (bs ! i) \<le> bc_end (bs ! i) \<and> bc_end (bs ! i) < length code
     \<and> bc_term (bs ! i) = term_of (code ! bc_end (bs ! i)) \<and> is_control (code ! bc_end (bs ! i))
     \<and> (\<forall>pc. bc_start (bs ! i) \<le> pc \<and> pc < bc_end (bs ! i) \<longrightarrow> \<not> is_control (code ! pc)))"

definition next_start :: "BlockCfg list \<Rightarrow> nat" where
  "next_start bs = (if bs = [] then 0 else bc_end (last bs) + 1)"

definition walked :: "Bytecode list \<Rightarrow> nat \<Rightarrow> discovery \<Rightarrow> bool" where
  "walked code k st \<longleftrightarrow> ds_loops st = [] \<and> tiles code (ds_blocks st) \<and> ds_start st = next_start (ds_blocks st)
     \<and> ds_start st \<le> k \<and> (\<forall>pc. ds_start st \<le> pc \<and> pc < k \<longrightarrow> \<not> is_control (code ! pc))
     \<and> (\<forall>l b. ds_labels st l = Some b \<longleftrightarrow>
          0 < b \<and> b \<le> length (ds_blocks st) \<and> (\<exists>a. code ! bc_end (ds_blocks st ! (b - 1)) = BLabel a l))"

lemma walkedD:
  assumes "walked code k st"
  shows "ds_loops st = []" "tiles code (ds_blocks st)" "ds_start st = next_start (ds_blocks st)" "ds_start st \<le> k"
    "\<And>pc. ds_start st \<le> pc \<Longrightarrow> pc < k \<Longrightarrow> \<not> is_control (code ! pc)"
    "\<And>l b. ds_labels st l = Some b \<longleftrightarrow>
          0 < b \<and> b \<le> length (ds_blocks st) \<and> (\<exists>a. code ! bc_end (ds_blocks st ! (b - 1)) = BLabel a l)"
  using assms unfolding walked_def by blast+

lemma tiles_snoc:
  assumes t: "tiles code bs" and b: "bc_start b = next_start bs" "bc_start b \<le> bc_end b" "bc_end b < length code"
    "bc_term b = term_of (code ! bc_end b)" "is_control (code ! bc_end b)"
    "\<And>pc. bc_start b \<le> pc \<Longrightarrow> pc < bc_end b \<Longrightarrow> \<not> is_control (code ! pc)"
  shows "tiles code (bs @ [b])"
  unfolding tiles_def
proof (intro allI impI)
  fix i assume i: "i < length (bs @ [b])"
  show "bc_start ((bs @ [b]) ! i) = (if i = 0 then 0 else bc_end ((bs @ [b]) ! (i - 1)) + 1)
     \<and> bc_start ((bs @ [b]) ! i) \<le> bc_end ((bs @ [b]) ! i) \<and> bc_end ((bs @ [b]) ! i) < length code
     \<and> bc_term ((bs @ [b]) ! i) = term_of (code ! bc_end ((bs @ [b]) ! i)) \<and> is_control (code ! bc_end ((bs @ [b]) ! i))
     \<and> (\<forall>pc. bc_start ((bs @ [b]) ! i) \<le> pc \<and> pc < bc_end ((bs @ [b]) ! i) \<longrightarrow> \<not> is_control (code ! pc))"
  proof (cases "i < length bs")
    case True
    then show ?thesis using t by (auto simp: tiles_def nth_append)
  next
    case False
    then have "i = length bs" using i by simp
    moreover have "bs \<noteq> [] \<Longrightarrow> last bs = bs ! (length bs - 1)" by (rule last_conv_nth)
    ultimately show ?thesis using b by (auto simp: nth_append next_start_def)
  qed
qed

lemma walked_push:
  assumes w: "walked code k st" and k: "k < length code" and c: "is_control (code ! k)"
    and labels: "\<And>a l. code ! k = BLabel a l \<Longrightarrow> labels' = (ds_labels st)(l \<mapsto> length (ds_blocks st) + 1) \<and> ds_labels st l = None"
      "(\<nexists>a l. code ! k = BLabel a l) \<Longrightarrow> labels' = ds_labels st"
  shows "walked code (Suc k) ((push_block k (term_of (code ! k)) st)\<lparr>ds_labels := labels'\<rparr>)"
proof -
  note w = walkedD [OF w]
  let ?b = "block_new (ds_start st) k (term_of (code ! k))"
  have tiles: "tiles code (ds_blocks st @ [?b])"
    by (rule tiles_snoc [OF w(2)]) (use w(3,4,5) k c in \<open>auto simp: block_new_def\<close>)
  have lab: "labels' l = Some b \<longleftrightarrow> 0 < b \<and> b \<le> length (ds_blocks st @ [?b])
      \<and> (\<exists>a. code ! bc_end ((ds_blocks st @ [?b]) ! (b - 1)) = BLabel a l)" for l b
  proof (cases "b = length (ds_blocks st) + 1")
    case True
    have "ds_labels st l \<noteq> Some b" using w(6) [of l b] True by simp
    moreover have "(\<exists>a. code ! k = BLabel a l) \<longleftrightarrow> labels' l = Some b"
    proof (cases "\<exists>a m. code ! k = BLabel a m")
      case lab: True
      then obtain a m where m: "code ! k = BLabel a m" by blast
      then show ?thesis using labels(1) [OF m] \<open>ds_labels st l \<noteq> Some b\<close> True by auto
    next
      case False
      then show ?thesis using labels(2) \<open>ds_labels st l \<noteq> Some b\<close> by auto
    qed
    ultimately show ?thesis using True by (simp add: nth_append block_new_def)
  next
    case False
    have "labels' l = Some b \<longleftrightarrow> ds_labels st l = Some b"
    proof (cases "\<exists>a m. code ! k = BLabel a m")
      case True
      then obtain a m where m: "code ! k = BLabel a m" by blast
      then show ?thesis using labels(1) [OF m] False by (auto split: if_splits)
    next
      case False
      then show ?thesis using labels(2) by simp
    qed
    then show ?thesis using w(6) [of l b] False by (auto simp: nth_append)
  qed
  show ?thesis unfolding walked_def using w(1) tiles lab by (simp add: push_block_def next_start_def block_new_def) auto
qed

lemma walk_step:
  assumes f: "forward_jumps code offs" and offs: "label_offsets code = Done offs" and k: "k < length code" and w: "walked code k st"
  shows "walked code (Suc k) (discover_step (k, code ! k) st)"
proof -
  note W = walkedD [OF w]
  have known: "\<exists>q < k. offs l = Some q" if l: "ds_labels st l = Some b" for l b
  proof -
    obtain a where b: "0 < b" "b \<le> length (ds_blocks st)" "code ! bc_end (ds_blocks st ! (b - 1)) = BLabel a l" using W(6) l by blast
    have e: "bc_end (ds_blocks st ! (b - 1)) < length code" using W(2) b(1,2) unfolding tiles_def by auto
    then have "offs l = Some (bc_end (ds_blocks st ! (b - 1)))"
      unfolding label_offsets_Done [OF offs] is_label_def using b(3) by blast
    moreover have "bc_end (ds_blocks st ! (b - 1)) < k"
    proof (rule ccontr)
      assume "\<not> bc_end (ds_blocks st ! (b - 1)) < k"
      have mono: "i \<le> j \<Longrightarrow> j < length (ds_blocks st) \<Longrightarrow> bc_end (ds_blocks st ! i) \<le> bc_end (ds_blocks st ! j)" for i j
      proof (induction j)
        case (Suc j)
        show ?case
        proof (cases "i = Suc j")
          case False
          then have "bc_end (ds_blocks st ! i) \<le> bc_end (ds_blocks st ! j)" using Suc by simp
          moreover have "bc_start (ds_blocks st ! Suc j) = bc_end (ds_blocks st ! j) + 1" "bc_start (ds_blocks st ! Suc j) \<le> bc_end (ds_blocks st ! Suc j)"
            using W(2) Suc.prems(2) unfolding tiles_def by auto
          ultimately show ?thesis by linarith
        qed simp
      qed simp
      have "ds_blocks st \<noteq> []" using b by auto
      then have "bc_end (ds_blocks st ! (b - 1)) \<le> bc_end (last (ds_blocks st))"
        using mono [of "b - 1" "length (ds_blocks st) - 1"] b by (simp add: last_conv_nth)
      then show False using W(3,4) \<open>ds_blocks st \<noteq> []\<close> \<open>\<not> bc_end (ds_blocks st ! (b - 1)) < k\<close> by (simp add: next_start_def)
    qed
    ultimately show ?thesis by blast
  qed
  have ahead: "ds_labels st l = None" if "l \<in> set (branch_dests (code ! k))" for l
  proof (rule ccontr)
    assume "ds_labels st l \<noteq> None"
    then obtain q where "q < k" "offs l = Some q" using known by blast
    then show False using f that k unfolding forward_jumps_def by fastforce
  qed
  have same: "st'\<lparr>ds_labels := ds_labels st'\<rparr> = st'" for st' :: discovery by simp
  have push: "walked code (Suc k) (push_block k (term_of (code ! k)) st)" if "is_control (code ! k)" "\<nexists>a l. code ! k = BLabel a l"
    using walked_push [OF w k that(1), of "ds_labels st"] that(2) by (simp add: push_block_def)
  have skip: "walked code (Suc k) st" if "\<not> is_control (code ! k)"
    using w that unfolding walked_def by (auto simp: less_Suc_eq)
  show ?thesis
  proof (cases "code ! k")
    case (BLabel a l)
    have "ds_labels st l = None"
    proof (rule ccontr)
      assume "ds_labels st l \<noteq> None"
      then obtain q where "q < k" "offs l = Some q" using known by blast
      moreover have "offs l = Some k" unfolding label_offsets_Done [OF offs] is_label_def using k BLabel by blast
      ultimately show False by simp
    qed
    then show ?thesis
      using walked_push [OF w k, of "(ds_labels st)(l \<mapsto> length (ds_blocks st) + 1)"] BLabel by (simp add: push_block_def Let_def)
  next
    case (BBranch a l1 l2 c)
    then show ?thesis using push ahead by (simp add: discover_branch_def is_backward_def)
  next
    case (BJump a l)
    then show ?thesis using push ahead by (simp add: discover_jump_def)
  qed (use push skip in simp_all)
qed

lemma discover_walked:
  assumes "forward_jumps code offs" "label_offsets code = Done offs" "k \<le> length code"
  shows "walked code k (fold discover_step (enumerate 0 (take k code))
     \<lparr>ds_blocks = [], ds_labels = Map.empty, ds_loops = [], ds_start = 0, ds_synthetic = - 1\<rparr>)"
  using assms(3)
proof (induction k)
  case 0
  then show ?case by (auto simp: walked_def tiles_def next_start_def)
next
  case (Suc k)
  have "enumerate 0 (take (Suc k) code) = enumerate 0 (take k code) @ [(k, code ! k)]"
    using Suc.prems by (simp add: take_Suc_conv_app_nth enumerate_append_eq)
  then show ?case using walk_step [OF assms(1,2), of k] Suc by simp
qed

text \<open>The finished list of blocks: the blocks of the walk, and a last block for what follows them.\<close>

definition blocked :: "Bytecode list \<Rightarrow> (Label \<rightharpoonup> CodeOffset) \<Rightarrow> BlockCfg list \<Rightarrow> (Label \<rightharpoonup> nat) \<Rightarrow> bool" where
  "blocked code offs bs labels \<longleftrightarrow> bs \<noteq> []
     \<and> (\<forall>i < length bs. bc_start (bs ! i) = (if i = 0 then 0 else bc_end (bs ! (i - 1)) + 1)
         \<and> bc_start (bs ! i) \<le> bc_end (bs ! i)
         \<and> (\<forall>pc. bc_start (bs ! i) \<le> pc \<and> pc < bc_end (bs ! i) \<longrightarrow> \<not> is_control (code ! pc))
         \<and> (bc_end (bs ! i) < length code \<and> bc_term (bs ! i) = term_of (code ! bc_end (bs ! i)) \<and> is_control (code ! bc_end (bs ! i))
            \<or> i + 1 = length bs \<and> bc_end (bs ! i) = length code \<and> bc_term (bs ! i) = TReturn [])
         \<and> (bc_term (bs ! i) = TFallthrough \<longrightarrow> i + 1 < length bs))
     \<and> (\<forall>l b. labels l = Some b \<longrightarrow> 0 < b \<and> b < length bs \<and> (\<exists>a. code ! bc_end (bs ! (b - 1)) = BLabel a l))
     \<and> (\<forall>l q. offs l = Some q \<longrightarrow> (\<exists>b. labels l = Some b \<and> bc_end (bs ! (b - 1)) = q))"

lemma tiles_cover:
  assumes "tiles code bs"
  shows "pc < next_start bs \<Longrightarrow> \<exists>i < length bs. bc_start (bs ! i) \<le> pc \<and> pc \<le> bc_end (bs ! i)"
proof -
  have "\<exists>i < k. bc_start (bs ! i) \<le> pc \<and> pc \<le> bc_end (bs ! i)" if "0 < k" "k \<le> length bs" "pc \<le> bc_end (bs ! (k - 1))" for k
    using that
  proof (induction k)
    case (Suc k)
    show ?case
    proof (cases "bc_start (bs ! k) \<le> pc")
      case True
      then show ?thesis using Suc.prems by (intro exI [of _ k]) simp
    next
      case False
      then have "k \<noteq> 0" using assms Suc.prems unfolding tiles_def by (metis Suc_le_lessD not_less_zero not_le)
      then have "bc_start (bs ! k) = bc_end (bs ! (k - 1)) + 1" using assms Suc.prems unfolding tiles_def by auto
      then have "pc \<le> bc_end (bs ! (k - 1))" using False by simp
      then show ?thesis using Suc \<open>k \<noteq> 0\<close> by (metis Suc_leD less_SucI neq0_conv)
    qed
  qed simp
  moreover assume "pc < next_start bs"
  ultimately show "\<exists>i < length bs. bc_start (bs ! i) \<le> pc \<and> pc \<le> bc_end (bs ! i)"
    by (cases "bs = []") (auto simp: next_start_def last_conv_nth)
qed

lemma discover_blocked:
  assumes f: "forward_jumps code offs" and offs: "label_offsets code = Done offs"
  shows "blocked code offs (close_tail (length code) (discover_walk code)) (ds_labels (discover_walk code))
    \<and> ds_loops (discover_walk code) = []"
proof -
  define st where "st = discover_walk code"
  have w: "walked code (length code) st" using discover_walked [OF f offs order_refl] by (simp add: st_def discover_walk_def)
  note W = walkedD [OF w]
  let ?bs = "close_tail (length code) st"
  let ?tail = "block_new (ds_start st) (length code) (TReturn [])"
  have bs: "?bs = ds_blocks st \<and> ds_blocks st \<noteq> [] \<and> is_return_term (bc_term (last (ds_blocks st))) \<or> ?bs = ds_blocks st @ [?tail]"
    by (simp add: close_tail_def)
  have old: "?bs ! i = ds_blocks st ! i" if "i < length (ds_blocks st)" for i
    using bs that by (auto simp: nth_append)
  have len: "length (ds_blocks st) \<le> length ?bs" using bs by auto
  have fall: "i + 1 < length ?bs" if i: "i < length (ds_blocks st)" "bc_term (ds_blocks st ! i) = TFallthrough" for i
    using bs
  proof
    assume r: "?bs = ds_blocks st \<and> ds_blocks st \<noteq> [] \<and> is_return_term (bc_term (last (ds_blocks st)))"
    then have "i \<noteq> length (ds_blocks st) - 1" using i(2) by (auto simp: last_conv_nth)
    then show ?thesis using i r by simp
  qed (use i in simp)
  have at_label: "bc_term (ds_blocks st ! i) = TFallthrough"
    if "i < length (ds_blocks st)" "code ! bc_end (ds_blocks st ! i) = BLabel a l" for i a l
    using W(2) that unfolding tiles_def by simp
  have "bc_start (?bs ! i) = (if i = 0 then 0 else bc_end (?bs ! (i - 1)) + 1)
         \<and> bc_start (?bs ! i) \<le> bc_end (?bs ! i)
         \<and> (\<forall>pc. bc_start (?bs ! i) \<le> pc \<and> pc < bc_end (?bs ! i) \<longrightarrow> \<not> is_control (code ! pc))
         \<and> (bc_end (?bs ! i) < length code \<and> bc_term (?bs ! i) = term_of (code ! bc_end (?bs ! i)) \<and> is_control (code ! bc_end (?bs ! i))
            \<or> i + 1 = length ?bs \<and> bc_end (?bs ! i) = length code \<and> bc_term (?bs ! i) = TReturn [])
         \<and> (bc_term (?bs ! i) = TFallthrough \<longrightarrow> i + 1 < length ?bs)" if i: "i < length ?bs" for i
  proof (cases "i < length (ds_blocks st)")
    case True
    note T = W(2) [unfolded tiles_def, rule_format, OF True]
    have "i - 1 < length (ds_blocks st)" using True by simp
    then have "?bs ! (i - 1) = ds_blocks st ! (i - 1)" by (rule old)
    then show ?thesis using T fall [OF True] unfolding old [OF True] by metis
  next
    case False
    then have tail: "?bs = ds_blocks st @ [?tail]" "i = length (ds_blocks st)" using bs i by auto
    then have t: "?bs ! i = ?tail" by simp
    have s: "(if i = 0 then 0 else bc_end (?bs ! (i - 1)) + 1) = ds_start st"
      using W(3) tail(2) old [of "i - 1"] by (auto simp: next_start_def last_conv_nth)
    have "i + 1 = length ?bs" using tail by simp
    then show ?thesis unfolding t s using W(4,5) by (simp add: block_new_def)
  qed
  moreover have "0 < b \<and> b < length ?bs \<and> (\<exists>a. code ! bc_end (?bs ! (b - 1)) = BLabel a l)" if "ds_labels st l = Some b" for l b
  proof -
    obtain a where b: "0 < b" "b \<le> length (ds_blocks st)" "code ! bc_end (ds_blocks st ! (b - 1)) = BLabel a l" using W(6) \<open>ds_labels st l = Some b\<close> by blast
    then have "b - 1 + 1 < length ?bs" using fall [of "b - 1"] at_label [of "b - 1"] by simp
    then show ?thesis using b old [of "b - 1"] by auto
  qed
  moreover have "\<exists>b. ds_labels st l = Some b \<and> bc_end (?bs ! (b - 1)) = q" if q: "offs l = Some q" for l q
  proof -
    obtain a where a: "q < length code" "code ! q = BLabel a l"
      using q unfolding label_offsets_Done [OF offs] is_label_def by blast
    then have "q < next_start (ds_blocks st)" using W(5) [of q] W(3) by fastforce
    then obtain i where i: "i < length (ds_blocks st)" "bc_start (ds_blocks st ! i) \<le> q" "q \<le> bc_end (ds_blocks st ! i)"
      using tiles_cover [OF W(2)] by blast
    have "q = bc_end (ds_blocks st ! i)"
    proof (rule ccontr)
      assume "q \<noteq> bc_end (ds_blocks st ! i)"
      then have "\<not> is_control (code ! q)" using i W(2) unfolding tiles_def by auto
      then show False using a by simp
    qed
    then show ?thesis using W(6) [of l "i + 1"] i(1) a(2) old [of i] by auto
  qed
  moreover have "?bs \<noteq> []" using bs by auto
  ultimately show ?thesis unfolding blocked_def st_def [symmetric] using W(1) by blast
qed

section \<open>Runs of blocks\<close>

datatype ('v, 'm) flow = Flows "'v locals" 'm | Stops "('v, 'm) result"

fun exec_range :: "('v, 'm) machine \<Rightarrow> TempIndex set \<Rightarrow> Bytecode list \<Rightarrow> nat list \<Rightarrow> 'v locals \<Rightarrow> 'm \<Rightarrow> ('v, 'm) flow" where
  "exec_range M B code [] env mem = Flows env mem"
| "exec_range M B code (pc # pcs) env mem =
     (if is_control (code ! pc) then exec_range M B code pcs env mem
      else case exec_instr M B Map.empty (code ! pc) pc env mem of
        Running _ env' mem' \<Rightarrow> exec_range M B code pcs env' mem'
      | r \<Rightarrow> Stops r)"

definition exec_body :: "('v, 'm) machine \<Rightarrow> TempIndex set \<Rightarrow> Bytecode list \<Rightarrow> BlockCfg \<Rightarrow> 'v locals \<Rightarrow> 'm \<Rightarrow> ('v, 'm) flow" where
  "exec_body M B code b env mem = exec_range M B code [bc_start b..<bc_end b] env mem"

datatype 'r exit = ToBlock nat | Ends 'r

fun exec_term :: "('v, 'm) machine \<Rightarrow> (Label \<rightharpoonup> nat) \<Rightarrow> nat \<Rightarrow> Terminator \<Rightarrow> 'v locals \<Rightarrow> 'm \<Rightarrow> ('v, 'm) result exit" where
  "exec_term M labels i (TBranch c neg t e) env mem =
     (case labels (if m_true M (env c) \<noteq> neg then t else e) of Some j \<Rightarrow> ToBlock j | None \<Rightarrow> Ends Stuck)"
| "exec_term M labels i (TSwitch x ls) env mem =
     (if m_variant M (env x) mem < length ls
      then case labels (ls ! m_variant M (env x) mem) of Some j \<Rightarrow> ToBlock j | None \<Rightarrow> Ends Stuck
      else Ends Stuck)"
| "exec_term M labels i (TReturn ts) env mem = Ends (Returned (map env ts) mem)"
| "exec_term M labels i (TAbort x) env mem = Ends (case x of Some x \<Rightarrow> Aborted (env x) mem | None \<Rightarrow> Stuck)"
| "exec_term M labels i TFallthrough env mem = ToBlock (i + 1)"
| "exec_term M labels i (TContinue h) env mem = ToBlock h"
| "exec_term M labels i (TJump l) env mem = (case labels l of Some j \<Rightarrow> ToBlock j | None \<Rightarrow> Ends Stuck)"

lemma exec_plain_offs:
  "\<not> is_control b \<Longrightarrow> exec_instr M B offs b pc env mem = exec_instr M B Map.empty b pc env mem"
  by (cases b) auto

lemma exec_plain_pc:
  "\<not> is_control b \<Longrightarrow> exec_instr M B offs b pc env mem = Running pc' env' mem' \<Longrightarrow> pc' = pc + 1"
  by (cases b) (auto simp: exec_call_def Let_def split: if_splits sum.splits)

text \<open>The instructions of a range run like the bytecode.\<close>

lemma exec_range_run:
  assumes "e \<le> length code" "\<forall>pc. s \<le> pc \<and> pc < e \<longrightarrow> \<not> is_control (code ! pc)" "s \<le> e"
  shows "case exec_range M B code [s..<e] env mem of
      Flows env' mem' \<Rightarrow> run M B code offs (e - s) (Running s env mem) = Running e env' mem'
    | Stops r \<Rightarrow> \<not> is_running r \<and> (\<exists>n. run M B code offs n (Running s env mem) = r)"
  using assms(2,3)
proof (induction "e - s" arbitrary: s env mem)
  case (Suc k)
  then have s: "s < e" "[s..<e] = s # [Suc s..<e]" by (auto simp: upt_conv_Cons)
  let ?r = "exec_instr M B offs (code ! s) s env mem"
  have nc: "\<not> is_control (code ! s)" using Suc.prems(1) s(1) by simp
  have r0: "exec_instr M B Map.empty (code ! s) s env mem = ?r" using exec_plain_offs [OF nc, of M B offs] by simp
  have step: "run M B code offs (Suc n) (Running s env mem) = run M B code offs n ?r" for n
    using s(1) assms(1) by simp
  show ?case
  proof (cases ?r)
    case (Running pc' env' mem')
    then have pc': "pc' = Suc s" using exec_plain_pc [OF nc] by fastforce
    have IH: "case exec_range M B code [Suc s..<e] env' mem' of
        Flows env'' mem'' \<Rightarrow> run M B code offs (e - Suc s) (Running (Suc s) env' mem') = Running e env'' mem''
      | Stops r \<Rightarrow> \<not> is_running r \<and> (\<exists>n. run M B code offs n (Running (Suc s) env' mem') = r)"
      using Suc.hyps(1) [of "Suc s"] Suc.hyps(2) Suc.prems s(1) by simp
    have e: "e - s = Suc (e - Suc s)" using s(1) by simp
    have range: "exec_range M B code [s..<e] env mem = exec_range M B code [Suc s..<e] env' mem'"
      using nc r0 Running by (simp add: s(2))
    show ?thesis
    proof (cases "exec_range M B code [Suc s..<e] env' mem'")
      case (Flows env'' mem'')
      then show ?thesis using IH Running pc' unfolding range e step by simp
    next
      case (Stops r)
      then obtain n where n: "\<not> is_running r" "run M B code offs n (Running (Suc s) env' mem') = r" using IH by auto
      then have "run M B code offs (Suc n) (Running s env mem) = r" unfolding step using Running pc' by simp
      then have "\<exists>n. run M B code offs n (Running s env mem) = r" by blast
      then show ?thesis using Stops n(1) unfolding range by simp
    qed
  qed (use nc r0 step [of 0] in \<open>auto simp: s(2) intro: exI [of _ 1]\<close>)
qed simp

text \<open>No block of the code that falls off the end: the last instruction leaves.\<close>

definition inside :: "Bytecode list \<Rightarrow> BlockCfg list \<Rightarrow> nat \<Rightarrow> bool" where
  "inside code bs i \<longleftrightarrow> i < length bs \<and> bc_start (bs ! i) < length code"

lemma blockedD:
  assumes "blocked code offs bs labels" "i < length bs"
  shows "bc_start (bs ! i) = (if i = 0 then 0 else bc_end (bs ! (i - 1)) + 1)" "bc_start (bs ! i) \<le> bc_end (bs ! i)"
    "\<forall>pc. bc_start (bs ! i) \<le> pc \<and> pc < bc_end (bs ! i) \<longrightarrow> \<not> is_control (code ! pc)"
    "bc_end (bs ! i) < length code \<and> bc_term (bs ! i) = term_of (code ! bc_end (bs ! i)) \<and> is_control (code ! bc_end (bs ! i))
      \<or> i + 1 = length bs \<and> bc_end (bs ! i) = length code \<and> bc_term (bs ! i) = TReturn []"
    "bc_term (bs ! i) = TFallthrough \<Longrightarrow> i + 1 < length bs"
  using assms unfolding blocked_def by blast+

lemma blocked_ends:
  assumes b: "blocked code offs bs labels"
  shows "i \<le> j \<Longrightarrow> j < length bs \<Longrightarrow> bc_end (bs ! i) \<le> bc_end (bs ! j)"
proof (induction j)
  case (Suc j)
  show ?case
  proof (cases "i = Suc j")
    case False
    then have "bc_end (bs ! i) \<le> bc_end (bs ! j)" using Suc by simp
    then show ?thesis using blockedD(1,2) [OF b Suc.prems(2)] by simp
  qed simp
qed simp

text \<open>A label leads to the start of its block.\<close>

lemma label_block:
  assumes b: "blocked code offs bs labels" and offs: "label_offsets code = Done offs" and l: "offs l = Some q"
  shows "\<exists>j. labels l = Some j \<and> 0 < j \<and> j < length bs \<and> bc_end (bs ! (j - 1)) = q \<and> bc_start (bs ! j) = q + 1
    \<and> run M B code offs 1 (Running q env mem) = Running (q + 1) env mem"
proof -
  obtain j where j: "labels l = Some j" "bc_end (bs ! (j - 1)) = q" using b l unfolding blocked_def by blast
  have "0 < j" "j < length bs" using b j(1) unfolding blocked_def by blast+
  moreover from this have "bc_start (bs ! j) = q + 1" using blockedD(1) [OF b] j(2) by simp
  moreover obtain a where "q < length code" "code ! q = BLabel a l"
    using l unfolding label_offsets_Done [OF offs] is_label_def by blast
  ultimately show ?thesis using j by simp
qed

lemma label_inside:
  assumes b: "blocked code offs bs labels" and exit: "code \<noteq> []" "is_exit (last code)"
    and j: "0 < j" "j < length bs" "code ! bc_end (bs ! (j - 1)) = BLabel a l"
  shows "inside code bs j"
proof -
  have "bc_start (bs ! j) = bc_end (bs ! (j - 1)) + 1" using blockedD(1) [OF b j(2)] j(1) by simp
  moreover have "bc_end (bs ! (j - 1)) < length code"
    using blockedD(4) [OF b, of "j - 1"] j(1,2) by auto
  moreover have "bc_end (bs ! (j - 1)) \<noteq> length code - 1"
    using exit j(3) by (auto simp: last_conv_nth)
  ultimately show ?thesis using j(2) by (simp add: inside_def)
qed

text \<open>One block: its body and its terminator run like the bytecode from the start of the block to
  the start of the next.\<close>

lemma block_run:
  assumes b: "blocked code offs bs labels" and offs: "label_offsets code = Done offs" and f: "forward_jumps code offs"
    and exit: "code \<noteq> []" "is_exit (last code)" and i: "inside code bs i"
  shows "case exec_body M B code (bs ! i) env mem of
      Stops r \<Rightarrow> \<not> is_running r \<and> (\<exists>n. run M B code offs n (Running (bc_start (bs ! i)) env mem) = r)
    | Flows env' mem' \<Rightarrow> (case exec_term M labels i (bc_term (bs ! i)) env' mem' of
        Ends r \<Rightarrow> \<not> is_running r \<and> (\<exists>n. run M B code offs n (Running (bc_start (bs ! i)) env mem) = r)
      | ToBlock j \<Rightarrow> i < j \<and> inside code bs j
          \<and> (\<exists>n. run M B code offs n (Running (bc_start (bs ! i)) env mem) = Running (bc_start (bs ! j)) env' mem'))"
proof -
  let ?s = "bc_start (bs ! i)" and ?e = "bc_end (bs ! i)"
  define reach where "reach r = (\<exists>n. run M B code offs n (Running ?s env mem) = r)" for r
  have il: "i < length bs" "?s < length code" using i by (auto simp: inside_def)
  note B = blockedD [OF b il(1)]
  have e: "?e \<le> length code" using B(4) by auto
  have R: "case exec_body M B code (bs ! i) env mem of
      Flows env' mem' \<Rightarrow> run M B code offs (?e - ?s) (Running ?s env mem) = Running ?e env' mem'
    | Stops r \<Rightarrow> \<not> is_running r \<and> (\<exists>n. run M B code offs n (Running ?s env mem) = r)"
    unfolding exec_body_def by (rule exec_range_run [OF e B(3,2)])
  have "case exec_body M B code (bs ! i) env mem of
      Stops r \<Rightarrow> \<not> is_running r \<and> reach r
    | Flows env' mem' \<Rightarrow> (case exec_term M labels i (bc_term (bs ! i)) env' mem' of
        Ends r \<Rightarrow> \<not> is_running r \<and> reach r
      | ToBlock j \<Rightarrow> i < j \<and> inside code bs j \<and> reach (Running (bc_start (bs ! j)) env' mem'))"
  proof (cases "exec_body M B code (bs ! i) env mem")
    case (Stops r)
    with R show ?thesis by (simp add: reach_def)
  next
    case (Flows env' mem')
    then have R: "run M B code offs (?e - ?s) (Running ?s env mem) = Running ?e env' mem'" using R by simp
    have len: "?e < length code"
    proof (rule ccontr)
      assume "\<not> ?e < length code"
      then have at_end: "?e = length code" using e by simp
      then have "\<not> is_control (last code)" using B(3) il(2) exit(1) by (simp add: last_conv_nth)
      then obtain a ds ss aa where stop: "last code = BCall a ds OpStop ss aa" using exit(2) by (cases "last code") auto
      have pre: "exec_range M B code (xs @ [length code - 1]) env mem \<noteq> Flows env' mem'" for xs env mem
      proof (induction xs arbitrary: env mem)
        case Nil
        then show ?case using stop exit(1) by (simp add: last_conv_nth exec_call_def)
      next
        case (Cons x xs)
        then show ?case by (auto split: result.split)
      qed
      have "[?s..<?e] = [?s..<length code - 1] @ [length code - 1]"
        using il(2) at_end by (cases "length code") (auto simp: upt_Suc_append)
      then show False using pre Flows unfolding exec_body_def by metis
    qed
    then have T: "bc_term (bs ! i) = term_of (code ! ?e)" "is_control (code ! ?e)" using B(4) by auto
    have more: "run M B code offs (?e - ?s + n) (Running ?s env mem) = run M B code offs n (Running ?e env' mem')" for n
      unfolding run_add R ..
    have step: "run M B code offs 1 (Running ?e env' mem') = exec_instr M B offs (code ! ?e) ?e env' mem'" using len by simp
    have ends: "reach r" if "exec_instr M B offs (code ! ?e) ?e env' mem' = r" for r
      using more [of 1] step that unfolding reach_def by metis
    have jump: "\<exists>j. labels l = Some j \<and> i < j \<and> inside code bs j
        \<and> reach (Running (bc_start (bs ! j)) env' mem')"
      if l: "l \<in> set (branch_dests (code ! ?e))" "exec_instr M B offs (code ! ?e) ?e env' mem' = goto offs l env' mem'" for l
    proof -
      obtain q where q: "offs l = Some q" "?e < q" using f len l(1) unfolding forward_jumps_def by blast
      obtain j where j: "labels l = Some j" "0 < j" "j < length bs" "bc_end (bs ! (j - 1)) = q" "bc_start (bs ! j) = q + 1"
        "run M B code offs 1 (Running q env' mem') = Running (q + 1) env' mem'"
        using label_block [OF b offs q(1), of M B env' mem'] by (elim exE conjE) (rule that)
      have "\<not> j - 1 \<le> i" using blocked_ends [OF b, of "j - 1" i] il(1) j(4) q(2) by auto
      moreover obtain a where "code ! bc_end (bs ! (j - 1)) = BLabel a l" using b j(1) unfolding blocked_def by blast
      then have "inside code bs j" using label_inside [OF b exit j(2,3)] by blast
      moreover have "run M B code offs (?e - ?s + 1) (Running ?s env mem) = Running q env' mem'"
        using more [of 1] step l(2) q(1) by (simp only: goto_def option.case)
      then have "run M B code offs (?e - ?s + 1 + 1) (Running ?s env mem) = Running (bc_start (bs ! j)) env' mem'"
        using j(5,6) by (simp only: run_add [of M B code offs "?e - ?s + 1" 1])
      ultimately show ?thesis using j(1) unfolding reach_def by fastforce
    qed
    show ?thesis
    proof (cases "code ! ?e")
      case (BLabel a l)
      have n: "i + 1 < length bs" using B(5) T(1) BLabel by simp
      have "inside code bs (i + 1)" using label_inside [OF b exit _ n, of a l] BLabel by simp
      moreover have "run M B code offs (?e - ?s + 1) (Running ?s env mem) = Running (bc_start (bs ! (i + 1))) env' mem'"
        unfolding more step using blockedD(1) [OF b n] BLabel by simp
      then have "reach (Running (bc_start (bs ! (i + 1))) env' mem')" unfolding reach_def ..
      ultimately show ?thesis using Flows T(1) BLabel by auto
    next
      case (BBranch a l1 l2 c)
      then show ?thesis using jump [of "if m_true M (env' c) then l1 else l2"] Flows T(1) by auto
    next
      case (BJump a l)
      then show ?thesis using jump [of l] Flows T(1) by auto
    next
      case (BVariantSwitch a x ls)
      show ?thesis
      proof (cases "m_variant M (env' x) mem' < length ls")
        case True
        then show ?thesis using jump [of "ls ! m_variant M (env' x) mem'"] Flows T(1) BVariantSwitch by auto
      next
        case False
        then show ?thesis using ends Flows T(1) BVariantSwitch by auto
      qed
    next
      case (BRet a ts)
      then show ?thesis using ends Flows T(1) by auto
    next
      case (BAbort a x)
      then show ?thesis using ends Flows T(1) by auto
    qed (use T(2) in auto)
  qed
  then show ?thesis by (simp only: reach_def)
qed

end
