(* ===== verification/Skeleton.thy ===== *)
theory Skeleton
  imports BytecodeCfg IR
begin

text \<open>
  The second phase of control flow reconstruction
  (\<open>stackless-to-intermediate/src/control_flow_reconstruction/skeleton_recovery.rs\<close>): the graph
  of blocks becomes a tree of blocks, conditionals, loops and switches.  The arms of a branch
  end at its immediate post-dominator, from where the code goes on.

  The four functions that build the tree call each other, and need not end: they take a fuel.
  The dominators come from the petgraph crate and are a parameter.  On code whose jumps go
  forward the tree is built and runs like the bytecode.
\<close>

section \<open>Skeletons\<close>

datatype Termination = TmReturn | TmAbort "IRNode option" | TmContinue nat | TmBreak nat

datatype Skeleton =
    SkBlock BlockCfg
  | SkSeq "Skeleton list"
  | SkTerm Termination
  | SkIf BlockCfg Skeleton Skeleton
  | SkWhile BlockCfg Skeleton
  | SkSwitch BlockCfg "Skeleton list"

record EnclosingLoop =
  el_header :: nat
  el_break_target :: nat

section \<open>Loops around a block\<close>

definition latest_backedge :: "LoopInfo \<Rightarrow> nat outcome" where
  "latest_backedge info = (if li_backedges info = [] then Panicked else Done (max_backedge info))"

definition loop_info :: "LoopInfo list \<Rightarrow> (Label \<rightharpoonup> nat) \<Rightarrow> nat \<Rightarrow> (nat \<times> nat option) option outcome" where
  "loop_info loops label_to_block block =
     (case List.find (\<lambda>info. li_header info = block) loops of
        None \<Rightarrow> Done None
      | Some info \<Rightarrow> omap (\<lambda>b. Some (b, Option.bind (li_exit info) label_to_block)) (latest_backedge info))"

definition find_convergence :: "(nat \<rightharpoonup> nat) \<Rightarrow> nat \<Rightarrow> nat \<Rightarrow> nat option" where
  "find_convergence post_doms branch_block end_block =
     (case post_doms branch_block of Some c \<Rightarrow> if c < end_block then Some c else None | None \<Rightarrow> None)"

text \<open>The innermost loop with the given header, as a level: \<open>0\<close> is the innermost loop.\<close>

definition enclosing_level :: "EnclosingLoop list \<Rightarrow> nat \<Rightarrow> nat option" where
  "enclosing_level enclosing target =
     map_option (\<lambda>i. length enclosing - 1 - i)
       (List.find (\<lambda>i. el_header (enclosing ! i) = target) (rev [0..<length enclosing]))"

definition continue_level_for :: "EnclosingLoop list \<Rightarrow> nat \<Rightarrow> nat" where
  "continue_level_for enclosing target_header =
     (case enclosing_level enclosing target_header of Some level \<Rightarrow> level | None \<Rightarrow> 0)"

definition break_level_for :: "EnclosingLoop list \<Rightarrow> nat \<Rightarrow> nat option" where
  "break_level_for enclosing target_block =
     (case rev enclosing of
        [] \<Rightarrow> None
      | innermost # outer \<Rightarrow>
          if target_block < el_break_target innermost then None
          else Some (length (takeWhile (\<lambda>frame. target_block \<ge> el_break_target frame) outer)))"

definition widen_round :: "LoopInfo list \<Rightarrow> nat \<Rightarrow> nat \<Rightarrow> (nat \<times> bool) outcome" where
  "widen_round loops header backedge =
     ofold (\<lambda>inner (backedge, grew).
         if li_header inner = header then Done (backedge, grew)
         else if li_header inner < header \<or> li_header inner > backedge then Done (backedge, grew)
         else omap (\<lambda>inner_max. if inner_max > backedge then (inner_max, True) else (backedge, grew)) (latest_backedge inner))
       loops (backedge, False)"

definition widen_backedge_past_nested_loops :: "LoopInfo list \<Rightarrow> nat \<Rightarrow> nat \<Rightarrow> nat outcome" where
  "widen_backedge_past_nested_loops loops header backedge =
     omap fst (loop snd (\<lambda>(backedge, _). widen_round loops header backedge) (backedge, True))"

section \<open>Building\<close>

record BuildContext =
  bx_temp_id :: "TempIndex \<Rightarrow> TempId"
  bx_blocks :: "BlockCfg list"
  bx_labels :: "Label \<rightharpoonup> nat"
  bx_loops :: "LoopInfo list"
  bx_post_doms :: "nat \<rightharpoonup> nat"
  bx_predecessors :: "nat \<rightharpoonup> nat list"

definition temp_to_var :: "BuildContext \<Rightarrow> TempIndex \<Rightarrow> IRNode" where
  "temp_to_var X t = IRVar (bx_temp_id X t)"

fun oany :: "('a \<Rightarrow> bool outcome) \<Rightarrow> 'a list \<Rightarrow> bool outcome" where
  "oany p [] = Done False"
| "oany p (x # xs) = obind (p x) (\<lambda>b. if b then Done True else oany p xs)"

definition block_exits_past :: "BuildContext \<Rightarrow> nat \<Rightarrow> nat \<Rightarrow> nat \<Rightarrow> bool outcome" where
  "block_exits_past X exit_block end_block idx =
     (let past = (\<lambda>t. t > exit_block \<and> t < end_block) in
      if idx < length (bx_blocks X) then
        (case bc_term (bx_blocks X ! idx) of
           TBranch _ _ then_label else_label \<Rightarrow>
             obind (at (bx_labels X) then_label) (\<lambda>then_target.
             obind (at (bx_labels X) else_label) (\<lambda>else_target. Done (past then_target \<or> past else_target)))
         | TJump target \<Rightarrow> omap past (at (bx_labels X) target)
         | TSwitch _ cases \<Rightarrow> oany (\<lambda>l. omap past (at (bx_labels X) l)) cases
         | _ \<Rightarrow> Done False)
      else Panicked)"

definition has_exits_past_exit_block :: "BuildContext \<Rightarrow> nat \<Rightarrow> nat \<Rightarrow> nat \<Rightarrow> bool outcome" where
  "has_exits_past_exit_block X header exit_block end_block =
     oany (block_exits_past X exit_block end_block) [header..<exit_block]"

text \<open>Blocks after the loop whose predecessors are all in it are taken into it.\<close>

definition absorb :: "BuildContext \<Rightarrow> nat \<Rightarrow> nat \<Rightarrow> nat option \<Rightarrow> nat \<Rightarrow> nat outcome" where
  "absorb X header end_block stop exit_block =
     omap fst (loop (\<lambda>(exit_block, going). going \<and> exit_block < end_block)
       (\<lambda>(exit_block, _).
          if stop = Some exit_block then Done (exit_block, False)
          else omap (\<lambda>preds. if list_all (\<lambda>p. p \<ge> header \<and> p < exit_block) preds then (exit_block + 1, True) else (exit_block, False))
            (at (bx_predecessors X) exit_block))
       (exit_block, True))"

definition loop_exit :: "BuildContext \<Rightarrow> nat \<Rightarrow> nat \<Rightarrow> nat \<Rightarrow> nat option \<Rightarrow> nat outcome" where
  "loop_exit X header backedge end_block semantic_exit =
     obind (widen_backedge_past_nested_loops (bx_loops X) header backedge) (\<lambda>backedge.
     obind (absorb X header end_block semantic_exit (backedge + 1)) (\<lambda>exit_block.
     obind (has_exits_past_exit_block X header exit_block end_block) (\<lambda>past.
       if past then absorb X header end_block None exit_block else Done exit_block)))"

text \<open>The bodies of the functions, over the functions that they call.\<close>

type_synonym builder = "nat \<Rightarrow> nat \<Rightarrow> EnclosingLoop list \<Rightarrow> Skeleton outcome"

definition build_while :: "BuildContext \<Rightarrow> builder \<Rightarrow> builder \<Rightarrow> nat \<Rightarrow> nat \<Rightarrow> nat \<Rightarrow> nat option \<Rightarrow> EnclosingLoop list \<Rightarrow> Skeleton outcome" where
  "build_while X from_in block_at header backedge end_block semantic_exit enclosing =
     obind (loop_exit X header backedge end_block semantic_exit) (\<lambda>exit_block.
     if header < length (bx_blocks X) then
       obind (block_at header exit_block (enclosing @ [\<lparr>el_header = header, el_break_target = exit_block\<rparr>])) (\<lambda>loop_body.
       let while_skel = SkWhile (bx_blocks X ! header) loop_body in
       if exit_block < end_block then
         omap (\<lambda>rest. SkSeq [while_skel, rest]) (from_in exit_block end_block enclosing)
       else Done while_skel)
     else Panicked)"

text \<open>A jump or an arm to a block is a continue, a break, or goes on in the block.\<close>

definition leave_loop :: "EnclosingLoop list \<Rightarrow> nat \<Rightarrow> Termination option" where
  "leave_loop enclosing target_block =
     (case enclosing_level enclosing target_block of
        Some level \<Rightarrow> Some (TmContinue level)
      | None \<Rightarrow> map_option TmBreak (break_level_for enclosing target_block))"

definition build_jump :: "builder \<Rightarrow> BlockCfg \<Rightarrow> nat \<Rightarrow> nat \<Rightarrow> EnclosingLoop list \<Rightarrow> nat \<Rightarrow> Skeleton outcome" where
  "build_jump from_in block idx end_block enclosing target_block =
     (case leave_loop enclosing target_block of
        Some t \<Rightarrow> Done (SkSeq [SkBlock block, SkTerm t])
      | None \<Rightarrow>
          if target_block \<ge> end_block then Done (SkBlock block)
          else if target_block > idx then
            omap (\<lambda>rest. SkSeq [SkBlock block, rest]) (from_in target_block end_block enclosing)
          else Done (SkSeq [SkBlock block, SkTerm (TmContinue 0)]))"

definition classify_arm :: "builder \<Rightarrow> nat \<Rightarrow> nat \<Rightarrow> EnclosingLoop list \<Rightarrow> Skeleton outcome" where
  "classify_arm from_in target_block sub_end enclosing =
     (case leave_loop enclosing target_block of
        Some t \<Rightarrow> Done (SkTerm t)
      | None \<Rightarrow> from_in target_block sub_end enclosing)"

definition build_join :: "builder \<Rightarrow> nat option \<Rightarrow> nat \<Rightarrow> EnclosingLoop list \<Rightarrow> Skeleton \<Rightarrow> Skeleton outcome" where
  "build_join from_in convergence end_block enclosing skel =
     (case convergence of
        Some conv \<Rightarrow> omap (\<lambda>rest. SkSeq [skel, rest]) (from_in conv end_block enclosing)
      | None \<Rightarrow> Done skel)"

definition build_terminator :: "BuildContext \<Rightarrow> builder \<Rightarrow> builder \<Rightarrow> BlockCfg \<Rightarrow> nat \<Rightarrow> nat \<Rightarrow> EnclosingLoop list \<Rightarrow> Skeleton outcome" where
  "build_terminator X from_in arm block idx end_block enclosing =
     (let convergence = find_convergence (bx_post_doms X) idx end_block;
          branch_end = (case convergence of Some c \<Rightarrow> c | None \<Rightarrow> end_block)
      in case bc_term block of
        TReturn _ \<Rightarrow> Done (SkSeq [SkBlock block, SkTerm TmReturn])
      | TAbort code_temp \<Rightarrow> Done (SkSeq [SkBlock block, SkTerm (TmAbort (map_option (temp_to_var X) code_temp))])
      | TContinue target_header \<Rightarrow> Done (SkSeq [SkBlock block, SkTerm (TmContinue (continue_level_for enclosing target_header))])
      | TFallthrough \<Rightarrow> (case break_level_for enclosing (idx + 1) of
          Some level \<Rightarrow> Done (SkSeq [SkBlock block, SkTerm (TmBreak level)])
        | None \<Rightarrow> omap (\<lambda>rest. SkSeq [SkBlock block, rest]) (from_in (idx + 1) end_block enclosing))
      | TJump target \<Rightarrow> obind (at (bx_labels X) target) (build_jump from_in block idx end_block enclosing)
      | TBranch _ _ then_label else_label \<Rightarrow>
          obind (at (bx_labels X) then_label) (\<lambda>then_start.
          obind (at (bx_labels X) else_label) (\<lambda>else_start.
          obind (arm then_start branch_end enclosing) (\<lambda>then_branch.
          obind (arm else_start branch_end enclosing) (\<lambda>else_branch.
            build_join from_in convergence end_block enclosing (SkIf block then_branch else_branch)))))
      | TSwitch _ cases \<Rightarrow>
          obind (osequence (map (\<lambda>label. obind (at (bx_labels X) label) (\<lambda>case_start. arm case_start branch_end enclosing)) cases))
            (\<lambda>case_skeletons. build_join from_in convergence end_block enclosing (SkSwitch block case_skeletons)))"

definition build_block_step :: "BuildContext \<Rightarrow> builder \<Rightarrow> builder" where
  "build_block_step X from_in idx end_block enclosing =
     (if idx \<ge> end_block then Done (SkSeq [])
      else if idx < length (bx_blocks X)
        then build_terminator X from_in (classify_arm from_in) (bx_blocks X ! idx) idx end_block enclosing
      else Panicked)"

definition build_from_in_step :: "BuildContext \<Rightarrow> builder \<Rightarrow> builder \<Rightarrow> builder" where
  "build_from_in_step X from_in block_at start end_block enclosing =
     (if start \<ge> end_block then Done (SkSeq [])
      else obind (loop_info (bx_loops X) (bx_labels X) start) (\<lambda>info. case info of
        Some (backedge, semantic_exit) \<Rightarrow> build_while X from_in block_at start backedge end_block semantic_exit enclosing
      | None \<Rightarrow> block_at start end_block enclosing))"

text \<open>The recursion: the two builders with \<open>k\<close> nested calls.\<close>

primrec build :: "BuildContext \<Rightarrow> nat \<Rightarrow> builder \<times> builder" where
  "build X 0 = (\<lambda>_ _ _. Diverged, \<lambda>_ _ _. Diverged)"
| "build X (Suc k) = (build_from_in_step X (fst (build X k)) (snd (build X k)), build_block_step X (fst (build X k)))"

definition build_from_in :: "BuildContext \<Rightarrow> nat \<Rightarrow> builder" where
  "build_from_in X k = fst (build X k)"

definition build_block :: "BuildContext \<Rightarrow> nat \<Rightarrow> builder" where
  "build_block X k = snd (build X k)"

lemma build_simps [simp]:
  "build_from_in X 0 start end_block enclosing = Diverged"
  "build_block X 0 start end_block enclosing = Diverged"
  "build_from_in X (Suc k) = build_from_in_step X (build_from_in X k) (build_block X k)"
  "build_block X (Suc k) = build_block_step X (build_from_in X k)"
  by (simp_all add: build_from_in_def build_block_def)

section \<open>Post-dominators\<close>

text \<open>The reversed graph has the super exit as node \<open>num_blocks\<close>, with edges to the blocks
  without successors.  \<open>simple_fast\<close> is the dominator algorithm of petgraph: from edges, root and
  node it answers the immediate dominator.\<close>

type_synonym dominator_fn = "(nat \<times> nat) list \<Rightarrow> nat \<Rightarrow> nat \<Rightarrow> nat option"

definition block_successors :: "nat list list \<Rightarrow> nat \<Rightarrow> nat list" where
  "block_successors cfg i = (if i < length cfg then cfg ! i else [])"

definition reversed_edges :: "nat list list \<Rightarrow> nat \<Rightarrow> (nat \<times> nat) list" where
  "reversed_edges cfg num_blocks = concat (map (\<lambda>i.
     let succs = block_successors cfg i in
     if succs = [] then [(num_blocks, i)]
     else map (\<lambda>j. (j, i)) (filter (\<lambda>j. j < num_blocks) succs)) [0..<num_blocks])"

definition compute_post_dominators :: "dominator_fn \<Rightarrow> nat list list \<Rightarrow> nat \<Rightarrow> nat \<rightharpoonup> nat" where
  "compute_post_dominators simple_fast cfg num_blocks =
     (\<lambda>i. if i < num_blocks then
        (case simple_fast (reversed_edges cfg num_blocks) num_blocks i of
           Some idom_node \<Rightarrow> if idom_node = num_blocks then None else Some idom_node
         | None \<Rightarrow> None)
      else None)"

definition block_predecessors :: "nat list list \<Rightarrow> nat \<Rightarrow> nat \<rightharpoonup> nat list" where
  "block_predecessors cfg num_blocks = (\<lambda>s. if s < num_blocks
     then Some (concat (map (\<lambda>i. map (\<lambda>_. i) (filter (\<lambda>j. j = s) (cfg ! i))) [0..<length cfg])) else None)"

definition recover :: "dominator_fn \<Rightarrow> (TempIndex \<Rightarrow> TempId) \<Rightarrow> nat \<Rightarrow> Bytecode list \<Rightarrow> Skeleton outcome" where
  "recover simple_fast temp_id fuel code = obind (discover_cfg code) (\<lambda>cfg.
     let num_blocks = length (cf_blocks cfg) in
     build_from_in \<lparr>bx_temp_id = temp_id, bx_blocks = cf_blocks cfg, bx_labels = cf_labels cfg, bx_loops = cf_loops cfg,
         bx_post_doms = compute_post_dominators simple_fast (cf_successors cfg) num_blocks,
         bx_predecessors = block_predecessors (cf_successors cfg) num_blocks\<rparr>
       fuel 0 num_blocks [])"

section \<open>What a skeleton does\<close>

text \<open>A skeleton falls through with the values of the last block, leaves the function, or goes on
  at a loop around it.  The fuel bounds the iterations of a loop.\<close>

datatype ('v, 'm) completion =
    Falls "'v locals" 'm "'v list"
  | Leaves "('v, 'm) result"
  | Breaks nat "'v locals" 'm
  | Continues nat "'v locals" 'm
  | OutOfFuel

fun return_values :: "Terminator \<Rightarrow> 'v locals \<Rightarrow> 'v list" where
  "return_values (TReturn ts) env = map env ts"
| "return_values _ env = []"

type_synonym ('v, 'm) execution = "'v locals \<Rightarrow> 'm \<Rightarrow> 'v list \<Rightarrow> ('v, 'm) completion"

fun in_sequence :: "('v, 'm) execution list \<Rightarrow> ('v, 'm) execution" where
  "in_sequence [] env mem vals = Falls env mem vals"
| "in_sequence (x # xs) env mem vals = (case x env mem vals of
     Falls env' mem' vals' \<Rightarrow> in_sequence xs env' mem' vals'
   | r \<Rightarrow> r)"

fun in_loop :: "('v, 'm) execution \<Rightarrow> nat \<Rightarrow> ('v, 'm) execution" where
  "in_loop x 0 env mem vals = OutOfFuel"
| "in_loop x (Suc n) env mem vals = (case x env mem vals of
     Falls _ _ _ \<Rightarrow> Leaves Stuck
   | Continues level env' mem' \<Rightarrow> if level = 0 then in_loop x n env' mem' [] else Continues (level - 1) env' mem'
   | Breaks level env' mem' \<Rightarrow> if level = 0 then Falls env' mem' [] else Breaks (level - 1) env' mem'
   | r \<Rightarrow> r)"

text \<open>A body, then what its terminator selects.\<close>

definition after_body :: "('v, 'm) flow \<Rightarrow> ('v locals \<Rightarrow> 'm \<Rightarrow> ('v, 'm) completion) \<Rightarrow> ('v, 'm) completion" where
  "after_body f k = (case f of Flows env mem \<Rightarrow> k env mem | Stops r \<Rightarrow> Leaves r)"

lemma after_body_simps [simp]: "after_body (Flows env mem) k = k env mem" "after_body (Stops r) k = Leaves r"
  by (simp_all add: after_body_def)

definition exec_mark :: "(TempId \<Rightarrow> TempIndex) \<Rightarrow> Termination \<Rightarrow> ('v, 'm) execution" where
  "exec_mark U t env mem vals = (case t of
     TmReturn \<Rightarrow> Leaves (Returned vals mem)
   | TmAbort c \<Rightarrow> (case c of Some (IRVar v) \<Rightarrow> Leaves (Aborted (env (U v)) mem) | _ \<Rightarrow> Leaves Stuck)
   | TmContinue level \<Rightarrow> Continues level env mem
   | TmBreak level \<Rightarrow> Breaks level env mem)"

primrec exec_skeleton :: "('v, 'm) machine \<Rightarrow> TempIndex set \<Rightarrow> Bytecode list \<Rightarrow> (TempId \<Rightarrow> TempIndex) \<Rightarrow> nat \<Rightarrow> Skeleton
      \<Rightarrow> ('v, 'm) execution" where
  "exec_skeleton M B code U n (SkBlock b) = (\<lambda>env mem vals.
     after_body (exec_body M B code b env mem) (\<lambda>env mem. Falls env mem (return_values (bc_term b) env)))"
| "exec_skeleton M B code U n (SkSeq sks) = in_sequence (map (exec_skeleton M B code U n) sks)"
| "exec_skeleton M B code U n (SkTerm t) = exec_mark U t"
| "exec_skeleton M B code U n (SkIf b then_branch else_branch) = (\<lambda>env mem vals.
     after_body (exec_body M B code b env mem) (\<lambda>env mem. case bc_term b of
       TBranch c neg _ _ \<Rightarrow>
         if m_true M (env c) \<noteq> neg then exec_skeleton M B code U n then_branch env mem []
         else exec_skeleton M B code U n else_branch env mem []
     | _ \<Rightarrow> Leaves Stuck))"
| "exec_skeleton M B code U n (SkWhile header loop_body) = in_loop (exec_skeleton M B code U n loop_body) n"
| "exec_skeleton M B code U n (SkSwitch b cases) = (\<lambda>env mem vals.
     after_body (exec_body M B code b env mem) (\<lambda>env mem. case bc_term b of
       TSwitch x _ \<Rightarrow>
         let v = m_variant M (env x) mem; xs = map (exec_skeleton M B code U n) cases in
         if v < length xs then (xs ! v) env mem [] else Leaves Stuck
     | _ \<Rightarrow> Leaves Stuck))"

end
