(* ===== verification/SkeletonRun.thy ===== *)
theory SkeletonRun
  imports Skeleton
begin

text \<open>
  The skeleton of code whose jumps go forward runs like the code.

  The blocks between a branch and its post-dominator are a region: every edge out of it goes to
  its end.  The builder is shown to keep this as it goes down, so that a skeleton that falls
  through is at the end of its region.
\<close>

section \<open>Blocks as a graph\<close>

text \<open>Edges go up, and every block has a path to one without successors.\<close>

definition edge :: "nat list list \<Rightarrow> nat \<Rightarrow> nat \<Rightarrow> bool" where
  "edge sc i j \<longleftrightarrow> i < length sc \<and> j \<in> set (sc ! i)"

definition upward :: "nat list list \<Rightarrow> bool" where
  "upward sc \<longleftrightarrow> (\<forall>i j. edge sc i j \<longrightarrow> i < j \<and> j < length sc)"

abbreviation walks_off :: "nat list list \<Rightarrow> nat \<Rightarrow> nat \<Rightarrow> nat \<Rightarrow> bool" where
  "walks_off sc c \<equiv> (\<lambda>i j. edge sc i j \<and> i \<noteq> c \<and> j \<noteq> c)\<^sup>*\<^sup>*"

abbreviation walks_below :: "nat list list \<Rightarrow> nat \<Rightarrow> nat \<Rightarrow> nat \<Rightarrow> bool" where
  "walks_below sc e \<equiv> (\<lambda>i j. edge sc i j \<and> i < e \<and> j < e)\<^sup>*\<^sup>*"

lemma upwardD: "upward sc \<Longrightarrow> edge sc i j \<Longrightarrow> i < j \<and> j < length sc"
  unfolding upward_def by blast

lemma walks_below_up: "walks_below sc e i j \<Longrightarrow> upward sc \<Longrightarrow> i \<le> j"
  by (induction rule: rtranclp_induct) (auto dest: upwardD)

lemma walks_below_off: "walks_below sc c i j \<Longrightarrow> walks_off sc c i j"
  by (induction rule: rtranclp_induct) (auto intro: rtranclp.rtrancl_into_rtrancl)

lemma walks_off_bound: "walks_off sc c i j \<Longrightarrow> upward sc \<Longrightarrow> i < length sc \<Longrightarrow> j < length sc"
  by (induction rule: rtranclp_induct) (auto dest: upwardD)

text \<open>A walk reaches the block or an exit without it.\<close>

lemma reach_or_exit:
  assumes u: "upward sc"
  shows "i < length sc \<Longrightarrow> i \<noteq> c \<Longrightarrow> i < c \<and> walks_below sc (c + 1) i c \<or> (\<exists>x. walks_off sc c i x \<and> x < length sc \<and> sc ! x = [])"
proof (induction "length sc - i" arbitrary: i rule: less_induct)
  case less
  show ?case
  proof (cases "sc ! i")
    case Nil
    then show ?thesis using less.prems by blast
  next
    case (Cons j js)
    then have e: "edge sc i j" using less.prems by (simp add: edge_def)
    then have j: "i < j" "j < length sc" using upwardD [OF u] by auto
    show ?thesis
    proof (cases "j = c")
      case True
      then show ?thesis using e j by auto
    next
      case False
      have "j < c \<and> walks_below sc (c + 1) j c \<or> (\<exists>x. walks_off sc c j x \<and> x < length sc \<and> sc ! x = [])"
        using less.hyps [of j] j False by simp
      then consider
        "j < c" "walks_below sc (c + 1) j c" | x where "walks_off sc c j x" "x < length sc" "sc ! x = []" by blast
      then show ?thesis
      proof cases
        case 1
        then have "walks_below sc (c + 1) i c" using e j by (intro converse_rtranclp_into_rtranclp [of _ i j]) auto
        then show ?thesis using 1 j by auto
      next
        case 2
        then have "walks_off sc c i x" using e False less.prems by (intro converse_rtranclp_into_rtranclp [of _ i j]) auto
        then show ?thesis using 2 by blast
      qed
    qed
  qed
qed

section \<open>Regions and post-dominators\<close>

definition region :: "nat list list \<Rightarrow> nat \<Rightarrow> nat \<Rightarrow> bool" where
  "region sc i e \<longleftrightarrow> i \<le> e \<and> (\<forall>k k'. i < e \<and> walks_below sc e i k \<and> edge sc k k' \<longrightarrow> k' \<le> e)"

definition post_dominates :: "nat list list \<Rightarrow> nat \<Rightarrow> nat \<Rightarrow> bool" where
  "post_dominates sc c i \<longleftrightarrow> c \<noteq> i \<and> (\<forall>x. walks_off sc c i x \<longrightarrow> x < length sc \<longrightarrow> sc ! x \<noteq> [])"

lemma post_dominates_below:
  assumes u: "upward sc" and pd: "post_dominates sc c i" and i: "i < length sc"
  shows "walks_off sc c i k \<Longrightarrow> k < c"
proof (rule ccontr)
  assume k: "walks_off sc c i k" and "\<not> k < c"
  moreover have "k \<noteq> c" using k pd by (cases rule: rtranclp.cases) (auto simp: post_dominates_def)
  moreover have "k < length sc" using walks_off_bound [OF k u i] .
  ultimately obtain x where x: "walks_off sc c k x" "x < length sc" "sc ! x = []"
    using reach_or_exit [OF u, of k c] by auto
  then have "walks_off sc c i x" using k by simp
  then show False using pd x unfolding post_dominates_def by blast
qed

lemma region_step:
  assumes u: "upward sc" and r: "region sc i e" and i: "i < e" and e: "edge sc i j"
  shows "region sc j e"
proof -
  have "j \<le> e" using r i e unfolding region_def by blast
  moreover have "k' \<le> e" if "j < e" "walks_below sc e j k" "edge sc k k'" for k k'
  proof -
    have "walks_below sc e i k" using that e i by (intro converse_rtranclp_into_rtranclp [of _ i j]) auto
    then show ?thesis using r i that(3) unfolding region_def by blast
  qed
  ultimately show ?thesis unfolding region_def by blast
qed

lemma region_arm:
  assumes u: "upward sc" and pd: "post_dominates sc c i" and i: "i < length sc" and e: "edge sc i j"
  shows "region sc j c"
proof -
  note below = post_dominates_below [OF u pd i]
  have ic: "i \<noteq> c" using pd by (auto simp: post_dominates_def)
  have off: "j \<noteq> c \<Longrightarrow> walks_off sc c i j" using e ic by auto
  have "j \<le> c" using below [OF off] by (cases "j = c") auto
  moreover have "k' \<le> c" if "j < c" "walks_below sc c j k" "edge sc k k'" for k k'
  proof (cases "k' = c")
    case False
    have k: "walks_off sc c i k" using that(1) by (intro rtranclp_trans [OF off walks_below_off [OF that(2)]]) simp
    moreover have "k \<noteq> c" using below [OF k] by simp
    ultimately have "walks_off sc c i k'" using that(3) False by (auto intro: rtranclp.rtrancl_into_rtrancl)
    then show ?thesis using below by fastforce
  qed simp
  ultimately show ?thesis unfolding region_def by blast
qed

lemma region_convergence:
  assumes u: "upward sc" and r: "region sc i e" and pd: "post_dominates sc c i" and i: "i < length sc" "i < e" and c: "c < e"
  shows "region sc c e"
proof -
  have "i \<noteq> c" using pd by (auto simp: post_dominates_def)
  then have "walks_below sc (c + 1) i c" using reach_or_exit [OF u i(1)] pd unfolding post_dominates_def by blast
  then have ic: "walks_below sc e i c" by (rule rtranclp_mono [THEN predicate2D, rotated]) (use c in auto)
  have "k' \<le> e" if "walks_below sc e c k" "edge sc k k'" for k k'
  proof -
    have "walks_below sc e i k" using ic that(1) by simp
    then show ?thesis using r i(2) that(2) unfolding region_def by blast
  qed
  then show ?thesis using c unfolding region_def by auto
qed

section \<open>Dominators of the reversed graph\<close>

text \<open>What petgraph documents of an immediate dominator: every path from the root to the node goes
  through it.  The closest one is not needed.\<close>

definition dominators_sound :: "dominator_fn \<Rightarrow> bool" where
  "dominators_sound simple_fast \<longleftrightarrow> (\<forall>edges root v c. simple_fast edges root v = Some c \<longrightarrow>
     c \<noteq> v \<and> (c = root \<or> \<not> (\<lambda>a b. (a, b) \<in> set edges \<and> a \<noteq> c \<and> b \<noteq> c)\<^sup>*\<^sup>* root v))"

lemma reversed_edge: "edge sc i j \<Longrightarrow> upward sc \<Longrightarrow> (j, i) \<in> set (reversed_edges sc (length sc))"
  unfolding reversed_edges_def
  by (auto simp: edge_def block_successors_def Let_def dest: upwardD [unfolded edge_def] intro!: bexI [of _ i])

lemma reversed_exit: "x < length sc \<Longrightarrow> sc ! x = [] \<Longrightarrow> (length sc, x) \<in> set (reversed_edges sc (length sc))"
  unfolding reversed_edges_def by (auto simp: block_successors_def Let_def intro!: bexI [of _ x])

lemma compute_post_dominators_sound:
  assumes D: "dominators_sound D" and u: "upward sc"
    and c: "compute_post_dominators D sc (length sc) i = Some c"
  shows "i < length sc \<and> post_dominates sc c i"
proof -
  let ?n = "length sc" and ?E = "reversed_edges sc (length sc)"
  have i: "i < ?n" and d: "D ?E ?n i = Some c" "c \<noteq> ?n"
    using c by (auto simp: compute_post_dominators_def split: if_splits option.splits)
  have ci: "c \<noteq> i" and none: "\<not> (\<lambda>a b. (a, b) \<in> set ?E \<and> a \<noteq> c \<and> b \<noteq> c)\<^sup>*\<^sup>* ?n i"
    using D d unfolding dominators_sound_def by blast+
  have returns: "(\<lambda>a b. (a, b) \<in> set ?E \<and> a \<noteq> c \<and> b \<noteq> c)\<^sup>*\<^sup>* x i" if "walks_off sc c i x" for x
    using that
  proof (induction rule: rtranclp_induct)
    case (step y z)
    then have "(z, y) \<in> set ?E \<and> z \<noteq> c \<and> y \<noteq> c" using reversed_edge [OF _ u] by blast
    then show ?case using step.IH by (rule converse_rtranclp_into_rtranclp [of "\<lambda>a b. (a, b) \<in> set ?E \<and> a \<noteq> c \<and> b \<noteq> c"])
  qed simp
  have "sc ! x \<noteq> []" if x: "walks_off sc c i x" "x < ?n" for x
  proof
    assume "sc ! x = []"
    moreover have "x \<noteq> c" using x(1) ci by (cases rule: rtranclp.cases) auto
    ultimately have "(?n, x) \<in> set ?E \<and> ?n \<noteq> c \<and> x \<noteq> c" using reversed_exit x(2) d(2) by auto
    then have "(\<lambda>a b. (a, b) \<in> set ?E \<and> a \<noteq> c \<and> b \<noteq> c)\<^sup>*\<^sup>* ?n i"
      using returns [OF x(1)] by (rule converse_rtranclp_into_rtranclp [of "\<lambda>a b. (a, b) \<in> set ?E \<and> a \<noteq> c \<and> b \<noteq> c"])
    then show False using none by blast
  qed
  then show ?thesis using i ci unfolding post_dominates_def by blast
qed


section \<open>Blocks of forward code\<close>

definition block_graph :: "Bytecode list \<Rightarrow> (Label \<rightharpoonup> CodeOffset) \<Rightarrow> BuildContext \<Rightarrow> nat list list \<Rightarrow> bool" where
  "block_graph code offs X sc \<longleftrightarrow> blocked code offs (bx_blocks X) (bx_labels X) \<and> label_offsets code = Done offs
     \<and> forward_jumps code offs \<and> code \<noteq> [] \<and> is_exit (last code) \<and> bx_loops X = [] \<and> length sc = length (bx_blocks X)
     \<and> (\<forall>i < length sc. successors_of (bx_labels X) (length sc) (i, bx_blocks X ! i) = Done (sc ! i))
     \<and> (\<forall>i c. bx_post_doms X i = Some c \<longrightarrow> i < length sc \<and> post_dominates sc c i)"

lemma label_forward:
  assumes b: "blocked code offs bs labels" and offs: "label_offsets code = Done offs" and f: "forward_jumps code offs"
    and exit: "code \<noteq> []" "is_exit (last code)" and i: "i < length bs" "bc_end (bs ! i) < length code"
    and l: "l \<in> set (branch_dests (code ! bc_end (bs ! i)))"
  shows "\<exists>j. labels l = Some j \<and> i < j \<and> inside code bs j"
proof -
  obtain q where q: "offs l = Some q" "bc_end (bs ! i) < q" using f i(2) l unfolding forward_jumps_def by blast
  obtain j where j: "labels l = Some j" "0 < j" "j < length bs" "bc_end (bs ! (j - 1)) = q"
    using label_block [OF b offs q(1), of undefined "{}" undefined undefined] by (elim exE conjE) (rule that)
  have "\<not> j - 1 \<le> i" using blocked_ends [OF b, of "j - 1" i] i(1) j(4) q(2) by auto
  then have ij: "i < j" by linarith
  obtain a where "code ! bc_end (bs ! (j - 1)) = BLabel a l" using b j(1) unfolding blocked_def by blast
  then have "inside code bs j" using label_inside [OF b exit j(2,3)] by blast
  then show ?thesis using j(1) ij by blast
qed

text \<open>The edges of a block, by its terminator.\<close>

definition edges_of_term :: "(Label \<rightharpoonup> nat) \<Rightarrow> nat \<Rightarrow> Terminator \<Rightarrow> nat list \<Rightarrow> bool" where
  "edges_of_term labels i t js \<longleftrightarrow> (case t of
        TBranch c neg t e \<Rightarrow> \<exists>tj ej. labels t = Some tj \<and> labels e = Some ej \<and> js = [tj, ej]
      | TSwitch x ls \<Rightarrow> map labels ls = map Some js
      | TFallthrough \<Rightarrow> js = [i + 1]
      | TJump l \<Rightarrow> \<exists>j. labels l = Some j \<and> js = [j]
      | TContinue _ \<Rightarrow> False
      | TAbort x \<Rightarrow> x \<noteq> None \<and> js = []
      | TReturn _ \<Rightarrow> js = [])"

lemma block_successors_Done:
  assumes b: "blocked code offs bs labels" and offs: "label_offsets code = Done offs" and f: "forward_jumps code offs"
    and exit: "code \<noteq> []" "is_exit (last code)" and il: "i < length bs"
  shows "\<exists>js. successors_of labels (length bs) (i, bs ! i) = Done js \<and> (\<forall>j\<in>set js. i < j \<and> inside code bs j)
    \<and> edges_of_term labels i (bc_term (bs ! i)) js"
proof -
  note B = blockedD [OF b il]
  let ?c = "code ! bc_end (bs ! i)"
  show ?thesis
  proof (cases "bc_end (bs ! i) < length code")
    case False
    then have "bc_term (bs ! i) = TReturn []" using B(4) by auto
    then show ?thesis by (simp add: successors_of_def edges_of_term_def)
  next
    case True
    then have T: "bc_term (bs ! i) = term_of ?c" "is_control ?c" using B(4) by auto
    have F: "\<exists>j. labels l = Some j \<and> i < j \<and> inside code bs j" if "l \<in> set (branch_dests ?c)" for l
      using label_forward [OF b offs f exit il True that] .
    have G: "\<exists>js. map labels ls = map Some js \<and> (\<forall>j\<in>set js. i < j \<and> inside code bs j)"
      if "set ls \<subseteq> set (branch_dests ?c)" for ls
      using that
    proof (induction ls)
      case (Cons l ls)
      then obtain js where js: "map labels ls = map Some js" "\<forall>j\<in>set js. i < j \<and> inside code bs j" by auto
      obtain j where "labels l = Some j" "i < j" "inside code bs j" using F [of l] Cons.prems by auto
      then show ?case using js by (intro exI [of _ "j # js"]) auto
    qed simp
    show ?thesis
    proof (cases "?c")
      case (BLabel a l)
      then have n: "i + 1 < length bs" using B(5) T by simp
      moreover have "inside code bs (i + 1)" using label_inside [OF b exit _ n, of a l] BLabel by simp
      ultimately show ?thesis using T BLabel by (simp add: successors_of_def edges_of_term_def)
    next
      case (BBranch a l1 l2 c)
      then obtain j1 j2 where "labels l1 = Some j1" "i < j1" "inside code bs j1" "labels l2 = Some j2" "i < j2" "inside code bs j2"
        using F by (metis branch_dests.simps(1) list.set_intros(1,2))
      then show ?thesis using T BBranch by (simp add: successors_of_def edges_of_term_def)
    next
      case (BJump a l)
      then obtain j where "labels l = Some j" "i < j" "inside code bs j" using F [of l] by auto
      then show ?thesis using T BJump by (simp add: successors_of_def edges_of_term_def)
    next
      case (BVariantSwitch a x ls)
      then obtain js where js: "map labels ls = map Some js" "\<forall>j\<in>set js. i < j \<and> inside code bs j" using G [of ls] by auto
      have "map (at labels) ls = map Done js" using js(1) by (auto simp: list_eq_iff_nth_eq)
      then have "osequence (map (at labels) ls) = Done js" by (simp only: osequence_Done_iff)
      then show ?thesis using js T BVariantSwitch by (simp add: successors_of_def edges_of_term_def)
    qed (use T in \<open>auto simp: successors_of_def edges_of_term_def\<close>)
  qed
qed

lemma block_edges:
  assumes g: "block_graph code offs X sc" and i: "i < length sc"
  shows "(\<forall>j\<in>set (sc ! i). i < j \<and> inside code (bx_blocks X) j) \<and> edges_of_term (bx_labels X) i (bc_term (bx_blocks X ! i)) (sc ! i)"
proof -
  have "successors_of (bx_labels X) (length (bx_blocks X)) (i, bx_blocks X ! i) = Done (sc ! i)"
    using g i unfolding block_graph_def by metis
  moreover have "i < length (bx_blocks X)" using g i by (simp add: block_graph_def)
  then obtain js where "successors_of (bx_labels X) (length (bx_blocks X)) (i, bx_blocks X ! i) = Done js"
    "(\<forall>j\<in>set js. i < j \<and> inside code (bx_blocks X) j) \<and> edges_of_term (bx_labels X) i (bc_term (bx_blocks X ! i)) js"
    using block_successors_Done [of code offs "bx_blocks X" "bx_labels X" i] g by (auto simp: block_graph_def)
  ultimately show ?thesis by simp
qed

lemma block_graph_upward: "block_graph code offs X sc \<Longrightarrow> upward sc"
  using block_edges unfolding upward_def edge_def by (metis block_graph_def inside_def)

section \<open>Skeletons that agree with the code\<close>

definition reaches :: "('v, 'm) machine \<Rightarrow> TempIndex set \<Rightarrow> Bytecode list \<Rightarrow> (Label \<rightharpoonup> CodeOffset) \<Rightarrow> ('v, 'm) result \<Rightarrow> ('v, 'm) result \<Rightarrow> bool" where
  "reaches M B code offs r r' \<longleftrightarrow> (\<exists>m. run M B code offs m r = r')"

lemma reaches_refl: "reaches M B code offs r r"
  unfolding reaches_def by (rule exI [of _ 0]) simp

lemma reaches_trans: "reaches M B code offs r r' \<Longrightarrow> reaches M B code offs r' r'' \<Longrightarrow> reaches M B code offs r r''"
  unfolding reaches_def by (metis run_add)

definition agrees :: "('v, 'm) machine \<Rightarrow> TempIndex set \<Rightarrow> Bytecode list \<Rightarrow> (Label \<rightharpoonup> CodeOffset) \<Rightarrow> (TempId \<Rightarrow> TempIndex) \<Rightarrow> BlockCfg list
    \<Rightarrow> nat \<Rightarrow> nat \<Rightarrow> Skeleton \<Rightarrow> bool" where
  "agrees M B code offs U bs i e sk \<longleftrightarrow> (\<forall>n env mem vals. case exec_skeleton M B code U n sk env mem vals of
      Falls env' mem' _ \<Rightarrow> inside code bs e \<and> reaches M B code offs (Running (bc_start (bs ! i)) env mem) (Running (bc_start (bs ! e)) env' mem')
    | Leaves r \<Rightarrow> \<not> is_running r \<and> reaches M B code offs (Running (bc_start (bs ! i)) env mem) r
    | _ \<Rightarrow> False)"

lemma agrees_empty: "inside code bs i \<Longrightarrow> agrees M B code offs U bs i i (SkSeq [])"
  by (simp add: agrees_def reaches_refl)

lemma agrees_seq:
  assumes a: "agrees M B code offs U bs i c sk" and r: "agrees M B code offs U bs c e rest"
  shows "agrees M B code offs U bs i e (SkSeq [sk, rest])"
  unfolding agrees_def
proof (intro allI)
  fix n env mem vals
  have A: "case exec_skeleton M B code U n sk env mem vals of
      Falls env' mem' _ \<Rightarrow> inside code bs c \<and> reaches M B code offs (Running (bc_start (bs ! i)) env mem) (Running (bc_start (bs ! c)) env' mem')
    | Leaves r \<Rightarrow> \<not> is_running r \<and> reaches M B code offs (Running (bc_start (bs ! i)) env mem) r
    | _ \<Rightarrow> False" using a unfolding agrees_def by blast
  show "case exec_skeleton M B code U n (SkSeq [sk, rest]) env mem vals of
      Falls env' mem' _ \<Rightarrow> inside code bs e \<and> reaches M B code offs (Running (bc_start (bs ! i)) env mem) (Running (bc_start (bs ! e)) env' mem')
    | Leaves r \<Rightarrow> \<not> is_running r \<and> reaches M B code offs (Running (bc_start (bs ! i)) env mem) r
    | _ \<Rightarrow> False"
  proof (cases "exec_skeleton M B code U n sk env mem vals")
    case (Falls env' mem' vals')
    then have to_c: "reaches M B code offs (Running (bc_start (bs ! i)) env mem) (Running (bc_start (bs ! c)) env' mem')" using A by simp
    show ?thesis using spec [OF spec [OF spec [OF spec [OF r [unfolded agrees_def], of n], of env'], of mem'], of vals'] reaches_trans [OF to_c] Falls
      by (cases "exec_skeleton M B code U n rest env' mem' vals'") auto
  qed (use A in auto)
qed

text \<open>A block followed by its terminator.\<close>

lemma block_edge:
  assumes g: "block_graph code offs X sc" and i: "inside code (bx_blocks X) i"
    and T: "exec_term M (bx_labels X) i (bc_term (bx_blocks X ! i)) env mem = ToBlock j"
  shows "edge sc i j"
proof -
  have il: "i < length sc" using g i by (simp add: block_graph_def inside_def)
  note E = block_edges [OF g il, unfolded edges_of_term_def]
  show ?thesis
  proof (cases "bc_term (bx_blocks X ! i)")
    case (TSwitch x ls)
    then have "map (bx_labels X) ls = map Some (sc ! i)" and m: "m_variant M (env x) mem < length ls"
      "bx_labels X (ls ! m_variant M (env x) mem) = Some j"
      using E T by (auto split: if_splits option.splits)
    then have "sc ! i ! m_variant M (env x) mem = j" "length (sc ! i) = length ls"
      by (metis length_map nth_map option.inject)+
    then show ?thesis using m(1) il unfolding edge_def by (metis nth_mem)
  qed (use E T il in \<open>auto simp: edge_def split: if_splits\<close>)
qed

lemma block_reaches:
  assumes g: "block_graph code offs X sc" and i: "inside code (bx_blocks X) i"
  shows "case exec_body M B code (bx_blocks X ! i) env mem of
      Stops r \<Rightarrow> \<not> is_running r \<and> reaches M B code offs (Running (bc_start (bx_blocks X ! i)) env mem) r
    | Flows env' mem' \<Rightarrow> (case exec_term M (bx_labels X) i (bc_term (bx_blocks X ! i)) env' mem' of
        Ends r \<Rightarrow> \<not> is_running r \<and> reaches M B code offs (Running (bc_start (bx_blocks X ! i)) env mem) r
      | ToBlock j \<Rightarrow> inside code (bx_blocks X) j
          \<and> reaches M B code offs (Running (bc_start (bx_blocks X ! i)) env mem) (Running (bc_start (bx_blocks X ! j)) env' mem'))"
proof -
  have b: "blocked code offs (bx_blocks X) (bx_labels X)" "label_offsets code = Done offs" "forward_jumps code offs"
    "code \<noteq> []" "is_exit (last code)" using g by (auto simp: block_graph_def)
  show ?thesis using block_run [OF b i, of M B env mem] unfolding reaches_def [symmetric]
    by (auto split: flow.splits exit.splits)
qed

lemma agrees_block:
  assumes g: "block_graph code offs X sc" and i: "inside code (bx_blocks X) i"
    and T: "\<And>env mem. exec_term M (bx_labels X) i (bc_term (bx_blocks X ! i)) env mem = ToBlock j"
  shows "agrees M B code offs U (bx_blocks X) i j (SkBlock (bx_blocks X ! i))"
  using block_reaches [OF g i, of M B] unfolding agrees_def by (fastforce simp: T after_body_def exec_mark_def split: flow.splits)

lemma agrees_return:
  assumes g: "block_graph code offs X sc" and i: "inside code (bx_blocks X) i" and T: "bc_term (bx_blocks X ! i) = TReturn ts"
  shows "agrees M B code offs U (bx_blocks X) i e (SkSeq [SkBlock (bx_blocks X ! i), SkTerm TmReturn])"
  using block_reaches [OF g i, of M B] unfolding agrees_def by (fastforce simp: T after_body_def exec_mark_def split: flow.splits)

lemma agrees_abort:
  assumes g: "block_graph code offs X sc" and i: "inside code (bx_blocks X) i" and T: "bc_term (bx_blocks X ! i) = TAbort (Some x)"
    and U: "U (bx_temp_id X x) = x"
  shows "agrees M B code offs U (bx_blocks X) i e (SkSeq [SkBlock (bx_blocks X ! i), SkTerm (TmAbort (Some (temp_to_var X x)))])"
  using block_reaches [OF g i, of M B] unfolding agrees_def by (fastforce simp: T U temp_to_var_def after_body_def exec_mark_def split: flow.splits)

text \<open>Branches: an arm goes on from the start of its block.\<close>

lemma agrees_arm:
  assumes a: "agrees M B code offs U bs j e sk"
    and r: "reaches M B code offs (Running (bc_start (bs ! i)) env mem) (Running (bc_start (bs ! j)) env' mem')"
  shows "case exec_skeleton M B code U n sk env' mem' vals of
      Falls env'' mem'' _ \<Rightarrow> inside code bs e \<and> reaches M B code offs (Running (bc_start (bs ! i)) env mem) (Running (bc_start (bs ! e)) env'' mem'')
    | Leaves r \<Rightarrow> \<not> is_running r \<and> reaches M B code offs (Running (bc_start (bs ! i)) env mem) r
    | _ \<Rightarrow> False"
  using spec [OF spec [OF spec [OF spec [OF a [unfolded agrees_def], of n], of env'], of mem'], of vals] reaches_trans [OF r]
  by (cases "exec_skeleton M B code U n sk env' mem' vals") auto

lemma agrees_if:
  assumes g: "block_graph code offs X sc" and i: "inside code (bx_blocks X) i" and T: "bc_term (bx_blocks X ! i) = TBranch c neg t e"
    and l: "bx_labels X t = Some tj" "bx_labels X e = Some ej"
    and a: "agrees M B code offs U (bx_blocks X) tj q then_branch" "agrees M B code offs U (bx_blocks X) ej q else_branch"
  shows "agrees M B code offs U (bx_blocks X) i q (SkIf (bx_blocks X ! i) then_branch else_branch)"
  unfolding agrees_def
proof (intro allI)
  fix n env mem vals
  note R = block_reaches [OF g i, of M B env mem]
  show "case exec_skeleton M B code U n (SkIf (bx_blocks X ! i) then_branch else_branch) env mem vals of
      Falls env' mem' _ \<Rightarrow> inside code (bx_blocks X) q \<and> reaches M B code offs (Running (bc_start (bx_blocks X ! i)) env mem) (Running (bc_start (bx_blocks X ! q)) env' mem')
    | Leaves r \<Rightarrow> \<not> is_running r \<and> reaches M B code offs (Running (bc_start (bx_blocks X ! i)) env mem) r
    | _ \<Rightarrow> False"
  proof (cases "exec_body M B code (bx_blocks X ! i) env mem")
    case (Flows env' mem')
    show ?thesis
    proof (cases "m_true M (env' c) \<noteq> neg")
      case True
      then show ?thesis using R T l agrees_arm [OF a(1), of i env mem env' mem' n "[]"] Flows by simp
    next
      case False
      then show ?thesis using R T l agrees_arm [OF a(2), of i env mem env' mem' n "[]"] Flows by simp
    qed
  qed (use R in simp)
qed

lemma agrees_switch:
  assumes g: "block_graph code offs X sc" and i: "inside code (bx_blocks X) i" and T: "bc_term (bx_blocks X ! i) = TSwitch x ls"
    and l: "map (bx_labels X) ls = map Some js"
    and a: "length sks = length js" "\<And>v. v < length js \<Longrightarrow> agrees M B code offs U (bx_blocks X) (js ! v) q (sks ! v)"
  shows "agrees M B code offs U (bx_blocks X) i q (SkSwitch (bx_blocks X ! i) sks)"
  unfolding agrees_def
proof (intro allI)
  fix n env mem vals
  note R = block_reaches [OF g i, of M B env mem]
  have len: "length ls = length js" using l by (metis length_map)
  show "case exec_skeleton M B code U n (SkSwitch (bx_blocks X ! i) sks) env mem vals of
      Falls env' mem' _ \<Rightarrow> inside code (bx_blocks X) q \<and> reaches M B code offs (Running (bc_start (bx_blocks X ! i)) env mem) (Running (bc_start (bx_blocks X ! q)) env' mem')
    | Leaves r \<Rightarrow> \<not> is_running r \<and> reaches M B code offs (Running (bc_start (bx_blocks X ! i)) env mem) r
    | _ \<Rightarrow> False"
  proof (cases "exec_body M B code (bx_blocks X ! i) env mem")
    case (Flows env' mem')
    let ?v = "m_variant M (env' x) mem'"
    show ?thesis
    proof (cases "?v < length js")
      case True
      then have "bx_labels X (ls ! ?v) = Some (js ! ?v)" using l len by (metis length_map nth_map)
      then show ?thesis using R T len a(1) agrees_arm [OF a(2) [OF True], of i env mem env' mem' n "[]"] Flows True
        by simp
    next
      case False
      then show ?thesis using R T len a(1) Flows by simp
    qed
  qed (use R in simp)
qed

section \<open>The builder\<close>

lemma no_loop [simp]:
  "loop_info [] labels i = Done None" "leave_loop [] t = None" "break_level_for [] t = None" "classify_arm F t e [] = F t e []"
  by (simp_all add: loop_info_def leave_loop_def enclosing_level_def break_level_for_def classify_arm_def)

lemma build_agrees:
  assumes g: "block_graph code offs X sc" and U: "\<And>x. U (bx_temp_id X x) = x"
  shows "inside code (bx_blocks X) i \<Longrightarrow> region sc i e \<Longrightarrow>
    \<exists>sk. (\<forall>k \<ge> 2 * (length sc - i). build_from_in X k i e [] = Done sk) \<and> agrees M B code offs U (bx_blocks X) i e sk"
proof (induction "length sc - i" arbitrary: i e rule: less_induct)
  case less
  let ?A = "agrees M B code offs U (bx_blocks X)" and ?b = "bx_blocks X ! i" and ?m = "2 * (length sc - i) - 2"
  have len: "length sc = length (bx_blocks X)" and pd: "\<And>i c. bx_post_doms X i = Some c \<Longrightarrow> post_dominates sc c i"
    using g by (auto simp: block_graph_def)
  have il: "i < length sc" using less.prems(1) len by (simp add: inside_def)
  have u: "upward sc" using block_graph_upward [OF g] .
  note E = block_edges [OF g il, unfolded edges_of_term_def]
  have succ: "i < j \<and> inside code (bx_blocks X) j \<and> edge sc i j" if "j \<in> set (sc ! i)" for j
    using E that il by (auto simp: edge_def)
  have IH: "\<exists>sk. (\<forall>k \<ge> ?m. build_from_in X k j e' [] = Done sk) \<and> ?A j e' sk"
    if j: "i < j" "inside code (bx_blocks X) j" "region sc j e'" for j e'
  proof -
    have "length sc - j < length sc - i" using j(1) il by linarith
    then obtain sk where sk: "\<forall>k \<ge> 2 * (length sc - j). build_from_in X k j e' [] = Done sk" "?A j e' sk"
      using less.hyps [OF _ j(2,3)] by blast
    have "2 * (length sc - j) \<le> ?m" using j(1) il by linarith
    then have "\<forall>k \<ge> ?m. build_from_in X k j e' [] = Done sk" using sk(1) by (meson le_trans)
    then show ?thesis using sk(2) by blast
  qed
  show ?case
  proof (cases "i < e")
    case False
    then have "i = e" using less.prems(2) by (simp add: region_def)
    moreover have "build_from_in X k i i [] = Done (SkSeq [])" if "2 * (length sc - i) \<le> k" for k
      using that il by (cases k) (auto simp: build_from_in_step_def)
    ultimately show ?thesis using agrees_empty [OF less.prems(1)] by blast
  next
    case True
    have step: "build_from_in X k i e [] = build_terminator X (build_from_in X (k - 2)) (classify_arm (build_from_in X (k - 2))) ?b i e [] \<and> ?m \<le> k - 2"
      if k: "2 * (length sc - i) \<le> k" for k
    proof -
      have "2 \<le> k" using k il by simp
      then obtain k' where k': "k = Suc (Suc k')" by (metis Suc_le_D numeral_2_eq_2 Suc_le_mono)
      have loops: "bx_loops X = []" using g by (simp add: block_graph_def)
      have "?m \<le> k'" using k k' by simp
      then show ?thesis using True il unfolding k' len by (simp add: build_from_in_step_def build_block_step_def loops)
    qed
    have to: "\<exists>sk. (\<forall>k \<ge> 2 * (length sc - i). build_from_in X k i e [] = Done sk) \<and> ?A i e sk"
      if "\<And>k. ?m \<le> k \<Longrightarrow> build_terminator X (build_from_in X k) (classify_arm (build_from_in X k)) ?b i e [] = Done sk" "?A i e sk" for sk
      using step that by (intro exI [of _ sk]) auto
    have next_block: "\<exists>rest. (\<forall>k \<ge> ?m. build_from_in X k j e [] = Done rest) \<and> ?A j e rest" if "j \<in> set (sc ! i)" for j
      using IH succ [OF that] region_step [OF u less.prems(2) True] by blast
    let ?conv = "find_convergence (bx_post_doms X) i e"
    define q where "q = (case ?conv of Some c \<Rightarrow> c | None \<Rightarrow> e)"
    have arm: "\<exists>sk. (\<forall>k \<ge> ?m. build_from_in X k j q [] = Done sk) \<and> ?A j q sk" if j: "j \<in> set (sc ! i)" for j
    proof (cases ?conv)
      case None
      then show ?thesis using next_block [OF j] by (simp add: q_def)
    next
      case (Some c)
      then have "post_dominates sc c i" using pd by (auto simp: find_convergence_def split: option.splits if_splits)
      then show ?thesis using IH succ [OF j] region_arm [OF u _ il] Some by (simp add: q_def)
    qed
    have join: "\<exists>sk'. (\<forall>k \<ge> ?m. build_join (build_from_in X k) ?conv e [] sk = Done sk') \<and> ?A i e sk'"
      if sk: "?A i q sk" and some: "sc ! i \<noteq> []" for sk
    proof (cases ?conv)
      case None
      then show ?thesis using sk by (auto simp: q_def build_join_def)
    next
      case (Some c)
      then have c: "post_dominates sc c i" "c < e" using pd by (auto simp: find_convergence_def split: option.splits if_splits)
      have ic: "i < c" using post_dominates_below [OF u c(1) il, of i] by simp
      have r: "region sc c e" by (rule region_convergence [OF u less.prems(2) c(1) il True c(2)])
      have "walks_below sc (c + 1) i c" using reach_or_exit [OF u il, of c] ic c(1) unfolding post_dominates_def by blast
      then obtain k where "edge sc k c" using ic by (cases rule: rtranclp.cases) auto
      then have "inside code (bx_blocks X) c" using block_edges [OF g] unfolding edge_def by blast
      then obtain rest where rest: "\<forall>k \<ge> ?m. build_from_in X k c e [] = Done rest" "?A c e rest" using IH [OF ic _ r] by blast
      have "?A i e (SkSeq [sk, rest])" using agrees_seq [OF _ rest(2)] sk Some by (simp add: q_def)
      then show ?thesis using rest(1) Some by (auto simp: build_join_def)
    qed
    show ?thesis
    proof (cases "bc_term ?b")
      case (TReturn ts)
      show ?thesis by (rule to [OF _ agrees_return [OF g less.prems(1) TReturn]]) (simp add: build_terminator_def TReturn)
    next
      case (TAbort x)
      then obtain y where y: "bc_term ?b = TAbort (Some y)" using E by auto
      show ?thesis by (rule to [OF _ agrees_abort [where U = U, OF g less.prems(1) y U]]) (simp add: build_terminator_def y)
    next
      case TFallthrough
      then obtain rest where rest: "\<forall>k \<ge> ?m. build_from_in X k (i + 1) e [] = Done rest" "?A (i + 1) e rest"
        using next_block [of "i + 1"] E by auto
      have "?A i (i + 1) (SkBlock ?b)" by (rule agrees_block [OF g less.prems(1)]) (simp add: TFallthrough)
      then show ?thesis using rest(1) by (intro to [OF _ agrees_seq [OF _ rest(2)]]) (simp_all add: build_terminator_def TFallthrough)
    next
      case (TJump l)
      then obtain j where j: "bx_labels X l = Some j" "sc ! i = [j]" using E by auto
      then obtain rest where rest: "\<forall>k \<ge> ?m. build_from_in X k j e [] = Done rest" "?A j e rest" using next_block [of j] by auto
      have b: "?A i j (SkBlock ?b)" by (rule agrees_block [OF g less.prems(1)]) (simp add: TJump j)
      have ij: "i < j" "j \<le> e" using succ [of j] region_step [OF u less.prems(2) True, of j] j by (auto simp: region_def)
      show ?thesis
      proof (cases "j < e")
        case True
        then show ?thesis using rest(1) ij b
          by (intro to [OF _ agrees_seq [OF _ rest(2)]]) (simp_all add: build_terminator_def TJump j build_jump_def)
      next
        case False
        then have "j = e" using ij by simp
        then show ?thesis using b by (intro to [where sk = "SkBlock ?b"]) (simp_all add: build_terminator_def TJump j build_jump_def)
      qed
    next
      case (TBranch c neg t l)
      then obtain tj ej where j: "bx_labels X t = Some tj" "bx_labels X l = Some ej" "sc ! i = [tj, ej]" using E by auto
      obtain t' e' where a: "\<forall>k \<ge> ?m. build_from_in X k tj q [] = Done t'" "?A tj q t'"
        "\<forall>k \<ge> ?m. build_from_in X k ej q [] = Done e'" "?A ej q e'" using arm [of tj] arm [of ej] j(3) by auto
      obtain sk where sk: "\<forall>k \<ge> ?m. build_join (build_from_in X k) ?conv e [] (SkIf ?b t' e') = Done sk" "?A i e sk"
        using join [OF agrees_if [OF g less.prems(1) TBranch j(1,2) a(2,4)]] j(3) by auto
      show ?thesis by (rule to [OF _ sk(2)]) (use a(1,3) sk(1) in \<open>simp add: build_terminator_def TBranch j q_def [symmetric]\<close>)
    next
      case (TSwitch x ls)
      then have l: "map (bx_labels X) ls = map Some (sc ! i)" using E by simp
      have "\<forall>v < length (sc ! i). \<exists>sk. (\<forall>k \<ge> ?m. build_from_in X k (sc ! i ! v) q [] = Done sk) \<and> ?A (sc ! i ! v) q sk"
        using arm by simp
      then obtain f where f: "\<And>v. v < length (sc ! i) \<Longrightarrow> (\<forall>k \<ge> ?m. build_from_in X k (sc ! i ! v) q [] = Done (f v)) \<and> ?A (sc ! i ! v) q (f v)"
        by metis
      let ?sks = "map f [0..<length (sc ! i)]"
      have len_ls: "length ls = length (sc ! i)" using l by (metis length_map)
      have arms: "osequence (map (\<lambda>label. obind (at (bx_labels X) label) (\<lambda>j. build_from_in X k j q [])) ls) = Done ?sks" if k: "?m \<le> k" for k
        unfolding osequence_Done_iff
      proof (rule nth_equalityI)
        fix v assume "v < length (map (\<lambda>label. obind (at (bx_labels X) label) (\<lambda>j. build_from_in X k j q [])) ls)"
        then have v: "v < length (sc ! i)" using len_ls by simp
        then have "bx_labels X (ls ! v) = Some (sc ! i ! v)" using l len_ls by (metis length_map nth_map)
        then show "map (\<lambda>label. obind (at (bx_labels X) label) (\<lambda>j. build_from_in X k j q [])) ls ! v = map Done ?sks ! v"
          using f [OF v] k v len_ls by simp
      qed (simp add: len_ls)
      have sw: "?A i q (SkSwitch ?b ?sks)" by (rule agrees_switch [OF g less.prems(1) TSwitch l]) (use f in auto)
      have "\<exists>sk'. (\<forall>k \<ge> ?m. build_join (build_from_in X k) ?conv e [] (SkSwitch ?b ?sks) = Done sk') \<and> ?A i e sk'"
      proof (cases "sc ! i = []")
        case False
        then show ?thesis using join [OF sw] by blast
      next
        case True
        have "\<not> post_dominates sc c i" for c using True il unfolding post_dominates_def by blast
        then have "?conv = None" using pd by (auto simp: find_convergence_def split: option.splits)
        then show ?thesis using sw by (auto simp: build_join_def q_def)
      qed
      then obtain sk where sk: "\<forall>k \<ge> ?m. build_join (build_from_in X k) ?conv e [] (SkSwitch ?b ?sks) = Done sk" "?A i e sk" by blast
      show ?thesis by (rule to [OF _ sk(2)]) (use arms sk(1) in \<open>simp add: build_terminator_def TSwitch q_def [symmetric]\<close>)
    next
      case (TContinue h)
      then show ?thesis using E by simp
    qed
  qed
qed

section \<open>Recovery of forward code\<close>

lemma blocks_bound:
  assumes b: "blocked code offs bs labels"
  shows "length bs \<le> length code + 1"
proof -
  have "i \<le> bc_start (bs ! i)" if "i < length bs" for i
    using that
  proof (induction i)
    case (Suc i)
    then show ?case using blockedD(1) [OF b Suc.prems] blockedD(2) [OF b, of i] by simp
  qed simp
  moreover have ne: "bs \<noteq> []" using b unfolding blocked_def by blast
  ultimately have "length bs - 1 \<le> bc_start (bs ! (length bs - 1))" by simp
  also have "\<dots> \<le> length code" using blockedD(2,4) [OF b, of "length bs - 1"] ne by auto
  finally show ?thesis by simp
qed

lemma discover_forward:
  assumes offs: "label_offsets code = Done offs" and f: "forward_jumps code offs" and exit: "code \<noteq> []" "is_exit (last code)"
  shows "\<exists>cfg. discover_cfg code = Done cfg \<and> blocked code offs (cf_blocks cfg) (cf_labels cfg) \<and> cf_loops cfg = []
    \<and> length (cf_successors cfg) = length (cf_blocks cfg)
    \<and> (\<forall>i < length (cf_blocks cfg). successors_of (cf_labels cfg) (length (cf_blocks cfg)) (i, cf_blocks cfg ! i) = Done (cf_successors cfg ! i))"
proof -
  define labels where "labels = ds_labels (discover_walk code)"
  define bs where "bs = close_tail (length code) (discover_walk code)"
  have b: "blocked code offs bs labels" and loops: "ds_loops (discover_walk code) = []"
    using discover_blocked [OF f offs] unfolding bs_def labels_def by blast+
  obtain h where h: "\<And>i. i < length bs \<Longrightarrow> successors_of labels (length bs) (i, bs ! i) = Done (h i)"
    using block_successors_Done [OF b offs f exit] by metis
  have "map (successors_of labels (length bs)) (enumerate 0 bs) = map Done (map h [0..<length bs])"
    by (rule nth_equalityI) (simp_all add: nth_enumerate_eq h)
  then have s: "osequence (map (successors_of labels (length bs)) (enumerate 0 bs)) = Done (map h [0..<length bs])"
    by (simp only: osequence_Done_iff)
  show ?thesis
    unfolding discover_cfg_def Let_def bs_def [symmetric] labels_def [symmetric] s loops using b h by simp
qed

text \<open>
  C1: On code that ends with a return, an abort or a stop and whose jumps go forward, recovery
  returns a skeleton (with a fuel linear in the length of the code), and for every machine the
  skeleton leaves the function with the result of the code.
\<close>

theorem recover_correct:
  assumes "label_offsets code = Done offs" "forward_jumps code offs" "code \<noteq> []" "is_exit (last code)"
    and "dominators_sound simple_fast" "\<And>x. U (temp_id x) = x"
  shows "\<exists>sk. (\<forall>fuel \<ge> 2 * (length code + 1). recover simple_fast temp_id fuel code = Done sk)
    \<and> (\<forall>n env mem. \<exists>r. exec_skeleton M B code U n sk env mem [] = Leaves r \<and> \<not> is_running r
         \<and> (\<exists>m. run M B code offs m (Running 0 env mem) = r))"
proof -
  obtain cfg where cfg: "discover_cfg code = Done cfg" and b: "blocked code offs (cf_blocks cfg) (cf_labels cfg)" and loops: "cf_loops cfg = []"
    and len: "length (cf_successors cfg) = length (cf_blocks cfg)"
    and succ: "\<And>i. i < length (cf_blocks cfg) \<Longrightarrow> successors_of (cf_labels cfg) (length (cf_blocks cfg)) (i, cf_blocks cfg ! i) = Done (cf_successors cfg ! i)"
    using discover_forward [OF assms(1-4)] by blast
  define X where "X = \<lparr>bx_temp_id = temp_id, bx_blocks = cf_blocks cfg, bx_labels = cf_labels cfg, bx_loops = cf_loops cfg,
         bx_post_doms = compute_post_dominators simple_fast (cf_successors cfg) (length (cf_blocks cfg)),
         bx_predecessors = block_predecessors (cf_successors cfg) (length (cf_blocks cfg))\<rparr>"
  let ?n = "length (cf_blocks cfg)"
  have up: "upward (cf_successors cfg)"
    unfolding upward_def edge_def
  proof (intro allI impI)
    fix i j assume "i < length (cf_successors cfg) \<and> j \<in> set (cf_successors cfg ! i)"
    then have i: "i < ?n" "j \<in> set (cf_successors cfg ! i)" using len by auto
    then show "i < j \<and> j < length (cf_successors cfg)"
      using block_successors_Done [OF b assms(1-4) i(1)] succ [OF i(1)] len by (auto simp: inside_def)
  qed
  have g: "block_graph code offs X (cf_successors cfg)"
    unfolding block_graph_def X_def using b assms(1-4) loops len succ compute_post_dominators_sound [OF assms(5) up] by auto
  have i0: "inside code (bx_blocks X) 0"
    using b assms(3) blockedD(1) [OF b, of 0] by (auto simp: inside_def X_def blocked_def)
  have r0: "region (cf_successors cfg) 0 ?n"
    using upwardD [OF up] len by (fastforce simp: region_def)
  obtain sk where sk: "\<forall>k \<ge> 2 * ?n. build_from_in X k 0 ?n [] = Done sk" "agrees M B code offs U (bx_blocks X) 0 ?n sk"
    using build_agrees [OF g _ i0 r0, of U M B] assms(6) len by (auto simp: X_def)
  have "recover simple_fast temp_id fuel code = Done sk" if "2 * (length code + 1) \<le> fuel" for fuel
  proof -
    have "2 * ?n \<le> 2 * (length code + 1)" using blocks_bound [OF b] by (rule mult_le_mono2)
    then have "2 * ?n \<le> fuel" using that by (rule le_trans)
    then show ?thesis using sk(1) cfg by (simp add: recover_def X_def Let_def)
  qed
  moreover have "\<exists>r. exec_skeleton M B code U n sk env mem [] = Leaves r \<and> \<not> is_running r
         \<and> (\<exists>m. run M B code offs m (Running 0 env mem) = r)" for n env mem
  proof -
    have start: "bc_start (cf_blocks cfg ! 0) = 0" using blockedD(1) [OF b, of 0] i0 by (simp add: X_def inside_def)
    show ?thesis
      using spec [OF spec [OF spec [OF spec [OF sk(2) [unfolded agrees_def], of n], of env], of mem], of "[]"]
      by (cases "exec_skeleton M B code U n sk env mem []") (auto simp: start reaches_def inside_def X_def)
  qed
  ultimately show ?thesis by blast
qed

text \<open>A sound choice of dominators: the only predecessor of a node.\<close>

definition sole_predecessor :: dominator_fn where
  "sole_predecessor edges root v = (case filter (\<lambda>e. snd e = v) edges of
     [(u, _)] \<Rightarrow> if u \<noteq> v \<and> v \<noteq> root then Some u else None
   | _ \<Rightarrow> None)"

lemma sole_predecessor_sound: "dominators_sound sole_predecessor"
  unfolding dominators_sound_def
proof (intro allI impI)
  fix edges root v c assume "sole_predecessor edges root v = Some c"
  then obtain w where f: "filter (\<lambda>e. snd e = v) edges = [(c, w)]" and c: "c \<noteq> v" "v \<noteq> root"
    by (auto simp: sole_predecessor_def split: list.splits if_splits)
  have only: "a = c" if "(a, v) \<in> set edges" for a
  proof -
    have "(a, v) \<in> set (filter (\<lambda>e. snd e = v) edges)" using that by simp
    then show ?thesis unfolding f by simp
  qed
  have "\<not> (\<lambda>a b. (a, b) \<in> set edges \<and> a \<noteq> c \<and> b \<noteq> c)\<^sup>*\<^sup>* root v"
  proof
    assume "(\<lambda>a b. (a, b) \<in> set edges \<and> a \<noteq> c \<and> b \<noteq> c)\<^sup>*\<^sup>* root v"
    then show False using c only by (cases rule: rtranclp.cases) auto
  qed
  then show "c \<noteq> v \<and> (c = root \<or> \<not> (\<lambda>a b. (a, b) \<in> set edges \<and> a \<noteq> c \<and> b \<noteq> c)\<^sup>*\<^sup>* root v)" using c by blast
qed

definition diamond_code :: "Bytecode list" where
  "diamond_code = [BBranch 0 0 1 0, BLabel 1 0, BLoad 2 1 (KBool True), BJump 3 2, BLabel 4 1, BAssign 5 1 0 AssignCopy, BLabel 6 2, BRet 7 [1]]"

lemma diamond_offsets: "label_offsets diamond_code = Done [0 \<mapsto> 1, 1 \<mapsto> 4, 2 \<mapsto> 6]"
  by (simp add: label_offsets_def diamond_code_def enumerate_eq_zip fun_upd_twist eval_nat_numeral)

theorem recover_correct_witness:
  "\<forall>(M :: (bool, unit) machine) B. \<exists>sk. recover sole_predecessor (\<lambda>x. replicate x CHR ''t'') 18 diamond_code = Done sk
    \<and> (\<forall>n env. \<exists>r. exec_skeleton M B diamond_code length n sk env () [] = Leaves r \<and> \<not> is_running r
         \<and> (\<exists>m. run M B diamond_code [0 \<mapsto> 1, 1 \<mapsto> 4, 2 \<mapsto> 6] m (Running 0 env ()) = r))"
proof (intro allI)
  fix M :: "(bool, unit) machine" and B
  have f: "forward_jumps diamond_code [0 \<mapsto> 1, 1 \<mapsto> 4, 2 \<mapsto> 6]"
    unfolding forward_jumps_def by (auto simp: diamond_code_def less_Suc_eq nth_Cons')
  have "diamond_code \<noteq> []" "is_exit (last diamond_code)" by (simp_all add: diamond_code_def)
  from recover_correct [OF diamond_offsets f this sole_predecessor_sound, of length "\<lambda>x. replicate x CHR ''t''" M B]
  obtain sk where sk: "\<forall>fuel \<ge> 2 * (length diamond_code + 1). recover sole_predecessor (\<lambda>x. replicate x CHR ''t'') fuel diamond_code = Done sk"
    "\<forall>n env mem. \<exists>r. exec_skeleton M B diamond_code length n sk env mem [] = Leaves r \<and> \<not> is_running r
         \<and> (\<exists>m. run M B diamond_code [0 \<mapsto> 1, 1 \<mapsto> 4, 2 \<mapsto> 6] m (Running 0 env mem) = r)" by auto
  have "recover sole_predecessor (\<lambda>x. replicate x CHR ''t'') 18 diamond_code = Done sk"
    using spec [OF sk(1), of 18] by (simp add: diamond_code_def)
  then show "\<exists>sk. recover sole_predecessor (\<lambda>x. replicate x CHR ''t'') 18 diamond_code = Done sk
    \<and> (\<forall>n env. \<exists>r. exec_skeleton M B diamond_code length n sk env () [] = Leaves r \<and> \<not> is_running r
         \<and> (\<exists>m. run M B diamond_code [0 \<mapsto> 1, 1 \<mapsto> 4, 2 \<mapsto> 6] m (Running 0 env ()) = r))"
    using sk(2) by blast
qed

section \<open>A branch with two backward arms\<close>

text \<open>The walk gives a block of its own to one backward arm only.  The other stays an edge back, so
  the graph has a cycle, and the builder follows it.\<close>

definition spin_code :: "Bytecode list" where
  "spin_code = [BLabel 0 0, BLabel 1 1, BBranch 2 1 0 0]"

lemma discover_spin: "discover_cfg spin_code = Done
  \<lparr>cf_blocks = [block_new 0 0 TFallthrough, block_new 1 1 TFallthrough, block_new 2 2 (TBranch 0 True 0 (- 1)),
     block_synthetic 2 (TContinue 2), block_new 3 3 (TReturn [])],
   cf_labels = [0 \<mapsto> 1, 1 \<mapsto> 2, - 1 \<mapsto> 3],
   cf_loops = [\<lparr>li_header = 2, li_backedges = [3], li_exit = Some 0\<rparr>],
   cf_successors = [[1], [2], [1, 3], [], []]\<rparr>"
  by (simp add: discover_cfg_def discover_walk_def spin_code_def enumerate_eq_zip push_block_def discover_branch_def is_backward_def
    block_new_def block_synthetic_def close_tail_def successors_of_def recover_exit_def Let_def eval_nat_numeral)

definition spin_context :: "(TempIndex \<Rightarrow> TempId) \<Rightarrow> BuildContext" where
  "spin_context temp_id = \<lparr>bx_temp_id = temp_id,
     bx_blocks = [block_new 0 0 TFallthrough, block_new 1 1 TFallthrough, block_new 2 2 (TBranch 0 True 0 (- 1)),
       block_synthetic 2 (TContinue 2), block_new 3 3 (TReturn [])],
     bx_labels = [0 \<mapsto> 1, 1 \<mapsto> 2, - 1 \<mapsto> 3], bx_loops = [\<lparr>li_header = 2, li_backedges = [3], li_exit = Some 0\<rparr>],
     bx_post_doms = compute_post_dominators sole_predecessor [[1], [2], [1, 3], [], []] 5,
     bx_predecessors = block_predecessors [[1], [2], [1, 3], [], []] 5\<rparr>"

lemma from_in_fallthrough:
  assumes "loop_info (bx_loops X) (bx_labels X) i = Done None" "i < e" "i < length (bx_blocks X)"
    "bc_term (bx_blocks X ! i) = TFallthrough" "break_level_for enc (i + 1) = None"
  shows "build_from_in X (Suc (Suc k)) i e enc = omap (\<lambda>rest. SkSeq [SkBlock (bx_blocks X ! i), rest]) (build_from_in X k (i + 1) e enc)"
  using assms by (simp add: build_from_in_step_def build_block_step_def build_terminator_def)

lemma spin_facts:
  "length (bx_blocks (spin_context temp_id)) = 5"
  "bc_term (bx_blocks (spin_context temp_id) ! 0) = TFallthrough"
  "bc_term (bx_blocks (spin_context temp_id) ! Suc 0) = TFallthrough"
  "bc_term (bx_blocks (spin_context temp_id) ! 2) = TBranch 0 True 0 (- 1)"
  "bx_labels (spin_context temp_id) 0 = Some 1" "bx_labels (spin_context temp_id) (- 1) = Some 3"
  "loop_info (bx_loops (spin_context temp_id)) (bx_labels (spin_context temp_id)) 0 = Done None"
  "loop_info (bx_loops (spin_context temp_id)) (bx_labels (spin_context temp_id)) (Suc 0) = Done None"
  "loop_info (bx_loops (spin_context temp_id)) (bx_labels (spin_context temp_id)) 2 = Done (Some (3, Some 1))"
  by (simp_all add: spin_context_def block_new_def loop_info_def latest_backedge_def max_backedge_def)

lemma spin_exit: "loop_exit (spin_context temp_id) 2 3 5 (Some 1) = Done 5"
proof -
  have "widen_backedge_past_nested_loops (bx_loops (spin_context temp_id)) 2 3 = Done 3"
    by (simp add: widen_backedge_past_nested_loops_def loop_unfold [of snd] widen_round_def spin_context_def)
  moreover have "absorb (spin_context temp_id) 2 5 (Some 1) 4 = Done 5"
    by (simp add: absorb_def loop_unfold spin_context_def block_predecessors_def upt_conv_Cons)
  moreover have "has_exits_past_exit_block (spin_context temp_id) 2 5 5 = Done False"
    by (simp add: has_exits_past_exit_block_def block_exits_past_def spin_context_def upt_conv_Cons block_new_def block_synthetic_def)
  ultimately show ?thesis by (simp add: loop_exit_def)
qed

lemma spin_builds:
  assumes "\<forall>f\<in>set enc. el_header f = 2 \<and> el_break_target f = 5"
  shows "build_from_in (spin_context temp_id) k 1 5 enc = Diverged \<and> build_from_in (spin_context temp_id) k 2 5 enc = Diverged"
  using assms
proof (induction k arbitrary: enc rule: less_induct)
  case (less k)
  let ?X = "spin_context temp_id"
  have stay: "leave_loop enc' 1 = None" "break_level_for enc' 2 = None" if "\<forall>f\<in>set enc'. el_header f = 2 \<and> el_break_target f = 5" for enc'
  proof -
    have "List.find (\<lambda>i. el_header (enc' ! i) = 1) (rev [0..<length enc']) = None"
      using that by (auto simp: find_None_iff)
    then have "enclosing_level enc' 1 = None" by (simp add: enclosing_level_def)
    moreover have "break_level_for enc' b = None" if "b < 5" for b
      using that \<open>\<forall>f\<in>set enc'. _\<close> by (cases enc' rule: rev_cases) (auto simp: break_level_for_def)
    ultimately show "leave_loop enc' 1 = None" "break_level_for enc' 2 = None" by (simp_all add: leave_loop_def)
  qed
  have conv: "find_convergence (bx_post_doms ?X) 2 5 = None"
    by (simp add: find_convergence_def spin_context_def compute_post_dominators_def sole_predecessor_def reversed_edges_def
      block_successors_def upt_conv_Cons)
  have from1: "build_from_in ?X k 1 5 enc = Diverged" if "\<forall>f\<in>set enc. el_header f = 2 \<and> el_break_target f = 5" for enc
  proof (cases k)
    case (Suc k1)
    show ?thesis
    proof (cases k1)
      case (Suc k2)
      then have "build_from_in ?X k2 2 5 enc = Diverged" using less.IH [of k2 enc] that \<open>k = Suc k1\<close> by simp
      moreover have "build_from_in ?X (Suc (Suc k2)) 1 5 enc = omap (\<lambda>rest. SkSeq [SkBlock (bx_blocks ?X ! 1), rest]) (build_from_in ?X k2 (1 + 1) 5 enc)"
        by (rule from_in_fallthrough) (use stay(2) [OF that] in \<open>simp_all add: spin_facts eval_nat_numeral\<close>)
      ultimately show ?thesis unfolding \<open>k = Suc k1\<close> Suc one_add_one by simp
    qed (simp add: \<open>k = Suc k1\<close> build_from_in_step_def spin_facts)
  qed simp
  moreover have "build_from_in ?X k 2 5 enc = Diverged"
  proof (cases k)
    case (Suc k1)
    let ?enc = "enc @ [\<lparr>el_header = 2, el_break_target = 5\<rparr>]"
    have enc: "\<forall>f\<in>set ?enc. el_header f = 2 \<and> el_break_target f = 5" using less.prems by simp
    have "build_block ?X k1 2 5 ?enc = Diverged"
    proof (cases k1)
      case (Suc k2)
      have "k2 < k" using \<open>k = Suc k1\<close> Suc by simp
      then have "build_from_in ?X k2 1 5 ?enc = Diverged" using less.IH [OF _ enc] by blast
      then show ?thesis using Suc conv stay(1) [OF enc]
        by (simp add: build_block_step_def build_terminator_def classify_arm_def spin_facts)
    qed simp
    then show ?thesis using Suc spin_exit [of temp_id]
      by (simp add: build_from_in_step_def build_while_def spin_facts)
  qed simp
  ultimately show ?case using less.prems by blast
qed

text \<open>
  On code with a branch whose two arms go back to different labels, recovery recurses for
  ever: no fuel is enough.
\<close>

theorem recover_spins: "recover sole_predecessor temp_id fuel spin_code = Diverged"
proof -
  have "recover sole_predecessor temp_id fuel spin_code = build_from_in (spin_context temp_id) fuel 0 5 []"
    by (simp add: recover_def discover_spin spin_context_def eval_nat_numeral)
  also have "\<dots> = Diverged"
  proof (cases fuel)
    case (Suc k)
    show ?thesis
    proof (cases k)
      case (Suc k')
      have "build_from_in (spin_context temp_id) (Suc (Suc k')) 0 5 []
          = omap (\<lambda>rest. SkSeq [SkBlock (bx_blocks (spin_context temp_id) ! 0), rest]) (build_from_in (spin_context temp_id) k' (0 + 1) 5 [])"
        by (rule from_in_fallthrough) (simp_all add: spin_facts)
      then show ?thesis using spin_builds [of "[]"] unfolding \<open>fuel = Suc k\<close> Suc add_0 by simp
    qed (simp add: Suc build_from_in_step_def spin_facts)
  qed simp
  finally show ?thesis .
qed

end
