(* ===== verification/Structured.thy ===== *)
theory Structured
  imports Skeleton IRSemantics
begin

text \<open>
  The third phase of control flow reconstruction
  (\<open>stackless-to-intermediate/src/control_flow_reconstruction/ir_translation.rs\<close>): a skeleton
  becomes a tree of structures with bodies of the intermediate format.  A sequence is folded from
  the right: a leaf becomes a prefix of what follows, a construct takes what follows as its
  continuation.

  The translation of single instructions (\<open>ir_translator.rs\<close>) and the borrow tracking are a
  parameter, which may change the state of the program builder.
\<close>

section \<open>Structures\<close>

datatype Structure =
    StLeaf IRNode "Termination option"
  | StIf IRNode IRNode Structure Structure "Structure option"
  | StWhile IRNode Structure "Structure option"
  | StSwitch IRNode IRNode "Structure list" "Structure option"

fun terminates_on_every_path :: "(Termination \<Rightarrow> bool) \<Rightarrow> Structure \<Rightarrow> bool" where
  "terminates_on_every_path p (StLeaf _ t) = (case t of Some t \<Rightarrow> p t | None \<Rightarrow> False)"
| "terminates_on_every_path p (StIf _ _ t e k) =
     (terminates_on_every_path p t \<and> terminates_on_every_path p e
      \<or> (case k of Some c \<Rightarrow> terminates_on_every_path p c | None \<Rightarrow> False))"
| "terminates_on_every_path p (StWhile _ l k) =
     (terminates_on_every_path p l \<or> (case k of Some c \<Rightarrow> terminates_on_every_path p c | None \<Rightarrow> False))"
| "terminates_on_every_path p (StSwitch _ _ cs k) =
     (cs \<noteq> [] \<and> (\<forall>c\<in>set cs. terminates_on_every_path p c)
      \<or> (case k of Some c \<Rightarrow> terminates_on_every_path p c | None \<Rightarrow> False))"

fun is_abort_mark :: "Termination \<Rightarrow> bool" where
  "is_abort_mark (TmAbort _) = True"
| "is_abort_mark _ = False"

definition always_returns :: "Structure \<Rightarrow> bool" where
  "always_returns = terminates_on_every_path (\<lambda>t. t = TmReturn \<or> is_abort_mark t)"

definition always_aborts :: "Structure \<Rightarrow> bool" where
  "always_aborts = terminates_on_every_path is_abort_mark"

section \<open>Translation\<close>

definition prepend_body :: "IRNode \<Rightarrow> Structure \<Rightarrow> Structure" where
  "prepend_body prefix structure =
     (if prefix = unit_node then structure
      else case structure of
        StLeaf body t \<Rightarrow> StLeaf (assign prefix body) t
      | StIf body c t e k \<Rightarrow> StIf (assign prefix body) c t e k
      | StWhile body l k \<Rightarrow> StWhile (assign prefix body) l k
      | StSwitch body s cs k \<Rightarrow> StSwitch (assign prefix body) s cs k)"

fun combine_structures :: "Structure \<Rightarrow> Structure \<Rightarrow> Structure outcome" where
  "combine_structures (StLeaf body None) suffix = Done (prepend_body body suffix)"
| "combine_structures (StLeaf body (Some t)) suffix = Done (StLeaf body (Some t))"
| "combine_structures (StIf body c t e None) suffix = Done (StIf body c t e (Some suffix))"
| "combine_structures (StWhile body l None) suffix = Done (StWhile body l (Some suffix))"
| "combine_structures (StSwitch body s cs None) suffix = Done (StSwitch body s cs (Some suffix))"
| "combine_structures _ suffix = Panicked"

text \<open>The translator of instructions: the borrow state before the first instruction of a block,
  its update, and one instruction.\<close>

record ('b, 's) translator =
  tr_code :: "Bytecode list"
  tr_temp_id :: "TempIndex \<Rightarrow> TempId"
  tr_borrow :: 'b
  tr_observe :: "Bytecode \<Rightarrow> 'b \<Rightarrow> 'b"
  tr_one :: "'b \<Rightarrow> Bytecode \<Rightarrow> ('s, IRNode) comp"

fun translate_pcs :: "('b, 's) translator \<Rightarrow> nat list \<Rightarrow> 'b \<Rightarrow> IRNode \<Rightarrow> ('s, IRNode) comp" where
  "translate_pcs T [] held body = sret body"
| "translate_pcs T (pc # pcs) held body =
     (if pc < length (tr_code T) then
        let bc = tr_code T ! pc in
        if is_control bc then translate_pcs T pcs held body
        else sbind (tr_one T held bc) (\<lambda>node. translate_pcs T pcs (tr_observe T bc held) (assign body node))
      else (\<lambda>_. Panicked))"

definition return_node :: "(TempIndex \<Rightarrow> TempId) \<Rightarrow> TempIndex list \<Rightarrow> IRNode" where
  "return_node temp_id temps = (case map (\<lambda>t. IRVar (temp_id t)) temps of [v] \<Rightarrow> v | values \<Rightarrow> IRTuple values)"

definition translate_block_body :: "('b, 's) translator \<Rightarrow> BlockCfg \<Rightarrow> ('s, IRNode) comp" where
  "translate_block_body T block =
     sbind (translate_pcs T [bc_start block..<bc_end block] (tr_borrow T) unit_node) (\<lambda>body. sret
       (case bc_term block of
          TReturn temps \<Rightarrow> if temps = [] then body else assign body (return_node (tr_temp_id T) temps)
        | _ \<Rightarrow> body))"

definition cond_from_branch_block :: "(TempIndex \<Rightarrow> TempId) \<Rightarrow> BlockCfg \<Rightarrow> IRNode outcome" where
  "cond_from_branch_block temp_id block = (case bc_term block of
     TBranch cond_temp negate_cond _ _ \<Rightarrow>
       Done (if negate_cond then IRUnOp OpNot (IRVar (temp_id cond_temp)) else IRVar (temp_id cond_temp))
   | _ \<Rightarrow> Panicked)"

definition scrutinee_from_switch_block :: "(TempIndex \<Rightarrow> TempId) \<Rightarrow> BlockCfg \<Rightarrow> IRNode outcome" where
  "scrutinee_from_switch_block temp_id block = (case bc_term block of
     TSwitch scrutinee_temp _ \<Rightarrow> Done (IRVar (temp_id scrutinee_temp)) | _ \<Rightarrow> Panicked)"

definition lift_outcome :: "'a outcome \<Rightarrow> ('s, 'a) comp" where
  "lift_outcome m = (\<lambda>s. omap (\<lambda>x. (x, s)) m)"

fun run_all :: "('s, 'a) comp list \<Rightarrow> ('s, 'a list) comp" where
  "run_all [] = sret []"
| "run_all (m # ms) = sbind m (\<lambda>x. sbind (run_all ms) (\<lambda>xs. sret (x # xs)))"

fun combine_all :: "('s, Structure) comp list \<Rightarrow> Structure \<Rightarrow> ('s, Structure) comp" where
  "combine_all [] acc = sret acc"
| "combine_all (m # ms) acc = sbind m (\<lambda>prefix. sbind (lift_outcome (combine_structures prefix acc)) (combine_all ms))"

definition translate_seq :: "('s, Structure) comp list \<Rightarrow> ('s, Structure) comp" where
  "translate_seq elems = (case rev elems of
     [] \<Rightarrow> sret (StLeaf unit_node None)
   | m # prefixes \<Rightarrow> sbind m (combine_all prefixes))"

primrec translate_inner :: "('b, 's) translator \<Rightarrow> Skeleton \<Rightarrow> ('s, Structure) comp" where
  "translate_inner T (SkBlock block) = sbind (translate_block_body T block) (\<lambda>body. sret (StLeaf body None))"
| "translate_inner T (SkTerm t) = sret (StLeaf unit_node (Some t))"
| "translate_inner T (SkSeq elems) = translate_seq (map (translate_inner T) elems)"
| "translate_inner T (SkIf cond_block then_branch else_branch) =
     sbind (translate_block_body T cond_block) (\<lambda>body.
     sbind (lift_outcome (cond_from_branch_block (tr_temp_id T) cond_block)) (\<lambda>c.
     sbind (translate_inner T then_branch) (\<lambda>t.
     sbind (translate_inner T else_branch) (\<lambda>e. sret (StIf body c t e None)))))"
| "translate_inner T (SkWhile header loop_body) =
     sbind (translate_inner T loop_body) (\<lambda>l. sret (StWhile unit_node l None))"
| "translate_inner T (SkSwitch scrutinee_block cases) =
     sbind (translate_block_body T scrutinee_block) (\<lambda>body.
     sbind (lift_outcome (scrutinee_from_switch_block (tr_temp_id T) scrutinee_block)) (\<lambda>s.
     sbind (run_all (map (translate_inner T) cases)) (\<lambda>cs. sret (StSwitch body s cs None))))"

section \<open>No panic\<close>

text \<open>Skeletons as the builder makes them: only the last element of a sequence is a sequence, and
  the blocks of constructs have the terminator of the construct.\<close>

fun is_seq :: "Skeleton \<Rightarrow> bool" where
  "is_seq (SkSeq _) = True"
| "is_seq _ = False"

primrec well_shaped :: "Skeleton \<Rightarrow> bool" where
  "well_shaped (SkBlock b) = True"
| "well_shaped (SkTerm t) = True"
| "well_shaped (SkSeq sks) = (list_all (\<lambda>p. p) (map well_shaped sks) \<and> list_all (\<lambda>sk. \<not> is_seq sk) (butlast sks))"
| "well_shaped (SkIf b t e) = ((\<exists>c neg l m. bc_term b = TBranch c neg l m) \<and> well_shaped t \<and> well_shaped e)"
| "well_shaped (SkWhile h l) = well_shaped l"
| "well_shaped (SkSwitch b cs) = ((\<exists>x ls. bc_term b = TSwitch x ls) \<and> list_all (\<lambda>p. p) (map well_shaped cs))"

primrec skeleton_blocks :: "Skeleton \<Rightarrow> BlockCfg set" where
  "skeleton_blocks (SkBlock b) = {b}"
| "skeleton_blocks (SkTerm t) = {}"
| "skeleton_blocks (SkSeq sks) = \<Union> (set (map skeleton_blocks sks))"
| "skeleton_blocks (SkIf b t e) = insert b (skeleton_blocks t \<union> skeleton_blocks e)"
| "skeleton_blocks (SkWhile h l) = insert h (skeleton_blocks l)"
| "skeleton_blocks (SkSwitch b cs) = insert b (\<Union> (set (map skeleton_blocks cs)))"

fun st_continuation :: "Structure \<Rightarrow> Structure option" where
  "st_continuation (StLeaf _ _) = None"
| "st_continuation (StIf _ _ _ _ k) = k"
| "st_continuation (StWhile _ _ k) = k"
| "st_continuation (StSwitch _ _ _ k) = k"

definition total :: "('s, 'a) comp \<Rightarrow> ('a \<Rightarrow> bool) \<Rightarrow> bool" where
  "total m P \<longleftrightarrow> (\<forall>s. \<exists>x s'. m s = Done (x, s') \<and> P x)"

lemma total_sret: "P x \<Longrightarrow> total (sret x) P"
  by (simp add: total_def sret_def)

lemma total_sbind:
  assumes "total m P" "\<And>x. P x \<Longrightarrow> total (f x) Q"
  shows "total (sbind m f) Q"
  unfolding total_def
proof
  fix s
  obtain x s' where x: "m s = Done (x, s')" "P x" using assms(1) unfolding total_def by blast
  then show "\<exists>y s''. sbind m f s = Done (y, s'') \<and> Q y" using assms(2) [OF x(2)] unfolding total_def sbind_def by simp
qed

lemma total_lift: "m = Done x \<Longrightarrow> P x \<Longrightarrow> total (lift_outcome m) P"
  by (simp add: total_def lift_outcome_def)

lemma total_mono: "total m P \<Longrightarrow> (\<And>x. P x \<Longrightarrow> Q x) \<Longrightarrow> total m Q"
  unfolding total_def by blast

lemma combine_total: "st_continuation p = None \<Longrightarrow> \<exists>s. combine_structures p suffix = Done s"
  by (cases "(p, suffix)" rule: combine_structures.cases) auto

lemma combine_all_total:
  "list_all (\<lambda>m. total m (\<lambda>p. st_continuation p = None)) ms \<Longrightarrow> total (combine_all ms acc) (\<lambda>_. True)"
proof (induction ms arbitrary: acc)
  case (Cons m ms)
  have "total (sbind (lift_outcome (combine_structures p acc)) (combine_all ms)) (\<lambda>_. True)" if p: "st_continuation p = None" for p
  proof -
    obtain s where "combine_structures p acc = Done s" using combine_total [OF p] by blast
    then have "total (lift_outcome (combine_structures p acc)) (\<lambda>_. True)" by (rule total_lift) simp
    then show ?thesis by (rule total_sbind) (use Cons in simp)
  qed
  then show ?case using Cons.prems by (auto intro: total_sbind)
qed (simp add: total_sret)

lemma run_all_total: "list_all (\<lambda>m. total m (\<lambda>_. True)) ms \<Longrightarrow> total (run_all ms) (\<lambda>_. True)"
  by (induction ms) (auto intro!: total_sret total_sbind [where P = "\<lambda>_. True"])

lemma translate_total:
  "well_shaped sk \<Longrightarrow> (\<And>b. b \<in> skeleton_blocks sk \<Longrightarrow> total (translate_block_body T b) (\<lambda>_. True)) \<Longrightarrow>
   total (translate_inner T sk) (\<lambda>st. \<not> is_seq sk \<longrightarrow> st_continuation st = None)"
proof (induction sk)
  case (SkBlock b)
  then show ?case by (auto intro!: total_sbind [where P = "\<lambda>_. True"] total_sret)
next
  case (SkSeq sks)
  have each: "total (translate_inner T sk) (\<lambda>st. \<not> is_seq sk \<longrightarrow> st_continuation st = None)" if "sk \<in> set sks" for sk
    using SkSeq that by (auto simp: list_all_iff)
  show ?case
  proof (cases sks rule: rev_cases)
    case Nil
    then show ?thesis by (simp add: translate_seq_def total_sret)
  next
    case (snoc ys y)
    have "list_all (\<lambda>m. total m (\<lambda>p. st_continuation p = None)) (rev (map (translate_inner T) ys))"
      using each SkSeq.prems(1) snoc by (auto simp: list_all_iff intro: total_mono)
    then have "total (combine_all (rev (map (translate_inner T) ys)) acc) (\<lambda>_. True)" for acc by (rule combine_all_total)
    then have "total (translate_inner T (SkSeq sks)) (\<lambda>_. True)"
      using each [of y] snoc by (auto simp: translate_seq_def rev_map intro: total_sbind)
    then show ?thesis by simp
  qed
next
  case (SkTerm t)
  then show ?case by (simp add: total_sret)
next
  case (SkIf b t e)
  obtain c where c: "cond_from_branch_block (tr_temp_id T) b = Done c" using SkIf.prems(1) by (auto simp: cond_from_branch_block_def)
  have "total (translate_inner T t) (\<lambda>_. True)" "total (translate_inner T e) (\<lambda>_. True)"
    using SkIf.IH SkIf.prems by (auto intro: total_mono)
  then show ?case using SkIf.prems(2)
    by (auto intro!: total_sbind [where P = "\<lambda>_. True"] total_sret total_lift [OF c])
next
  case (SkWhile h l)
  have "total (translate_inner T l) (\<lambda>_. True)" using SkWhile.IH SkWhile.prems by (auto intro: total_mono)
  then show ?case by (auto intro!: total_sbind [where P = "\<lambda>_. True"] total_sret)
next
  case (SkSwitch b cs)
  obtain c where c: "scrutinee_from_switch_block (tr_temp_id T) b = Done c" using SkSwitch.prems(1) by (auto simp: scrutinee_from_switch_block_def)
  have "list_all (\<lambda>m. total m (\<lambda>_. True)) (map (translate_inner T) cs)"
    using SkSwitch by (fastforce simp: list_all_iff intro: total_mono)
  then have "total (run_all (map (translate_inner T) cs)) (\<lambda>_. True)" by (rule run_all_total)
  then show ?case using SkSwitch.prems(2)
    by (auto intro!: total_sbind [where P = "\<lambda>_. True"] total_sret total_lift [OF c])
qed

end
