(* ===== verification/StructuredRun.thy ===== *)
theory StructuredRun
  imports Structured SkeletonRun
begin

text \<open>
  Recovered skeletons translate without a panic, and a structure does what its skeleton does.

  The second part is stated over a machine that runs bodies, with the law that \<open>assign\<close> runs its
  arguments in sequence (locale \<open>body_machine\<close>).  The reference semantics of the intermediate
  format is such a machine.
\<close>

section \<open>The shape of recovered skeletons\<close>

definition fits :: "BuildContext \<Rightarrow> Skeleton \<Rightarrow> bool" where
  "fits X sk \<longleftrightarrow> well_shaped sk \<and> skeleton_blocks sk \<subseteq> set (bx_blocks X)"

lemma fits_simps [simp]:
  "fits X (SkBlock b) \<longleftrightarrow> b \<in> set (bx_blocks X)"
  "fits X (SkTerm t)"
  "fits X (SkSeq [])"
  "fits X (SkSeq [sk, sk']) \<longleftrightarrow> fits X sk \<and> fits X sk' \<and> \<not> is_seq sk"
  "fits X (SkIf b sk sk') \<longleftrightarrow> b \<in> set (bx_blocks X) \<and> (\<exists>c neg l m. bc_term b = TBranch c neg l m) \<and> fits X sk \<and> fits X sk'"
  "fits X (SkWhile b sk) \<longleftrightarrow> b \<in> set (bx_blocks X) \<and> fits X sk"
  "fits X (SkSwitch b sks) \<longleftrightarrow> b \<in> set (bx_blocks X) \<and> (\<exists>x ls. bc_term b = TSwitch x ls) \<and> (\<forall>sk\<in>set sks. fits X sk)"
  by (auto simp: fits_def list_all_iff)

definition builds_shape :: "BuildContext \<Rightarrow> builder \<Rightarrow> bool" where
  "builds_shape X F \<longleftrightarrow> (\<forall>s e enc sk. F s e enc = Done sk \<longrightarrow> fits X sk)"

lemma builds_shapeD: "builds_shape X F \<Longrightarrow> F s e enc = Done sk \<Longrightarrow> fits X sk"
  unfolding builds_shape_def by blast

lemma shape_arm: "builds_shape X F \<Longrightarrow> builds_shape X (classify_arm F)"
  unfolding builds_shape_def classify_arm_def by (auto split: option.splits)

lemma shape_join:
  assumes "builds_shape X F" "build_join F convergence e enc skel = Done sk" "fits X skel" "\<not> is_seq skel"
  shows "fits X sk"
  using assms by (auto simp: build_join_def split: option.splits dest: builds_shapeD)

lemma shape_terminator:
  assumes F: "builds_shape X F" and A: "builds_shape X A" and b: "block \<in> set (bx_blocks X)"
    and sk: "build_terminator X F A block i e enc = Done sk"
  shows "fits X sk"
proof (cases "bc_term block")
  case (TBranch c neg l m)
  obtain t e' q sk1 sk2 where arms: "A t q enc = Done sk1" "A e' q enc = Done sk2"
      "build_join F (find_convergence (bx_post_doms X) i e) e enc (SkIf block sk1 sk2) = Done sk"
    using sk unfolding build_terminator_def Let_def TBranch Terminator.case obind_Done_iff by blast
  show ?thesis using builds_shapeD [OF A arms(1)] builds_shapeD [OF A arms(2)] TBranch b
    by (intro shape_join [OF F arms(3)]) auto
next
  case (TSwitch x ls)
  obtain sks where sks: "osequence (map (\<lambda>label. obind (at (bx_labels X) label) (\<lambda>case_start.
        A case_start (case find_convergence (bx_post_doms X) i e of Some c \<Rightarrow> c | None \<Rightarrow> e) enc)) ls) = Done sks"
      "build_join F (find_convergence (bx_post_doms X) i e) e enc (SkSwitch block sks) = Done sk"
    using sk TSwitch by (auto simp: build_terminator_def Let_def obind_Done_iff)
  have "fits X y" if "y \<in> set sks" for y
  proof -
    have "Done y \<in> set (map Done sks)" using that by simp
    then have "Done y \<in> set (map (\<lambda>label. obind (at (bx_labels X) label) (\<lambda>case_start.
        A case_start (case find_convergence (bx_post_doms X) i e of Some c \<Rightarrow> c | None \<Rightarrow> e) enc)) ls)"
      using sks(1) unfolding osequence_Done_iff by simp
    then show ?thesis by (auto simp: obind_Done_iff dest!: builds_shapeD [OF A] sym [of "Done y"])
  qed
  then show ?thesis using sks(2) TSwitch b by (intro shape_join [OF F sks(2)]) (auto simp: list_all_iff)
next
  case (TJump l)
  then show ?thesis using sk b F
    by (auto simp: build_terminator_def obind_Done_iff build_jump_def split: option.splits if_splits dest: builds_shapeD)
qed (use sk b F in \<open>auto simp: build_terminator_def split: option.splits dest: builds_shapeD\<close>)

lemma shape_while:
  assumes F: "builds_shape X F" and B: "builds_shape X B" and sk: "build_while X F B h bk e ex enc = Done sk"
  shows "fits X sk"
proof -
  obtain x body where x: "h < length (bx_blocks X)" "B h x (enc @ [\<lparr>el_header = h, el_break_target = x\<rparr>]) = Done body"
      "(if x < e then omap (\<lambda>rest. SkSeq [SkWhile (bx_blocks X ! h) body, rest]) (F x e enc) else Done (SkWhile (bx_blocks X ! h) body)) = Done sk"
    using sk by (auto simp: build_while_def obind_Done_iff Let_def split: if_splits)
  note body = builds_shapeD [OF B x(2)]
  show ?thesis
  proof (cases "x < e")
    case True
    then obtain rest where rest: "F x e enc = Done rest" "sk = SkSeq [SkWhile (bx_blocks X ! h) body, rest]" using x(3) by auto
    show ?thesis using builds_shapeD [OF F rest(1)] body x(1) rest(2) by auto
  qed (use x body in auto)
qed

lemma build_shape: "builds_shape X (build_from_in X k) \<and> builds_shape X (build_block X k)"
proof (induction k)
  case (Suc k)
  have "builds_shape X (build_from_in_step X (build_from_in X k) (build_block X k))"
    unfolding builds_shape_def build_from_in_step_def
  proof (intro allI impI)
    fix s e enc sk
    assume "(if e \<le> s then Done (SkSeq []) else obind (loop_info (bx_loops X) (bx_labels X) s) (\<lambda>info. case info of
        None \<Rightarrow> build_block X k s e enc
      | Some (backedge, semantic_exit) \<Rightarrow> build_while X (build_from_in X k) (build_block X k) s backedge e semantic_exit enc)) = Done sk"
    then show "fits X sk"
      using Suc shape_while [of X "build_from_in X k" "build_block X k"]
      by (auto simp: obind_Done_iff split: if_splits option.splits dest: builds_shapeD)
  qed
  moreover have "builds_shape X (build_block_step X (build_from_in X k))"
    unfolding builds_shape_def build_block_step_def
    using Suc shape_arm [of X "build_from_in X k"] by (auto split: if_splits intro: shape_terminator [OF _ _ nth_mem])
  ultimately show ?case by simp
qed (simp add: builds_shape_def)

section \<open>Blocks lie in the code\<close>

lemma discover_step_ends:
  assumes "\<forall>b\<in>set (ds_blocks st). bc_end b \<le> n" "pc \<le> n"
  shows "\<forall>b\<in>set (ds_blocks (discover_step (pc, bc) st)). bc_end b \<le> n"
  using assms
  by (cases bc)
    (auto simp: push_block_def block_new_def block_synthetic_def discover_branch_def discover_jump_def Let_def split: option.splits)

lemma fold_ends:
  "\<forall>b\<in>set (ds_blocks st). bc_end b \<le> n \<Longrightarrow> \<forall>x\<in>set xs. fst x \<le> n \<Longrightarrow>
   \<forall>b\<in>set (ds_blocks (fold discover_step xs st)). bc_end b \<le> n"
proof (induction xs arbitrary: st)
  case (Cons x xs)
  obtain pc bc where x: "x = (pc, bc)" by (cases x)
  have "pc \<le> n" using Cons.prems(2) x by simp
  then have "\<forall>b\<in>set (ds_blocks (discover_step (pc, bc) st)). bc_end b \<le> n" by (rule discover_step_ends [OF Cons.prems(1)])
  then have "\<forall>b\<in>set (ds_blocks (fold discover_step xs (discover_step (pc, bc) st))). bc_end b \<le> n"
    using Cons.IH Cons.prems(2) by simp
  then show ?case unfolding x by (simp del: discover_step.simps)
qed simp

lemma discover_ends:
  assumes "discover_cfg code = Done cfg" "b \<in> set (cf_blocks cfg)"
  shows "bc_end b \<le> length code"
proof -
  have "\<forall>b\<in>set (ds_blocks (fold discover_step (enumerate 0 code) \<lparr>ds_blocks = [], ds_labels = Map.empty, ds_loops = [], ds_start = 0, ds_synthetic = - 1\<rparr>)).
      bc_end b \<le> length code"
    by (rule fold_ends) (auto simp: in_set_enumerate_eq)
  then have "\<forall>b\<in>set (ds_blocks (discover_walk code)). bc_end b \<le> length code"
    unfolding discover_walk_def .
  then show ?thesis using assms by (auto simp: discover_cfg_def Let_def close_tail_def block_new_def split: if_splits)
qed

lemma translate_pcs_total:
  assumes one: "\<And>held bc. total (tr_one T held bc) (\<lambda>_. True)"
  shows "\<forall>pc\<in>set pcs. pc < length (tr_code T) \<Longrightarrow> total (translate_pcs T pcs held body) (\<lambda>_. True)"
proof (induction pcs arbitrary: held body)
  case (Cons pc pcs)
  then show ?case by (auto simp: Let_def intro!: total_sbind [OF one])
qed (simp add: total_sret)

lemma block_total:
  assumes one: "\<And>held bc. total (tr_one T held bc) (\<lambda>_. True)" and b: "bc_end block \<le> length (tr_code T)"
  shows "total (translate_block_body T block) (\<lambda>_. True)"
proof -
  have "total (translate_pcs T [bc_start block..<bc_end block] held unit_node) (\<lambda>_. True)" for held
    using one b by (intro translate_pcs_total) auto
  then show ?thesis unfolding translate_block_body_def by (auto intro!: total_sbind [where P = "\<lambda>_. True"] total_sret)
qed

text \<open>What recovery returns has the shape that translation needs, with blocks inside the code.\<close>

lemma recover_fits:
  assumes "recover simple_fast temp_id fuel code = Done sk"
  shows "well_shaped sk" "b \<in> skeleton_blocks sk \<Longrightarrow> bc_end b \<le> length code"
proof -
  obtain cfg where cfg: "discover_cfg code = Done cfg"
    using assms unfolding recover_def obind_Done_iff by blast
  define X where "X = \<lparr>bx_temp_id = temp_id, bx_blocks = cf_blocks cfg, bx_labels = cf_labels cfg, bx_loops = cf_loops cfg,
         bx_post_doms = compute_post_dominators simple_fast (cf_successors cfg) (length (cf_blocks cfg)),
         bx_predecessors = block_predecessors (cf_successors cfg) (length (cf_blocks cfg))\<rparr>"
  have "build_from_in X fuel 0 (length (cf_blocks cfg)) [] = Done sk" using assms cfg by (simp add: recover_def X_def Let_def)
  then have sk: "well_shaped sk" "skeleton_blocks sk \<subseteq> set (cf_blocks cfg)"
    using build_shape [of X fuel] unfolding builds_shape_def fits_def by (auto simp: X_def)
  then show "well_shaped sk" "b \<in> skeleton_blocks sk \<Longrightarrow> bc_end b \<le> length code" using discover_ends [OF cfg] by auto
qed

section \<open>What a structure does\<close>

text \<open>A machine runs bodies and reads conditions and tags; \<open>nm_reset\<close> forgets the value of the last
  body, where an arm or a continuation starts.\<close>

record 's node_machine =
  nm_body :: "IRNode \<Rightarrow> 's \<Rightarrow> 's option"
  nm_test :: "IRNode \<Rightarrow> 's \<Rightarrow> bool option"
  nm_tag :: "IRNode \<Rightarrow> 's \<Rightarrow> nat option"
  nm_reset :: "'s \<Rightarrow> 's"

datatype 's ending =
    EFalls 's
  | EReturns 's
  | EAborts "IRNode option" 's
  | EBreaks nat 's
  | EContinues nat 's
  | EFails
  | EFuel

definition mark_ending :: "Termination \<Rightarrow> 's \<Rightarrow> 's ending" where
  "mark_ending t s = (case t of TmReturn \<Rightarrow> EReturns s | TmAbort c \<Rightarrow> EAborts c s
     | TmBreak level \<Rightarrow> EBreaks level s | TmContinue level \<Rightarrow> EContinues level s)"

definition with_body :: "'s node_machine \<Rightarrow> IRNode \<Rightarrow> 's \<Rightarrow> ('s \<Rightarrow> 's ending) \<Rightarrow> 's ending" where
  "with_body N body s k = (case nm_body N body s of Some s' \<Rightarrow> k s' | None \<Rightarrow> EFails)"

definition on_fall :: "'s ending \<Rightarrow> ('s \<Rightarrow> 's ending) \<Rightarrow> 's ending" where
  "on_fall r k = (case r of EFalls s \<Rightarrow> k s | r \<Rightarrow> r)"

definition rest_ending :: "'s node_machine \<Rightarrow> ('s \<Rightarrow> 's ending) option \<Rightarrow> 's ending \<Rightarrow> 's ending" where
  "rest_ending N k r = on_fall r (\<lambda>s. case k of None \<Rightarrow> EFalls (nm_reset N s) | Some f \<Rightarrow> f (nm_reset N s))"

fun loop_ending :: "'s node_machine \<Rightarrow> ('s \<Rightarrow> 's ending) \<Rightarrow> nat \<Rightarrow> 's \<Rightarrow> 's ending" where
  "loop_ending N f 0 s = EFuel"
| "loop_ending N f (Suc n) s = (case f (nm_reset N s) of
     EFalls _ \<Rightarrow> EFails
   | EContinues level s' \<Rightarrow> if level = 0 then loop_ending N f n s' else EContinues (level - 1) s'
   | EBreaks level s' \<Rightarrow> if level = 0 then EFalls s' else EBreaks (level - 1) s'
   | r \<Rightarrow> r)"

definition branch_ending :: "'s node_machine \<Rightarrow> IRNode \<Rightarrow> ('s \<Rightarrow> 's ending) \<Rightarrow> ('s \<Rightarrow> 's ending) \<Rightarrow> 's \<Rightarrow> 's ending" where
  "branch_ending N c f g s = (case nm_test N c s of None \<Rightarrow> EFails
     | Some b \<Rightarrow> if b then f (nm_reset N s) else g (nm_reset N s))"

definition switch_ending :: "'s node_machine \<Rightarrow> IRNode \<Rightarrow> ('s \<Rightarrow> 's ending) list \<Rightarrow> 's \<Rightarrow> 's ending" where
  "switch_ending N x fs s = (case nm_tag N x s of None \<Rightarrow> EFails
     | Some i \<Rightarrow> if i < length fs then (fs ! i) (nm_reset N s) else EFails)"

primrec exec_structure :: "'s node_machine \<Rightarrow> nat \<Rightarrow> Structure \<Rightarrow> 's \<Rightarrow> 's ending" where
  "exec_structure N n (StLeaf body t) = (\<lambda>s. with_body N body s (\<lambda>s. case t of None \<Rightarrow> EFalls s | Some t \<Rightarrow> mark_ending t s))"
| "exec_structure N n (StIf body c t e k) = (\<lambda>s. with_body N body s (\<lambda>s.
     rest_ending N (map_option (exec_structure N n) k) (branch_ending N c (exec_structure N n t) (exec_structure N n e) s)))"
| "exec_structure N n (StWhile body l k) = (\<lambda>s. with_body N body s (\<lambda>s.
     rest_ending N (map_option (exec_structure N n) k) (loop_ending N (exec_structure N n l) n s)))"
| "exec_structure N n (StSwitch body x cs k) = (\<lambda>s. with_body N body s (\<lambda>s.
     rest_ending N (map_option (exec_structure N n) k) (switch_ending N x (map (exec_structure N n) cs) s)))"

text \<open>The same for skeletons, over the bodies of blocks.\<close>

fun in_order :: "('s \<Rightarrow> 's ending) list \<Rightarrow> 's \<Rightarrow> 's ending" where
  "in_order [] s = EFalls s"
| "in_order (f # fs) s = on_fall (f s) (in_order fs)"

definition head_ending :: "IRNode outcome \<Rightarrow> (IRNode \<Rightarrow> 's ending) \<Rightarrow> 's ending" where
  "head_ending c k = (case c of Done c \<Rightarrow> k c | _ \<Rightarrow> EFails)"

primrec exec_tree :: "'s node_machine \<Rightarrow> (TempIndex \<Rightarrow> TempId) \<Rightarrow> (BlockCfg \<Rightarrow> IRNode) \<Rightarrow> nat \<Rightarrow> Skeleton \<Rightarrow> 's \<Rightarrow> 's ending" where
  "exec_tree N V bd n (SkBlock b) = (\<lambda>s. with_body N (bd b) s EFalls)"
| "exec_tree N V bd n (SkTerm t) = mark_ending t"
| "exec_tree N V bd n (SkSeq sks) = in_order (map (exec_tree N V bd n) sks)"
| "exec_tree N V bd n (SkIf b t e) = (\<lambda>s. with_body N (bd b) s (\<lambda>s. head_ending (cond_from_branch_block V b) (\<lambda>c.
     rest_ending N None (branch_ending N c (exec_tree N V bd n t) (exec_tree N V bd n e) s))))"
| "exec_tree N V bd n (SkWhile h l) = (\<lambda>s. rest_ending N None (loop_ending N (exec_tree N V bd n l) n s))"
| "exec_tree N V bd n (SkSwitch b cs) = (\<lambda>s. with_body N (bd b) s (\<lambda>s. head_ending (scrutinee_from_switch_block V b) (\<lambda>x.
     rest_ending N None (switch_ending N x (map (exec_tree N V bd n) cs) s))))"

section \<open>Machines that run bodies in sequence\<close>

locale body_machine =
  fixes N :: "'s node_machine"
  assumes body_unit: "nm_body N unit_node s = Some s"
    and body_assign: "nm_body N (assign a b) s = Option.bind (nm_body N a s) (nm_body N b)"
begin

lemma with_unit [simp]: "with_body N unit_node s k = k s"
  by (simp add: with_body_def body_unit)

lemma with_assign: "with_body N (assign a b) s k = with_body N a s (\<lambda>s. with_body N b s k)"
  by (simp add: with_body_def body_assign split: Option.bind_split)

lemma prepend_ending: "exec_structure N n (prepend_body p st) s = with_body N p s (exec_structure N n st)"
proof (cases "p = unit_node")
  case True
  then show ?thesis by (simp add: prepend_body_def with_body_def body_unit)
next
  case False
  then show ?thesis by (cases st) (simp_all add: prepend_body_def with_assign)
qed

lemma rest_ending_None: "on_fall (rest_ending N None r) f = rest_ending N (Some f) r"
  by (cases r) (simp_all add: rest_ending_def on_fall_def)

lemma on_fall_EFalls [simp]: "on_fall (EFalls s) f = f s"
  by (simp add: on_fall_def)

lemma on_fall_body: "on_fall (with_body N b s k) f = with_body N b s (\<lambda>s. on_fall (k s) f)"
  by (simp add: with_body_def on_fall_def split: option.split)

lemma on_fall_mark: "on_fall (mark_ending t s) f = mark_ending t s"
  by (cases t) (simp_all add: on_fall_def mark_ending_def)

lemma combine_ending:
  "combine_structures p q = Done st \<Longrightarrow> exec_structure N n st s = on_fall (exec_structure N n p s) (exec_structure N n q)"
proof (cases "(p, q)" rule: combine_structures.cases)
  case (1 body suffix)
  moreover assume "combine_structures p q = Done st"
  ultimately show ?thesis by (auto simp: prepend_ending on_fall_body)
qed (auto simp: on_fall_body on_fall_mark rest_ending_None)

lemma in_order_append: "in_order (fs @ gs) s = on_fall (in_order fs s) (in_order gs)"
proof (induction fs arbitrary: s)
  case (Cons f fs)
  then show ?case by (cases "f s") (simp_all add: on_fall_def)
qed simp

text \<open>A computation gives structures that run like \<open>f\<close>.\<close>

definition gives :: "nat \<Rightarrow> ('t, Structure) comp \<Rightarrow> ('s \<Rightarrow> 's ending) \<Rightarrow> bool" where
  "gives n m f \<longleftrightarrow> (\<forall>t st t'. m t = Done (st, t') \<longrightarrow> exec_structure N n st = f)"

lemma givesD: "gives n m f \<Longrightarrow> m t = Done (st, t') \<Longrightarrow> exec_structure N n st = f"
  unfolding gives_def by blast

lemma combine_all_gives:
  "list_all2 (gives n) ms fs \<Longrightarrow> combine_all ms acc t = Done (st, t') \<Longrightarrow>
   exec_structure N n st s = on_fall (in_order (rev fs) s) (exec_structure N n acc)"
proof (induction arbitrary: acc t rule: list_all2_induct)
  case (Cons m ms f fs)
  obtain p t1 q where p: "m t = Done (p, t1)" "combine_structures p acc = Done q" "combine_all ms q t1 = Done (st, t')"
    using Cons.prems by (auto simp: sbind_def lift_outcome_def obind_Done_iff)
  have "exec_structure N n q = (\<lambda>s. on_fall (f s) (exec_structure N n acc))"
    using combine_ending [OF p(2), of n] givesD [OF Cons.hyps(1) p(1)] by auto
  then show ?case unfolding Cons.IH [OF p(3)]
    by (cases "in_order (rev fs) s") (simp_all add: in_order_append on_fall_def split: ending.split)
qed (simp add: sret_def on_fall_def split: ending.split)

lemma run_all_gives:
  "list_all2 (gives n) ms fs \<Longrightarrow> run_all ms t = Done (sts, t') \<Longrightarrow> map (exec_structure N n) sts = fs"
proof (induction arbitrary: t sts rule: list_all2_induct)
  case (Cons m ms f fs)
  then show ?case by (auto simp: sbind_def sret_def obind_Done_iff dest: givesD)
qed (simp add: sret_def)

lemma translate_gives:
  assumes bodies: "\<And>b t body t'. b \<in> skeleton_blocks sk \<Longrightarrow> translate_block_body T b t = Done (body, t') \<Longrightarrow> body = bd b"
  shows "gives n (translate_inner T sk) (exec_tree N (tr_temp_id T) bd n sk)"
  using assms
proof (induction sk)
  case (SkBlock b)
  then show ?case by (fastforce simp: gives_def sbind_def sret_def obind_Done_iff)
next
  case (SkTerm t)
  then show ?case by (auto simp: gives_def sret_def)
next
  case (SkSeq sks)
  have each: "list_all2 (gives n) (map (translate_inner T) ys) (map (exec_tree N (tr_temp_id T) bd n) ys)" if "set ys \<subseteq> set sks" for ys
    using that SkSeq by (fastforce simp: list_all2_map1 list_all2_map2 intro!: list.rel_refl_strong)
  show ?case
  proof (cases sks rule: rev_cases)
    case Nil
    then show ?thesis by (auto simp: gives_def translate_seq_def sret_def)
  next
    case (snoc ys y)
    show ?thesis
      unfolding gives_def
    proof (intro allI impI)
      fix t st t' assume "translate_inner T (SkSeq sks) t = Done (st, t')"
      then obtain acc t1 where acc: "translate_inner T y t = Done (acc, t1)" "combine_all (map (translate_inner T) (rev ys)) acc t1 = Done (st, t')"
        using snoc by (auto simp: translate_seq_def rev_map sbind_def obind_Done_iff)
      have "list_all2 (gives n) (map (translate_inner T) (rev ys)) (map (exec_tree N (tr_temp_id T) bd n) (rev ys))" using each [of "rev ys"] snoc by auto
      then have "exec_structure N n st s = on_fall (in_order (rev (map (exec_tree N (tr_temp_id T) bd n) (rev ys))) s) (exec_structure N n acc)" for s
        by (rule combine_all_gives [OF _ acc(2)])
      moreover have "exec_structure N n acc = exec_tree N (tr_temp_id T) bd n y"
        by (rule givesD [where m = "translate_inner T y", OF _ acc(1)]) (use each [of "[y]"] snoc in auto)
      moreover have "in_order [f] = f" for f :: "'s \<Rightarrow> 's ending" by (rule ext) (simp add: on_fall_def split: ending.split)
      ultimately show "exec_structure N n st = exec_tree N (tr_temp_id T) bd n (SkSeq sks)"
        by (intro ext) (simp add: snoc in_order_append rev_map del: in_order.simps)
    qed
  qed
next
  case (SkIf b t e)
  have "gives n (translate_inner T t) (exec_tree N (tr_temp_id T) bd n t)" "gives n (translate_inner T e) (exec_tree N (tr_temp_id T) bd n e)"
    using SkIf by auto
  note arms = givesD [OF this(1)] givesD [OF this(2)]
  show ?case
    unfolding gives_def
  proof (intro allI impI)
    fix u st u' assume "translate_inner T (SkIf b t e) u = Done (st, u')"
    then obtain body c tst est u1 u2 u3 where r: "translate_block_body T b u = Done (body, u1)" "cond_from_branch_block (tr_temp_id T) b = Done c"
        "translate_inner T t u1 = Done (tst, u2)" "translate_inner T e u2 = Done (est, u3)" "st = StIf body c tst est None"
      by (auto simp: sbind_def sret_def obind_Done_iff lift_outcome_def)
    have "body = bd b" using SkIf.prems r(1) by simp
    then show "exec_structure N n st = exec_tree N (tr_temp_id T) bd n (SkIf b t e)"
      by (simp add: r(2,5) arms(1) [OF r(3)] arms(2) [OF r(4)] head_ending_def)
  qed
next
  case (SkWhile h l)
  have "gives n (translate_inner T l) (exec_tree N (tr_temp_id T) bd n l)" using SkWhile by auto
  then show ?case by (fastforce simp: gives_def sbind_def sret_def obind_Done_iff)
next
  case (SkSwitch b cs)
  have "list_all2 (gives n) (map (translate_inner T) cs) (map (exec_tree N (tr_temp_id T) bd n) cs)"
    using SkSwitch by (fastforce simp: list_all2_map1 list_all2_map2 intro!: list.rel_refl_strong)
  note arms = run_all_gives [OF this]
  show ?case
    unfolding gives_def
  proof (intro allI impI)
    fix u st u' assume "translate_inner T (SkSwitch b cs) u = Done (st, u')"
    then obtain body x sts u1 u2 where r: "translate_block_body T b u = Done (body, u1)" "scrutinee_from_switch_block (tr_temp_id T) b = Done x"
        "run_all (map (translate_inner T) cs) u1 = Done (sts, u2)" "st = StSwitch body x sts None"
      by (auto simp: sbind_def sret_def obind_Done_iff lift_outcome_def)
    have "body = bd b" using SkSwitch.prems r(1) by simp
    then show "exec_structure N n st = exec_tree N (tr_temp_id T) bd n (SkSwitch b cs)"
      by (simp add: r(2,4) arms [OF r(3)] head_ending_def)
  qed
qed

end

text \<open>Interpretation on the reference semantics: a body runs its bindings, and the state keeps the
  value of the last body.\<close>

fun flow_node :: "interp \<Rightarrow> IRNode \<Rightarrow> env \<Rightarrow> (env \<times> val) option" where
  "flow_node I (IRLet p v b) env = (case eval I env v of
     None \<Rightarrow> None
   | Some w \<Rightarrow> (case bind_pattern p w env of None \<Rightarrow> None | Some env' \<Rightarrow> flow_node I b env'))"
| "flow_node I n env = map_option (Pair env) (eval I env n)"

definition ir_machine :: "interp \<Rightarrow> (env \<times> val) node_machine" where
  "ir_machine I = \<lparr>
     nm_body = (\<lambda>n (env, v). if n = unit_node then Some (env, v) else flow_node I n env),
     nm_test = (\<lambda>c (env, _). case eval I env c of Some (VBool b) \<Rightarrow> Some b | _ \<Rightarrow> None),
     nm_tag = (\<lambda>x (env, _). case eval I env x of Some (VPack _ (Some tag) _) \<Rightarrow> Some tag | _ \<Rightarrow> None),
     nm_reset = (\<lambda>(env, _). (env, VTuple []))\<rparr>"

lemma flow_eval: "eval I env n = map_option snd (flow_node I n env)"
  by (induction I n env rule: flow_node.induct)
    (simp_all only: flow_node.simps option.map_comp comp_def snd_conv option.map_ident, simp split: option.splits)

lemma flow_append: "flow_node I (append_at_tail a b) env = Option.bind (flow_node I a env) (\<lambda>(env, _). flow_node I b env)"
proof (induction a b arbitrary: env rule: append_at_tail.induct)
  case (1 p v b t)
  then show ?case by (auto split: option.splits)
qed (auto split: option.splits simp: map_option_case)

lemma flow_assign:
  "nm_body (ir_machine I) (assign a b) s = Option.bind (nm_body (ir_machine I) a s) (nm_body (ir_machine I) b)"
proof (cases "a = unit_node \<or> b = unit_node")
  case True
  then show ?thesis by (cases s) (auto simp: ir_machine_def unit_node_def)
next
  case False
  moreover have "assign a b \<noteq> unit_node" using False assign_not_unit [of a b] by (simp add: unit_node_def)
  ultimately show ?thesis by (cases s) (auto simp: ir_machine_def assign_def unit_node_def flow_append split: option.splits Option.bind_split)
qed

interpretation ir: body_machine "ir_machine I" for I
proof
  show "nm_body (ir_machine I) unit_node s = Some s" for s by (cases s) (simp add: ir_machine_def)
qed (rule flow_assign)

section \<open>Translation of recovered skeletons\<close>

definition block_node :: "('b, 't) translator \<Rightarrow> 't \<Rightarrow> BlockCfg \<Rightarrow> IRNode" where
  "block_node T t b = (case translate_block_body T b t of Done (body, _) \<Rightarrow> body | _ \<Rightarrow> unit_node)"

lemma translate_pcs_node:
  assumes one: "\<And>held bc t. tr_one T held bc t = Done (one held bc, nxt held bc t)"
  shows "translate_pcs T pcs held body t = Done (x, u) \<Longrightarrow> translate_pcs T pcs held body t' = Done (x', u') \<Longrightarrow> x = x'"
proof (induction pcs arbitrary: held body t t')
  case (Cons pc pcs)
  then show ?case by (auto simp: Let_def sbind_def one split: if_splits)
qed (simp add: sret_def)

lemma block_node_state:
  assumes one: "\<And>held bc t. tr_one T held bc t = Done (one held bc, nxt held bc t)"
    and b: "translate_block_body T b u = Done (body, u')" and total: "\<exists>r. translate_block_body T b t = Done r"
  shows "body = block_node T t b"
proof -
  obtain body' t' where r: "translate_block_body T b t = Done (body', t')" using total by auto
  obtain x v y w where "translate_pcs T [bc_start b..<bc_end b] (tr_borrow T) unit_node u = Done (x, v)"
      "translate_pcs T [bc_start b..<bc_end b] (tr_borrow T) unit_node t = Done (y, w)"
    using b r unfolding translate_block_body_def sbind_def obind_Done_iff by auto
  moreover from this have "x = y" using translate_pcs_node [of T one nxt, OF one] by blast
  ultimately have "body = body'" using b r by (simp add: translate_block_body_def sbind_def sret_def)
  then show ?thesis using r by (simp add: block_node_def)
qed


lemma recover_small:
  "recover sole_predecessor V 4 [BLoad 0 1 (KBool True), BRet 0 [1]]
    = Done (SkSeq [SkBlock (block_new 0 1 (TReturn [1])), SkTerm TmReturn])"
  by (simp add: recover_def discover_cfg_def discover_walk_def enumerate_eq_zip push_block_def close_tail_def successors_of_def
    block_new_def Let_def eval_nat_numeral build_from_in_step_def build_block_step_def build_terminator_def loop_info_def)

definition small_translator :: "(unit, nat) translator" where
  "small_translator = \<lparr>tr_code = [BLoad 0 1 (KBool True), BRet 0 [1]], tr_temp_id = (\<lambda>_. ''t''), tr_borrow = (),
     tr_observe = (\<lambda>_. id), tr_one = (\<lambda>_ _ u. Done (IRLet [''t''] (IRConst (CBool True)) unit_node, u + 1))\<rparr>"


end
