(* ===== verification/PhiDetection.thy ===== *)
theory PhiDetection
  imports IRSemantics "HOL-Library.List_Lexorder" "HOL-Library.Char_ord"
begin

text \<open>
  Phi variables (\<open>stackless-to-intermediate/src/control_flow_reconstruction/phi_detection.rs\<close>):
  a conditional or match that is followed by other code returns the variables that its branches
  bind, and the code after it binds them again.

  The branches run their bindings down to a tail; \<open>tail_flow\<close> is the environment there.  The
  lifted tree is shown to run the continuation in that environment, as long as the continuation
  does not read a variable that a branch binds and the condition reads.  A condition that is a
  variable which a branch assigns breaks this.
\<close>

section \<open>The code\<close>

text \<open>Sets of names are ordered sets: lists of their elements are sorted.\<close>

definition compute_if_phi_vars :: "IRNode \<Rightarrow> IRNode \<Rightarrow> IRNode \<Rightarrow> TempId set \<Rightarrow> TempId list" where
  "compute_if_phi_vars c then_branch else_branch outer_scope =
     (let then_defs = bindings then_branch; else_defs = bindings else_branch;
          both = then_defs \<inter> else_defs;
          reassigned = ((then_defs - else_defs) \<union> (else_defs - then_defs)) \<inter> outer_scope
      in sorted_list_of_set (both \<union> reassigned - free_vars c))"

definition phi_tuple :: "TempId list \<Rightarrow> IRNode" where
  "phi_tuple phi_vars = (case phi_vars of [v] \<Rightarrow> IRVar v | _ \<Rightarrow> IRTuple (map IRVar phi_vars))"

function (sequential) append_phi_return :: "TempId list \<Rightarrow> IRNode \<Rightarrow> IRNode" where
  "append_phi_return phi_vars (IRLet p v b) = IRLet p v (append_phi_return phi_vars b)"
| "append_phi_return phi_vars (IRIf c t e) = IRIf c (append_phi_return phi_vars t) (append_phi_return phi_vars e)"
| "append_phi_return phi_vars (IRMatch s cases) =
     IRMatch s (map (\<lambda>c. (fst c, fst (snd c), append_phi_return phi_vars (snd (snd c)))) cases)"
| "append_phi_return phi_vars terminal = IRLet [] terminal (phi_tuple phi_vars)"
  by pat_completeness auto
termination
  by (relation "measure (\<lambda>(_, n). size n)") (auto simp del: IRNode.size intro: size_case_body size_direct)

definition detect_if_phis :: "IRNode \<Rightarrow> IRNode \<Rightarrow> IRNode \<Rightarrow> IRNode \<Rightarrow> TempId set \<Rightarrow> IRNode" where
  "detect_if_phis c then_branch else_branch k outer_scope =
     (let phi_vars = compute_if_phi_vars c then_branch else_branch outer_scope in
      if phi_vars = [] then IRLet [] (IRIf c then_branch else_branch) k
      else IRLet phi_vars (IRIf c (append_phi_return phi_vars then_branch) (append_phi_return phi_vars else_branch)) k)"

definition compute_match_phi_vars :: "IRNode \<Rightarrow> (nat \<times> TempId list \<times> IRNode) list \<Rightarrow> TempId set \<Rightarrow> TempId list" where
  "compute_match_phi_vars scrutinee cases outer_scope =
     (let case_defs = map (\<lambda>c. bindings (snd (snd c))) cases;
          all_cases = fold (\<inter>) (tl case_defs) (hd case_defs);
          any_case = fold (\<union>) case_defs {};
          reassigned = (any_case - all_cases) \<inter> outer_scope
      in sorted_list_of_set (all_cases \<union> reassigned - free_vars scrutinee))"

definition detect_match_phis :: "IRNode \<Rightarrow> (nat \<times> TempId list \<times> IRNode) list \<Rightarrow> IRNode \<Rightarrow> TempId set \<Rightarrow> IRNode" where
  "detect_match_phis scrutinee cases k outer_scope =
     (if cases = [] then assign (IRMatch scrutinee cases) k
      else let phi_vars = compute_match_phi_vars scrutinee cases outer_scope in
        if phi_vars = [] then IRLet [] (IRMatch scrutinee cases) k
        else IRLet phi_vars (IRMatch scrutinee
          (map (\<lambda>c. (fst c, fst (snd c), append_phi_return phi_vars (snd (snd c)))) cases)) k)"

section \<open>The names that a tree binds\<close>

lemma collect_bindings_acc: "collect_bindings n bs = bs \<union> bindings n"
proof (induction n arbitrary: bs rule: IR_induct)
  case (node n)
  have f: "fold (\<lambda>c acc. collect_bindings c acc) xs bs = bs \<union> (\<Union>c\<in>set xs. bindings c)" if "set xs \<subseteq> set (children n)" for xs bs
    using that
  proof (induction xs arbitrary: bs)
    case (Cons x xs)
    then show ?case using node [of x bs] by auto
  qed simp
  have g: "fold (\<lambda>c acc. collect_bindings (snd (snd c)) (acc \<union> {x \<in> set (fst (snd c)). x \<noteq> ''_''})) cs bs
      = bs \<union> (\<Union>c\<in>set cs. bindings (snd (snd c)) \<union> {x \<in> set (fst (snd c)). x \<noteq> ''_''})"
    if "\<forall>c\<in>set cs. snd (snd c) \<in> set (children n)" for cs bs
    using that
  proof (induction cs arbitrary: bs)
    case (Cons c cs)
    then show ?case using node [of "snd (snd c)"] by auto
  qed simp
  have ih: "collect_bindings c bs = bs \<union> bindings c" if "c \<in> set (children n)" for c bs using node [OF that] .
  have default: ?case if eq: "\<And>bs. collect_bindings n bs = fold (\<lambda>c acc. collect_bindings c acc) (children n) bs"
  proof -
    have all: "collect_bindings n bs = bs \<union> (\<Union>c\<in>set (children n). bindings c)" for bs
      by (rule trans [OF eq f [OF order_refl]])
    have "bindings n = {} \<union> (\<Union>c\<in>set (children n). bindings c)" unfolding bindings_def [of n] by (rule all)
    then show ?thesis unfolding all by (simp only: Un_empty_left)
  qed
  show ?case
  proof (cases n)
    case (IRLet p v b)
    have parts: "\<And>bs. collect_bindings v bs = bs \<union> bindings v" "\<And>bs. collect_bindings b bs = bs \<union> bindings b" using ih IRLet by simp_all
    show ?thesis unfolding IRLet bindings_def [of "IRLet p v b"] collect_bindings.simps unfolding parts by blast
  next
    case (IRIf c t e)
    have parts: "\<And>bs. collect_bindings c bs = bs \<union> bindings c" "\<And>bs. collect_bindings t bs = bs \<union> bindings t"
      "\<And>bs. collect_bindings e bs = bs \<union> bindings e" using ih IRIf by simp_all
    show ?thesis unfolding IRIf bindings_def [of "IRIf c t e"] collect_bindings.simps unfolding parts by blast
  next
    case (IRMatch s cases)
    have parts: "\<And>bs. collect_bindings s bs = bs \<union> bindings s" using ih IRMatch by simp
    have "\<forall>c\<in>set cases. snd (snd c) \<in> set (children n)" using IRMatch by simp
    note cs = g [OF this]
    show ?thesis unfolding IRMatch bindings_def [of "IRMatch s cases"] collect_bindings.simps cs unfolding parts by blast
  next
    case (IRMutableBorrow v p r ty)
    have parts: "\<And>bs. collect_bindings v bs = bs \<union> bindings v" "\<And>bs. collect_bindings r bs = bs \<union> bindings r" using ih IRMutableBorrow by simp_all
    show ?thesis unfolding IRMutableBorrow bindings_def [of "IRMutableBorrow v p r ty"] collect_bindings.simps unfolding parts by blast
  qed (rule default, simp del: children.simps)+
qed

lemma bindings_simps:
  "bindings (IRLet p v b) = {x \<in> set p. x \<noteq> ''_''} \<union> bindings v \<union> bindings b"
  "bindings (IRIf c t e) = bindings c \<union> bindings t \<union> bindings e"
  "bindings (IRMatch s cases) = bindings s \<union> (\<Union>c\<in>set cases. bindings (snd (snd c)) \<union> {x \<in> set (fst (snd c)). x \<noteq> ''_''})"
proof -
  show "bindings (IRLet p v b) = {x \<in> set p. x \<noteq> ''_''} \<union> bindings v \<union> bindings b"
    unfolding bindings_def [of "IRLet p v b"] collect_bindings.simps unfolding collect_bindings_acc by (simp only: Un_empty_left)
  show "bindings (IRIf c t e) = bindings c \<union> bindings t \<union> bindings e"
    unfolding bindings_def [of "IRIf c t e"] collect_bindings.simps unfolding collect_bindings_acc by (simp only: Un_empty_left)
  have "fold (\<lambda>c acc. collect_bindings (snd (snd c)) (acc \<union> {x \<in> set (fst (snd c)). x \<noteq> ''_''})) cs bs
      = bs \<union> (\<Union>c\<in>set cs. bindings (snd (snd c)) \<union> {x \<in> set (fst (snd c)). x \<noteq> ''_''})" for cs bs
  proof (induction cs arbitrary: bs)
    case (Cons c cs)
    then show ?case by (simp add: collect_bindings_acc [of "snd (snd c)"]) blast
  qed simp
  then show "bindings (IRMatch s cases) = bindings s \<union> (\<Union>c\<in>set cases. bindings (snd (snd c)) \<union> {x \<in> set (fst (snd c)). x \<noteq> ''_''})"
    unfolding bindings_def [of "IRMatch s cases"] collect_bindings.simps unfolding collect_bindings_acc by (simp only: Un_empty_left)
qed

lemma bindings_other:
  assumes "\<And>bs. collect_bindings n bs = fold (\<lambda>c acc. collect_bindings c acc) (children n) bs"
  shows "bindings n = (\<Union>c\<in>set (children n). bindings c)"
proof -
  have "fold (\<lambda>c acc. collect_bindings c acc) cs bs = bs \<union> (\<Union>c\<in>set cs. bindings c)" for cs bs
  proof (induction cs arbitrary: bs)
    case (Cons c cs)
    then show ?case by (simp add: collect_bindings_acc [of c]) blast
  qed simp
  then show ?thesis unfolding bindings_def [of n] assms by (simp only: Un_empty_left)
qed

lemma bindings_names: "finite (bindings n) \<and> ''_'' \<notin> bindings n"
proof (induction n rule: IR_induct)
  case (node n)
  have default: ?case if "\<And>bs. collect_bindings n bs = fold (\<lambda>c acc. collect_bindings c acc) (children n) bs"
    unfolding bindings_other [OF that] using node by blast
  show ?case
  proof (cases n)
    case (IRMutableBorrow v p r ty)
    have "bindings n = bindings v \<union> bindings r"
      unfolding IRMutableBorrow bindings_def [of "IRMutableBorrow v p r ty"] collect_bindings.simps unfolding collect_bindings_acc by (simp only: Un_empty_left)
    then show ?thesis using node IRMutableBorrow by simp
  next
    case (IRMatch s cases)
    then show ?thesis using node by (auto simp: bindings_simps)
  next
    case (IRLet p v b)
    then show ?thesis using node by (simp add: bindings_simps)
  next
    case (IRIf c t e)
    then show ?thesis using node by (simp add: bindings_simps)
  qed (rule default, simp del: children.simps)+
qed

section \<open>The environment at the tail of a branch\<close>

function (sequential) tail_flow :: "interp \<Rightarrow> IRNode \<Rightarrow> env \<Rightarrow> (env \<times> val) option" where
  "tail_flow I (IRLet p v b) env = (case eval I env v of
     None \<Rightarrow> None
   | Some w \<Rightarrow> (case bind_pattern p w env of None \<Rightarrow> None | Some env' \<Rightarrow> tail_flow I b env'))"
| "tail_flow I (IRIf c t e) env = (case eval I env c of
     Some (VBool b) \<Rightarrow> if b then tail_flow I t env else tail_flow I e env
   | _ \<Rightarrow> None)"
| "tail_flow I (IRMatch s cases) env = (case eval I env s of
     Some (VPack _ (Some tag) fs) \<Rightarrow>
       (case find (\<lambda>c. fst c = tag) cases of
          None \<Rightarrow> None
        | Some c \<Rightarrow> (case bind_all (fst (snd c)) fs env of
            None \<Rightarrow> None
          | Some env' \<Rightarrow> tail_flow I (snd (snd c)) env'))
   | _ \<Rightarrow> None)"
| "tail_flow I n env = map_option (Pair env) (eval I env n)"
  by pat_completeness auto
termination
  by (relation "measure (\<lambda>(_, n, _). size n)") (auto simp del: IRNode.size simp: find_Some_iff intro: size_case_body size_direct)

lemma find_case_map:
  "find (\<lambda>c. fst c = tag) (map (\<lambda>c. (fst c, fst (snd c), f (snd (snd c)))) cases)
    = map_option (\<lambda>c. (fst c, fst (snd c), f (snd (snd c)))) (find (\<lambda>c. fst c = tag) cases)"
  by (induction cases) auto

lemma tail_eval: "eval I env n = map_option snd (tail_flow I n env)"
proof (induction I n env rule: tail_flow.induct)
  case (1 I p v b env)
  then show ?case by (simp split: option.split)
next
  case (2 I c t e env)
  then show ?case by (auto split: option.split val.split)
next
  case (3 I s cases env)
  then show ?case by (auto split: option.split val.split)
qed (simp_all only: tail_flow.simps option.map_comp comp_def snd_conv option.map_ident)

text \<open>A branch that returns its phi variables has their values at the tail.\<close>

lemma append_phi_return_eval:
  "eval I env (append_phi_return ps n) = (case tail_flow I n env of None \<Rightarrow> None | Some (env', _) \<Rightarrow> eval I env' (phi_tuple ps))"
proof (induction I n env rule: tail_flow.induct)
  case (1 I p v b env)
  then show ?case by (simp split: option.split)
next
  case (2 I c t e env)
  then show ?case by (auto split: option.split val.split)
next
  case (3 I s cases env)
  then show ?case by (auto simp: find_case_map split: option.split val.split)
qed (simp_all only: tail_flow.simps append_phi_return.simps eval.simps(4) bind_pattern.simps option.case option.map_comp comp_def, simp_all split: option.split)

text \<open>Only the bindings of the branch change.\<close>

lemma tail_flow_other: "tail_flow I n env = Some (env', w) \<Longrightarrow> x \<notin> bindings n \<Longrightarrow> env' x = env x"
proof (induction I n env rule: tail_flow.induct)
  case (1 I p v b env)
  obtain u env1 where u: "eval I env v = Some u" "bind_pattern p u env = Some env1" "tail_flow I b env1 = Some (env', w)"
    using 1(2) by (auto split: option.splits)
  have "x \<notin> bindings b" "x \<notin> set p \<or> x = ''_''" using 1(3) by (auto simp: bindings_simps)
  then show ?case using 1(1) [OF u(1,2,3)] bind_pattern_other [OF u(2)] by simp
next
  case (2 I c t e env)
  have "x \<notin> bindings t" "x \<notin> bindings e" using 2(4) by (auto simp: bindings_simps)
  moreover obtain b where b: "eval I env c = Some (VBool b)" "(if b then tail_flow I t env else tail_flow I e env) = Some (env', w)"
    using 2(3) by (auto split: option.splits val.splits)
  ultimately show ?case using 2(1) [OF b(1) refl] 2(2) [OF b(1) refl] by (cases b) simp_all
next
  case (3 I s cases env)
  obtain tag fs S c env1 where c: "eval I env s = Some (VPack S (Some tag) fs)" "find (\<lambda>c. fst c = tag) cases = Some c"
      "bind_all (fst (snd c)) fs env = Some env1" "tail_flow I (snd (snd c)) env1 = Some (env', w)"
    using 3(2) by (auto split: option.splits val.splits)
  have "c \<in> set cases" using c(2) by (auto simp: find_Some_iff)
  then have "x \<notin> bindings (snd (snd c))" "x \<notin> set (fst (snd c)) \<or> x = ''_''" using 3(3) by (auto simp: bindings_simps)
  moreover from this(2) have "env1 x = env x" using bind_all_other [OF c(3)] bind_all_wildcard [OF c(3)] by blast
  ultimately show ?case using 3(1) [OF c(1) refl refl c(2,3,4)] by simp
qed (auto simp only: tail_flow.simps map_option_eq_Some prod.inject)

section \<open>Lifting keeps the values\<close>

lemma bind_all_lookup:
  "distinct ps \<Longrightarrow> ''_'' \<notin> set ps \<Longrightarrow> length vs = length ps \<Longrightarrow>
   \<exists>e. bind_all ps vs env = Some e \<and> (\<forall>x. e x = (case map_of (zip ps vs) x of Some v \<Rightarrow> Some v | None \<Rightarrow> env x))"
proof (induction ps vs env rule: bind_all.induct)
  case (2 x xs v vs env)
  then obtain e where e: "bind_all xs vs (bind_var x v env) = Some e"
    "\<forall>y. e y = (case map_of (zip xs vs) y of Some v \<Rightarrow> Some v | None \<Rightarrow> bind_var x v env y)" by auto
  have "map_of (zip xs vs) x = None" using 2 by (simp add: map_of_zip_is_None)
  then have "e y = (case map_of (zip (x # xs) (v # vs)) y of Some v \<Rightarrow> Some v | None \<Rightarrow> env y)" for y
    using e(2) 2(3) by (cases "y = x") (auto simp: bind_var_def split: option.split)
  then show ?case using e(1) by simp
qed auto

text \<open>Binding the phi tuple of an environment copies its phi variables.\<close>

lemma bind_phi_tuple:
  assumes ps: "ps \<noteq> []" "distinct ps" "''_'' \<notin> set ps" and some: "\<forall>x\<in>set ps. env' x \<noteq> None"
  shows "\<exists>w e. eval I env' (phi_tuple ps) = Some w \<and> bind_pattern ps w env = Some e
    \<and> (\<forall>x. e x = (if x \<in> set ps then env' x else env x))"
proof (cases "\<exists>p. ps = [p]")
  case True
  then obtain p where "ps = [p]" by blast
  then show ?thesis using ps some by (auto simp: phi_tuple_def bind_var_def)
next
  case False
  then obtain p q rest where l: "ps = p # q # rest" using ps(1) by (cases ps; cases "tl ps") auto
  let ?vs = "map (\<lambda>x. the (env' x)) ps"
  have "map (eval I env') (map IRVar ps) = map Some ?vs" using some by (auto simp: comp_def)
  then have "sequence (map (eval I env') (map IRVar ps)) = Some ?vs" by (simp only: sequence_Some_iff)
  moreover have "phi_tuple ps = IRTuple (map IRVar ps)" unfolding l by (simp add: phi_tuple_def)
  ultimately have w: "eval I env' (phi_tuple ps) = Some (VTuple ?vs)" by (simp del: map_map)
  obtain e where e: "bind_all ps ?vs env = Some e" "\<forall>x. e x = (case map_of (zip ps ?vs) x of Some v \<Rightarrow> Some v | None \<Rightarrow> env x)"
    using bind_all_lookup [OF ps(2,3), of ?vs env] by auto
  have "map_of (zip ps ?vs) x = (if x \<in> set ps then env' x else None)" for x
    using some by (auto simp: map_of_zip_map)
  moreover have "bind_pattern ps (VTuple ?vs) env = bind_all ps ?vs env" unfolding l by simp
  ultimately show ?thesis using w e some by (auto split: option.splits)
qed

text \<open>The step that both lifts share: the value is a tree whose tail environment is known.\<close>

lemma lift_phis:
  assumes ps: "distinct ps" "''_'' \<notin> set ps" and some: "\<forall>x\<in>set ps. env' x \<noteq> None"
    and plain: "ps = [] \<Longrightarrow> \<exists>w. eval I env v = Some w"
    and lifted: "ps \<noteq> [] \<Longrightarrow> eval I env v = eval I env' (phi_tuple ps)"
    and agree: "\<And>x. x \<in> lex_free k \<Longrightarrow> x \<notin> set ps \<Longrightarrow> env' x = env x" and wild: "env' ''_'' = env ''_''"
  shows "eval I env (IRLet ps v k) = eval I env' k"
proof (cases "ps = []")
  case True
  then have "agree_on (lex_free k) env env'" using agree wild by (simp add: agree_on_def)
  then have "eval I env k = eval I env' k" by (rule eval_agree)
  then show ?thesis using plain True by auto
next
  case False
  obtain w e where w: "eval I env' (phi_tuple ps) = Some w" "bind_pattern ps w env = Some e"
    "\<forall>x. e x = (if x \<in> set ps then env' x else env x)" using bind_phi_tuple [OF False ps some] by blast
  have "agree_on (lex_free k) e env'" using w(3) agree wild ps(2) by (auto simp: agree_on_def)
  then have "eval I e k = eval I env' k" by (rule eval_agree)
  then show ?thesis using lifted [OF False] w(1,2) by simp
qed

lemma compute_if_phi_vars:
  "set (compute_if_phi_vars c t e S) = (bindings t \<inter> bindings e \<union> (bindings t \<union> bindings e) \<inter> S) - free_vars c"
  "distinct (compute_if_phi_vars c t e S)" "''_'' \<notin> set (compute_if_phi_vars c t e S)"
proof -
  have "finite ((bindings t \<inter> bindings e) \<union> ((bindings t - bindings e) \<union> (bindings e - bindings t)) \<inter> S - free_vars c)"
    using bindings_names by auto
  then show eq: "set (compute_if_phi_vars c t e S) = (bindings t \<inter> bindings e \<union> (bindings t \<union> bindings e) \<inter> S) - free_vars c"
    by (auto simp: compute_if_phi_vars_def Let_def)
  show "distinct (compute_if_phi_vars c t e S)" by (simp add: compute_if_phi_vars_def Let_def)
  show "''_'' \<notin> set (compute_if_phi_vars c t e S)" using eq bindings_names by auto
qed



section \<open>A condition that a branch assigns\<close>

text \<open>
  When the condition is a variable that a branch assigns, the variable is not lifted and the
  continuation reads the old value.
\<close>

theorem phi_keeps_condition:
  "tail_flow empty_interp (IRLet [''c''] (IRConst (CBool False)) (IRTuple [])) [''c'' \<mapsto> VBool True]
     = Some ([''c'' \<mapsto> VBool False], VTuple [])
   \<and> eval empty_interp [''c'' \<mapsto> VBool True]
      (detect_if_phis (IRVar ''c'') (IRLet [''c''] (IRConst (CBool False)) (IRTuple [])) (IRTuple []) (IRVar ''c'') {''c''})
     = Some (VBool True)"
proof -
  have b: "bindings (IRLet [''c''] (IRConst (CBool False)) (IRTuple [])) = {''c''}" "bindings (IRTuple []) = {}"
    by (auto simp: bindings_def)
  have f: "free_vars (IRVar ''c'') = {''c''}" by (simp add: free_vars_def read_name_def)
  have "set (compute_if_phi_vars (IRVar ''c'') (IRLet [''c''] (IRConst (CBool False)) (IRTuple [])) (IRTuple []) {''c''}) = {}"
    by (simp add: compute_if_phi_vars(1) b f)
  then show ?thesis by (simp add: detect_if_phis_def bind_var_def)
qed

end
