(* ===== verification/EarlyReturn.thy ===== *)
theory EarlyReturn
  imports Structured PhiDetection Stores MoveTy
begin

text \<open>
  The last phase of control flow reconstruction
  (\<open>stackless-to-intermediate/src/control_flow_reconstruction/early_return.rs\<close>,
  \<open>loop_handling.rs\<close>, \<open>mod.rs\<close>): a structure becomes one tree, once for the value of the function
  and once for the condition that it aborts.  A loop becomes two functions of the program, its
  iteration and what follows it.
\<close>

section \<open>The context\<close>

datatype EmitMode = EmBody | EmAborts

record WhileLoopInfo =
  wl_while_func_id :: FunctionID
  wl_after_func_id :: FunctionID
  wl_while_params :: "TempId list"
  wl_after_params :: "TempId list"
  wl_type_args :: "Type list"
  wl_hyp_param :: "TempId option"

record Parameter =
  pa_name :: string
  pa_type :: Type
  pa_ssa_value :: TempId

record FunctionSignature =
  sg_type_params :: "string list"
  sg_parameters :: "Parameter list"
  sg_return_type :: Type

text \<open>The fields of a function that emission sets to constants (no theorem, not native, no test,
  no group) are left out.\<close>

record Function =
  fu_module_id :: nat
  fu_name :: string
  fu_signature :: FunctionSignature
  fu_body :: IRNode

text \<open>Of the program, the functions and the loop invariants.\<close>

record 'k EmitContext =
  ec_functions :: "('k, Function) function_store"
  ec_loop_invariants :: "string set"
  ec_loop_inv_hyps :: "FunctionID \<rightharpoonup> string \<times> string"
  ec_module_id :: nat
  ec_func_name :: string
  ec_type_params :: "string list"
  ec_variables :: "TempId \<rightharpoonup> Type"
  ec_return_type :: Type
  ec_mode :: EmitMode
  ec_preserve_aborts :: bool
  ec_while_counter :: nat
  ec_while_stack :: "WhileLoopInfo list"
  ec_scope :: "TempId set"

definition emit_context_new ::
  "('k, Function) function_store \<Rightarrow> string set \<Rightarrow> (FunctionID \<rightharpoonup> string \<times> string) \<Rightarrow> nat \<Rightarrow> string \<Rightarrow> FunctionSignature
    \<Rightarrow> (TempId \<rightharpoonup> Type) \<Rightarrow> EmitMode \<Rightarrow> bool \<Rightarrow> 'k EmitContext" where
  "emit_context_new functions invariants hyps module_id func_name sig variables mode preserve_aborts =
     \<lparr>ec_functions = functions, ec_loop_invariants = invariants, ec_loop_inv_hyps = hyps, ec_module_id = module_id,
      ec_func_name = func_name, ec_type_params = sg_type_params sig, ec_variables = variables,
      ec_return_type = sg_return_type sig, ec_mode = mode, ec_preserve_aborts = preserve_aborts, ec_while_counter = 0,
      ec_while_stack = [], ec_scope = {v \<in> set (map pa_ssa_value (sg_parameters sig)). v \<noteq> ''_''}\<rparr>"

definition extend_scope :: "IRNode \<Rightarrow> 'k EmitContext \<Rightarrow> 'k EmitContext" where
  "extend_scope node ctx = ctx\<lparr>ec_scope := ec_scope ctx \<union> bindings node\<rparr>"

definition restore_scope :: "TempId set \<Rightarrow> 'k EmitContext \<Rightarrow> 'k EmitContext" where
  "restore_scope saved ctx = ctx\<lparr>ec_scope := saved\<rparr>"

definition next_while_name :: "'k EmitContext \<Rightarrow> string \<times> 'k EmitContext" where
  "next_while_name ctx = (ec_func_name ctx @ ''.while_'' @ digits (ec_while_counter ctx), ctx\<lparr>ec_while_counter := ec_while_counter ctx + 1\<rparr>)"

text \<open>The last element of the stack is the innermost loop.\<close>

definition push_while :: "WhileLoopInfo \<Rightarrow> 'k EmitContext \<Rightarrow> 'k EmitContext" where
  "push_while info ctx = ctx\<lparr>ec_while_stack := ec_while_stack ctx @ [info]\<rparr>"

definition pop_while :: "'k EmitContext \<Rightarrow> 'k EmitContext" where
  "pop_while ctx = ctx\<lparr>ec_while_stack := butlast (ec_while_stack ctx)\<rparr>"

definition enclosing_while :: "'k EmitContext \<Rightarrow> nat \<Rightarrow> WhileLoopInfo option" where
  "enclosing_while ctx level =
     (let len = length (ec_while_stack ctx) in
      if level \<ge> len then None else Some (ec_while_stack ctx ! (len - 1 - level)))"

definition no_abort :: IRNode where
  "no_abort = IRConst (CBool False)"

definition does_abort :: IRNode where
  "does_abort = IRConst (CBool True)"

section \<open>Leaves and loop calls\<close>

definition emit_loop_call :: "'k EmitContext \<Rightarrow> nat \<Rightarrow> IRNode \<Rightarrow> (WhileLoopInfo \<Rightarrow> TempId list) \<Rightarrow> (WhileLoopInfo \<Rightarrow> FunctionID) \<Rightarrow> IRNode" where
  "emit_loop_call ctx level body params_of func_id_of =
     (case enclosing_while ctx level of
        Some info \<Rightarrow>
          let args = map IRVar (params_of info) @
              (case wl_hyp_param info of Some hp \<Rightarrow> if func_id_of info = wl_while_func_id info then [IRVar hp] else [] | None \<Rightarrow> [])
          in assign body (IRCall (func_id_of info) (wl_type_args info) args)
      | None \<Rightarrow> (case ec_mode ctx of EmBody \<Rightarrow> body | EmAborts \<Rightarrow> assign body no_abort))"

definition emit_continue :: "'k EmitContext \<Rightarrow> nat \<Rightarrow> IRNode \<Rightarrow> IRNode" where
  "emit_continue ctx level body = emit_loop_call ctx level body wl_while_params wl_while_func_id"

definition emit_break :: "'k EmitContext \<Rightarrow> nat \<Rightarrow> IRNode \<Rightarrow> IRNode" where
  "emit_break ctx level body = emit_loop_call ctx level body wl_after_params wl_after_func_id"

type_synonym 'k emitter = "'k EmitContext \<Rightarrow> IRNode \<times> 'k EmitContext"

definition emit_leaf :: "IRNode \<Rightarrow> Termination option \<Rightarrow> 'k emitter" where
  "emit_leaf body termination ctx0 =
     (let ctx = extend_scope body ctx0 in
      (case termination of
         Some TmReturn \<Rightarrow> (case ec_mode ctx of EmBody \<Rightarrow> body | EmAborts \<Rightarrow> assign body no_abort)
       | Some (TmAbort code) \<Rightarrow> (case ec_mode ctx of EmBody \<Rightarrow> assign body (IRAbort code) | EmAborts \<Rightarrow> assign body does_abort)
       | Some (TmContinue level) \<Rightarrow> emit_continue ctx level body
       | Some (TmBreak level) \<Rightarrow> emit_break ctx level body
       | None \<Rightarrow> (case ec_mode ctx of EmBody \<Rightarrow> body | EmAborts \<Rightarrow> assign body no_abort), ctx))"

section \<open>Conditionals and switches\<close>

definition finish_if :: "IRNode \<Rightarrow> IRNode \<Rightarrow> IRNode \<Rightarrow> IRNode \<Rightarrow> IRNode" where
  "finish_if body c then_ir else_ir = assign body (IRIf c then_ir else_ir)"

definition default_continuation :: "'k emitter option \<Rightarrow> 'k emitter" where
  "default_continuation k ctx =
     (case k of Some f \<Rightarrow> f ctx
      | None \<Rightarrow> (case ec_mode ctx of EmBody \<Rightarrow> unit_node | EmAborts \<Rightarrow> no_abort, ctx))"

text \<open>The branch that survives when exactly one always aborts.\<close>

definition surviving :: "'k EmitContext \<Rightarrow> Structure \<Rightarrow> Structure \<Rightarrow> bool option" where
  "surviving ctx then_branch else_branch =
     (if ec_mode ctx \<noteq> EmBody \<or> ec_preserve_aborts ctx then None
      else case (always_aborts then_branch, always_aborts else_branch) of
        (True, False) \<Rightarrow> Some False
      | (False, True) \<Rightarrow> Some True
      | _ \<Rightarrow> None)"

definition try_abort_prune_if :: "IRNode \<Rightarrow> Structure \<Rightarrow> Structure \<Rightarrow> 'k emitter \<Rightarrow> 'k emitter \<Rightarrow> 'k emitter option \<Rightarrow> TempId set
    \<Rightarrow> 'k EmitContext \<Rightarrow> (IRNode \<times> 'k EmitContext) option" where
  "try_abort_prune_if body then_branch else_branch ft fe fk scope_after_body ctx =
     map_option (\<lambda>which.
       let (surviving_ir, ctx1) = (if which then ft ctx else fe ctx);
           ctx2 = restore_scope scope_after_body ctx1;
           (conv, ctx3) = (case fk of Some f \<Rightarrow> f ctx2 | None \<Rightarrow> (unit_node, ctx2))
       in (assign body (assign surviving_ir conv), ctx3)) (surviving ctx then_branch else_branch)"

text \<open>Both branches fall through: their variables are lifted over the continuation.\<close>

definition emit_if_merge :: "IRNode \<Rightarrow> IRNode \<Rightarrow> 'k emitter \<Rightarrow> 'k emitter \<Rightarrow> 'k emitter option \<Rightarrow> TempId set \<Rightarrow> 'k emitter" where
  "emit_if_merge body c ft fe fk scope_after_body ctx =
     (let (then_ir, ctx1) = ft (restore_scope scope_after_body ctx);
          (else_ir, ctx2) = fe (restore_scope scope_after_body ctx1)
      in case fk of
        Some f \<Rightarrow>
          let phi_vars = compute_if_phi_vars c then_ir else_ir scope_after_body;
              (conv, ctx3) = f (restore_scope (scope_after_body \<union> set phi_vars) ctx2)
          in (assign body (detect_if_phis c then_ir else_ir conv scope_after_body), ctx3)
      | None \<Rightarrow> (finish_if body c then_ir else_ir, ctx2))"

definition emit_if_returns :: "IRNode \<Rightarrow> IRNode \<Rightarrow> bool \<Rightarrow> bool \<Rightarrow> 'k emitter \<Rightarrow> 'k emitter \<Rightarrow> 'k emitter option \<Rightarrow> TempId set \<Rightarrow> 'k emitter" where
  "emit_if_returns body c then_returns else_returns ft fe fk scope_after_body ctx =
     (let (then_ir, ctx1) = ft (restore_scope scope_after_body ctx);
          (else_ir, ctx2) = fe (restore_scope scope_after_body ctx1)
      in if \<not> then_returns \<or> \<not> else_returns then
           let (conv, ctx3) = default_continuation fk (restore_scope scope_after_body ctx2)
           in (finish_if body c (if then_returns then then_ir else assign then_ir conv)
                 (if else_returns then else_ir else assign else_ir conv), ctx3)
         else (finish_if body c then_ir else_ir, ctx2))"

definition emit_if :: "IRNode \<Rightarrow> IRNode \<Rightarrow> Structure \<Rightarrow> Structure \<Rightarrow> 'k emitter \<Rightarrow> 'k emitter \<Rightarrow> 'k emitter option \<Rightarrow> 'k emitter" where
  "emit_if body c then_branch else_branch ft fe fk ctx0 =
     (let ctx = extend_scope body ctx0; scope_after_body = ec_scope ctx in
      case try_abort_prune_if body then_branch else_branch ft fe fk scope_after_body ctx of
        Some pruned \<Rightarrow> pruned
      | None \<Rightarrow>
          let then_returns = always_returns then_branch; else_returns = always_returns else_branch in
          if \<not> then_returns \<and> \<not> else_returns then emit_if_merge body c ft fe fk scope_after_body ctx
          else emit_if_returns body c then_returns else_returns ft fe fk scope_after_body ctx)"

fun emit_cases :: "TempId set \<Rightarrow> nat \<Rightarrow> 'k emitter list \<Rightarrow> 'k EmitContext \<Rightarrow> (nat \<times> TempId list \<times> IRNode) list \<times> 'k EmitContext" where
  "emit_cases scope_after_body i [] ctx = ([], ctx)"
| "emit_cases scope_after_body i (f # fs) ctx =
     (let (ir, ctx1) = f (restore_scope scope_after_body ctx);
          (cases, ctx2) = emit_cases scope_after_body (i + 1) fs ctx1
      in ((i, [], ir) # cases, ctx2))"

definition emit_switch :: "IRNode \<Rightarrow> IRNode \<Rightarrow> 'k emitter list \<Rightarrow> 'k emitter option \<Rightarrow> 'k emitter" where
  "emit_switch body scrutinee fs fk ctx0 =
     (let ctx = extend_scope body ctx0; scope_after_body = ec_scope ctx;
          (conv, ctx1) = default_continuation fk ctx;
          (match_cases, ctx2) = emit_cases scope_after_body 0 fs ctx1;
          ctx3 = restore_scope scope_after_body ctx2
      in (assign body (if fk \<noteq> None then detect_match_phis scrutinee match_cases conv scope_after_body
            else IRMatch scrutinee match_cases), ctx3))"

section \<open>Loops\<close>

fun collect_structure_bindings :: "Structure \<Rightarrow> TempId set" where
  "collect_structure_bindings (StLeaf body _) = bindings body"
| "collect_structure_bindings (StIf body c t e k) =
     bindings body \<union> collect_structure_bindings t \<union> collect_structure_bindings e
     \<union> (case k of Some s \<Rightarrow> collect_structure_bindings s | None \<Rightarrow> {})"
| "collect_structure_bindings (StWhile body l k) =
     bindings body \<union> collect_structure_bindings l \<union> (case k of Some s \<Rightarrow> collect_structure_bindings s | None \<Rightarrow> {})"
| "collect_structure_bindings (StSwitch body x cs k) =
     bindings body \<union> (\<Union>s\<in>set cs. collect_structure_bindings s)
     \<union> (case k of Some s \<Rightarrow> collect_structure_bindings s | None \<Rightarrow> {})"

fun collect_structure_free_vars :: "Structure \<Rightarrow> TempId set" where
  "collect_structure_free_vars (StLeaf body _) = free_vars body"
| "collect_structure_free_vars (StIf body c t e k) =
     free_vars body \<union> free_vars c \<union> collect_structure_free_vars t \<union> collect_structure_free_vars e
     \<union> (case k of Some s \<Rightarrow> collect_structure_free_vars s | None \<Rightarrow> {})"
| "collect_structure_free_vars (StWhile body l k) =
     free_vars body \<union> collect_structure_free_vars l \<union> (case k of Some s \<Rightarrow> collect_structure_free_vars s | None \<Rightarrow> {})"
| "collect_structure_free_vars (StSwitch body x cs k) =
     free_vars body \<union> free_vars x \<union> (\<Union>s\<in>set cs. collect_structure_free_vars s)
     \<union> (case k of Some s \<Rightarrow> collect_structure_free_vars s | None \<Rightarrow> {})"

text \<open>The continues and breaks that leave a loop with \<open>offset\<close> loops entered below it: the level
  of the target around the loop, and whether it is a break.\<close>

definition term_resolution :: "nat \<Rightarrow> int \<Rightarrow> bool \<Rightarrow> (nat \<times> bool) list" where
  "term_resolution level offset is_break =
     (let resolved_offset = offset - 1 - int level in
      if resolved_offset < 0 then [(nat (- resolved_offset - 1), is_break)] else [])"

fun collect_term_resolutions :: "Structure \<Rightarrow> int \<Rightarrow> (nat \<times> bool) list" where
  "collect_term_resolutions (StLeaf _ t) offset =
     (case t of Some (TmContinue level) \<Rightarrow> term_resolution level offset False
      | Some (TmBreak level) \<Rightarrow> term_resolution level offset True
      | _ \<Rightarrow> [])"
| "collect_term_resolutions (StIf _ _ t e k) offset =
     collect_term_resolutions t offset @ collect_term_resolutions e offset
     @ (case k of Some s \<Rightarrow> collect_term_resolutions s offset | None \<Rightarrow> [])"
| "collect_term_resolutions (StWhile _ l k) offset =
     collect_term_resolutions l (offset + 1) @ (case k of Some s \<Rightarrow> collect_term_resolutions s offset | None \<Rightarrow> [])"
| "collect_term_resolutions (StSwitch _ _ cs k) offset =
     concat (map (\<lambda>s. collect_term_resolutions s offset) cs)
     @ (case k of Some s \<Rightarrow> collect_term_resolutions s offset | None \<Rightarrow> [])"

fun walk_break_paths :: "Structure \<Rightarrow> nat \<Rightarrow> TempId set \<Rightarrow> TempId set list" where
  "walk_break_paths (StLeaf body t) depth in_set =
     (case t of Some (TmBreak level) \<Rightarrow> if level = depth then [in_set \<union> bindings body] else [] | _ \<Rightarrow> [])"
| "walk_break_paths (StIf body _ t e k) depth in_set =
     walk_break_paths t depth (in_set \<union> bindings body) @ walk_break_paths e depth (in_set \<union> bindings body)
     @ (case k of Some s \<Rightarrow> walk_break_paths s depth (in_set \<union> bindings body) | None \<Rightarrow> [])"
| "walk_break_paths (StWhile body l k) depth in_set =
     walk_break_paths l (depth + 1) (in_set \<union> bindings body)
     @ (case k of Some s \<Rightarrow> walk_break_paths s depth (in_set \<union> bindings body) | None \<Rightarrow> [])"
| "walk_break_paths (StSwitch body _ cs k) depth in_set =
     concat (map (\<lambda>s. walk_break_paths s depth (in_set \<union> bindings body)) cs)
     @ (case k of Some s \<Rightarrow> walk_break_paths s depth (in_set \<union> bindings body) | None \<Rightarrow> [])"

definition collect_break_safe_bindings :: "Structure \<Rightarrow> TempId set" where
  "collect_break_safe_bindings loop_body =
     (case walk_break_paths loop_body 0 {} of [] \<Rightarrow> {} | s # snapshots \<Rightarrow> fold (\<inter>) snapshots s)"

definition make_param :: "'k EmitContext \<Rightarrow> TempId \<Rightarrow> Parameter" where
  "make_param ctx name = \<lparr>pa_name = name,
     pa_type = (case ec_variables ctx name of Some t \<Rightarrow> t | None \<Rightarrow> TyTuple []), pa_ssa_value = name\<rparr>"

definition loop_used_vars :: "'k EmitContext \<Rightarrow> Structure \<Rightarrow> Structure option \<Rightarrow> TempId set" where
  "loop_used_vars ctx loop_body k =
     collect_structure_free_vars loop_body \<union> (case k of Some s \<Rightarrow> collect_structure_free_vars s | None \<Rightarrow> {})
     \<union> (\<Union>(enc_level, is_break) \<in> set (collect_term_resolutions loop_body 1 @ (case k of Some s \<Rightarrow> collect_term_resolutions s 0 | None \<Rightarrow> [])).
          case enclosing_while ctx enc_level of
            Some info \<Rightarrow> set (if is_break then wl_after_params info else wl_while_params info)
          | None \<Rightarrow> {})"

definition loop_while_params :: "'k EmitContext \<Rightarrow> Structure \<Rightarrow> Structure option \<Rightarrow> TempId list" where
  "loop_while_params ctx loop_body k = sorted_list_of_set {v \<in> ec_scope ctx. v \<noteq> ''_'' \<and> v \<in> loop_used_vars ctx loop_body k}"

definition loop_after_params :: "'k EmitContext \<Rightarrow> Structure \<Rightarrow> IRNode \<Rightarrow> TempId list \<Rightarrow> TempId list" where
  "loop_after_params ctx loop_body conv while_params =
     while_params @ sorted_list_of_set {v \<in> free_vars conv. v \<noteq> ''_'' \<and> v \<notin> set while_params
       \<and> v \<in> collect_break_safe_bindings loop_body \<and> ec_variables ctx v \<noteq> None}"

definition loop_function :: "'k EmitContext \<Rightarrow> string \<Rightarrow> TempId list \<Rightarrow> IRNode \<Rightarrow> Function" where
  "loop_function ctx name params body = \<lparr>fu_module_id = ec_module_id ctx, fu_name = name,
     fu_signature = \<lparr>sg_type_params = ec_type_params ctx, sg_parameters = map (make_param ctx) params,
       sg_return_type = (case ec_mode ctx of EmBody \<Rightarrow> ec_return_type ctx | EmAborts \<Rightarrow> TyBool)\<rparr>,
     fu_body = body\<rparr>"

definition after_body_node :: "Type \<Rightarrow> IRNode \<Rightarrow> IRNode" where
  "after_body_node return_type conv =
     (if conv = unit_node \<and> return_type \<noteq> TyTuple [] \<and> return_type \<noteq> TyBool then IRInhabited else conv)"

definition emit_while :: "IRNode \<Rightarrow> Structure \<Rightarrow> Structure option \<Rightarrow> 'k emitter \<Rightarrow> 'k emitter option \<Rightarrow> 'k emitter" where
  "emit_while body loop_body k fl fk ctx0 =
     (let ctx1 = extend_scope body ctx0; scope_at_loop = ec_scope ctx1;
          (conv, ctx2) = default_continuation fk ctx1;
          ctx3 = restore_scope scope_at_loop ctx2;
          while_params = loop_while_params ctx3 loop_body k;
          (while_func_id, fs1) = fs_reserve_id (ec_functions ctx3);
          (after_func_id, fs2) = fs_reserve_id fs1;
          (while_name, ctx4) = next_while_name (ctx3\<lparr>ec_functions := fs2\<rparr>);
          suffix = (case ec_mode ctx4 of EmBody \<Rightarrow> '''' | EmAborts \<Rightarrow> ''.aborts'');
          guarded = (ec_func_name ctx4 \<in> ec_loop_invariants ctx4);
          hyp_param = (if guarded then Some ''hinv'' else None);
          ctx5 = (if guarded
            then ctx4\<lparr>ec_loop_inv_hyps := (ec_loop_inv_hyps ctx4)(while_func_id \<mapsto> (''hinv'', while_name @ ''.loop_hyp''))\<rparr> else ctx4);
          type_args = map TyTypeParameter [0..<length (ec_type_params ctx5)];
          after_params = loop_after_params ctx5 loop_body conv while_params;
          (loop_ir, ctx6) = fl (push_while \<lparr>wl_while_func_id = while_func_id, wl_after_func_id = after_func_id,
            wl_while_params = while_params, wl_after_params = after_params, wl_type_args = type_args, wl_hyp_param = hyp_param\<rparr> ctx5);
          ctx7 = restore_scope scope_at_loop (pop_while ctx6);
          while_func = loop_function ctx7 (while_name @ suffix) while_params loop_ir;
          return_type = sg_return_type (fu_signature while_func);
          after_func = loop_function ctx7 (while_name @ ''.after'' @ suffix) after_params (after_body_node return_type conv);
          ctx8 = ctx7\<lparr>ec_functions := fs_insert after_func_id after_func (fs_insert while_func_id while_func (ec_functions ctx7))\<rparr>;
          args = map IRVar while_params @ (if hyp_param \<noteq> None then [IRAbort None] else [])
      in (assign body (IRCall while_func_id type_args args), ctx8))"

primrec emit :: "Structure \<Rightarrow> 'k emitter" where
  "emit (StLeaf body t) = emit_leaf body t"
| "emit (StIf body c t e k) = emit_if body c t e (emit t) (emit e) (map_option emit k)"
| "emit (StWhile body l k) = emit_while body l k (emit l) (map_option emit k)"
| "emit (StSwitch body x cs k) = emit_switch body x (map emit cs) (map_option emit k)"

end
