(* ===== verification/EmitRun.thy ===== *)
theory EmitRun
  imports EarlyReturn StructuredRun
begin

text \<open>
  What emission does: it only adds the functions of its loops to the program, and a structure
  without loops and switches becomes a tree with the value that the structure returns, and a tree
  that says whether it aborts.
\<close>

section \<open>Emission adds the functions of its loops\<close>

text \<open>\<open>k\<close> loops add \<open>2 * k\<close> functions, under ids that were not in use; the other functions stay.\<close>

definition grown :: "nat \<Rightarrow> ('k, 'f) function_store \<Rightarrow> ('k, 'f) function_store \<Rightarrow> bool" where
  "grown k s s' \<longleftrightarrow> fn_ids s' = fn_ids s \<and> next_id s' = next_id s + 2 * k
     \<and> (\<forall>i. if next_id s \<le> i \<and> i < next_id s + 2 * k then fs_has i s' else fs_get i s' = fs_get i s)"

lemma grown_0: "grown 0 s s"
  by (auto simp: grown_def)

lemma grown_add:
  assumes "grown k a b" "grown l b c"
  shows "grown (k + l) a c"
proof -
  have "if next_id a \<le> i \<and> i < next_id a + 2 * (k + l) then fs_has i c else fs_get i c = fs_get i a" for i
    using assms unfolding grown_def fs_has_def fs_get_def by (elim conjE allE [of _ i]) (auto split: if_splits)
  then show ?thesis using assms by (simp add: grown_def)
qed

definition frame_of :: "'k EmitContext \<Rightarrow> 'k EmitContext" where
  "frame_of ctx = ctx\<lparr>ec_functions := fs_default, ec_loop_inv_hyps := Map.empty, ec_while_counter := 0, ec_scope := {}\<rparr>"

definition keeps :: "'k EmitContext \<Rightarrow> 'k EmitContext \<Rightarrow> bool" where
  "keeps ctx ctx' \<longleftrightarrow> frame_of ctx' = frame_of ctx
     \<and> (\<exists>k. ec_while_counter ctx' = ec_while_counter ctx + k \<and> grown k (ec_functions ctx) (ec_functions ctx'))"

definition steady :: "'k emitter \<Rightarrow> bool" where
  "steady f \<longleftrightarrow> (\<forall>ctx. keeps ctx (snd (f ctx)))"

lemma steadyD: "steady f \<Longrightarrow> f ctx = (x, ctx') \<Longrightarrow> keeps ctx ctx'"
  unfolding steady_def by (metis snd_conv)

lemma keeps_refl: "keeps ctx ctx"
  unfolding keeps_def using grown_0 by (metis add_0_right)

lemma keeps_trans:
  assumes "keeps a b" "keeps b c"
  shows "keeps a c"
proof -
  obtain k l where "ec_while_counter b = ec_while_counter a + k" "grown k (ec_functions a) (ec_functions b)"
      "ec_while_counter c = ec_while_counter b + l" "grown l (ec_functions b) (ec_functions c)"
    using assms unfolding keeps_def by blast
  then have "ec_while_counter c = ec_while_counter a + (k + l)" "grown (k + l) (ec_functions a) (ec_functions c)"
    using grown_add by auto
  then show ?thesis using assms unfolding keeps_def by (metis (no_types))
qed

lemma keeps_restore: "keeps ctx (restore_scope S ctx)"
  using grown_0 [of "ec_functions ctx"] by (simp add: keeps_def restore_scope_def frame_of_def)

lemma keeps_extend: "keeps ctx (extend_scope b ctx)"
  using grown_0 [of "ec_functions ctx"] by (simp add: keeps_def extend_scope_def frame_of_def)

lemmas keeps_moves = keeps_restore keeps_extend keeps_refl

lemma steady_seq:
  "steady f \<Longrightarrow> f (restore_scope S ctx) = (x, ctx') \<Longrightarrow> keeps ctx ctx'"
  using steadyD keeps_trans keeps_restore by metis

lemma steady_leaf: "steady (emit_leaf body t)"
  by (simp add: steady_def emit_leaf_def Let_def keeps_extend)

lemma steady_default: "(\<And>f. k = Some f \<Longrightarrow> steady f) \<Longrightarrow> steady (default_continuation k)"
  by (auto simp: steady_def default_continuation_def keeps_refl split: option.split)

lemma steady_merge:
  assumes "steady ft" "steady fe" "\<And>f. fk = Some f \<Longrightarrow> steady f"
  shows "steady (emit_if_merge body c ft fe fk S)"
  unfolding steady_def
proof
  fix ctx :: "'a EmitContext"
  obtain t ctx1 e ctx2 where r: "ft (restore_scope S ctx) = (t, ctx1)" "fe (restore_scope S ctx1) = (e, ctx2)"
    by (metis prod.exhaust)
  have two: "keeps ctx ctx2" using keeps_trans steady_seq [OF assms(1) r(1)] steady_seq [OF assms(2) r(2)] by blast
  show "keeps ctx (snd (emit_if_merge body c ft fe fk S ctx))"
  proof (cases fk)
    case (Some f)
    obtain k ctx3 where "f (restore_scope (S \<union> set (compute_if_phi_vars c t e S)) ctx2) = (k, ctx3)" by (metis prod.exhaust)
    then show ?thesis using keeps_trans [OF two] steady_seq [OF assms(3) [OF Some]] r Some by (simp add: emit_if_merge_def Let_def)
  qed (use r two in \<open>simp add: emit_if_merge_def\<close>)
qed

lemma steady_returns:
  assumes "steady ft" "steady fe" "\<And>f. fk = Some f \<Longrightarrow> steady f"
  shows "steady (emit_if_returns body c tr er ft fe fk S)"
  unfolding steady_def
proof
  fix ctx :: "'a EmitContext"
  obtain t ctx1 e ctx2 k ctx3 where r: "ft (restore_scope S ctx) = (t, ctx1)" "fe (restore_scope S ctx1) = (e, ctx2)"
      "default_continuation fk (restore_scope S ctx2) = (k, ctx3)"
    by (metis prod.exhaust)
  have two: "keeps ctx ctx2" using keeps_trans steady_seq [OF assms(1) r(1)] steady_seq [OF assms(2) r(2)] by blast
  have "keeps ctx ctx3" using keeps_trans [OF two] steady_seq [OF steady_default r(3)] assms(3) by blast
  then show "keeps ctx (snd (emit_if_returns body c tr er ft fe fk S ctx))" using r two by (simp add: emit_if_returns_def Let_def)
qed

lemma steady_prune:
  assumes "steady ft" "steady fe" "\<And>f. fk = Some f \<Longrightarrow> steady f"
    and "try_abort_prune_if body t e ft fe fk S ctx = Some (x, ctx')"
  shows "keeps ctx ctx'"
proof -
  obtain which where which: "surviving ctx t e = Some which" using assms(4) by (auto simp: try_abort_prune_if_def)
  define g where "g = (if which then ft else fe)"
  obtain y ctx1 where y: "g ctx = (y, ctx1)" by (metis prod.exhaust)
  note g = which g_def y
  have one: "keeps ctx ctx1" using steadyD [where f = g, OF _ y] assms(1,2) g(2) by (cases which) auto
  show ?thesis
  proof (cases fk)
    case None
    then show ?thesis using assms(4) g one keeps_trans [OF one keeps_restore] by (auto simp: try_abort_prune_if_def split: prod.splits if_splits)
  next
    case (Some f)
    then show ?thesis using assms(4) g keeps_trans [OF one] steady_seq [OF assms(3) [OF Some]]
      by (auto simp: try_abort_prune_if_def split: prod.splits if_splits)
  qed
qed

lemma steady_if:
  assumes "steady ft" "steady fe" "\<And>f. fk = Some f \<Longrightarrow> steady f"
  shows "steady (emit_if body c t e ft fe fk)"
  unfolding steady_def
proof
  fix ctx :: "'a EmitContext"
  let ?ctx = "extend_scope body ctx"
  have "keeps ?ctx (snd (emit_if body c t e ft fe fk ctx))"
  proof (cases "try_abort_prune_if body t e ft fe fk (ec_scope ?ctx) ?ctx")
    case None
    have "steady (emit_if_merge body c ft fe fk S)" "steady (emit_if_returns body c tr er ft fe fk S)" for S tr er
      using steady_merge steady_returns assms by blast+
    then show ?thesis using None by (simp add: emit_if_def Let_def steady_def)
  next
    case (Some p)
    then show ?thesis using steady_prune [OF assms] by (cases p) (fastforce simp: emit_if_def Let_def)
  qed
  then show "keeps ctx (snd (emit_if body c t e ft fe fk ctx))" using keeps_trans keeps_extend by blast
qed

lemma steady_cases: "\<forall>f\<in>set fs. steady f \<Longrightarrow> emit_cases S i fs ctx = (cs, ctx') \<Longrightarrow> keeps ctx ctx'"
proof (induction fs arbitrary: i ctx cs)
  case (Cons f fs)
  then obtain x ctx1 cs' where r: "f (restore_scope S ctx) = (x, ctx1)" "emit_cases S (i + 1) fs ctx1 = (cs', ctx')"
    by (auto split: prod.splits)
  show ?case using keeps_trans [OF steady_seq [where f = f, OF _ r(1)] Cons.IH [OF _ r(2)]] Cons.prems(1) by simp
qed (simp add: keeps_refl)

lemma steady_switch:
  assumes "\<forall>f\<in>set fs. steady f" "\<And>f. fk = Some f \<Longrightarrow> steady f"
  shows "steady (emit_switch body x fs fk)"
  unfolding steady_def
proof
  fix ctx :: "'a EmitContext"
  let ?ctx = "extend_scope body ctx"
  obtain k ctx1 cs ctx2 where r: "default_continuation fk ?ctx = (k, ctx1)" "emit_cases (ec_scope ?ctx) 0 fs ctx1 = (cs, ctx2)"
    by (metis prod.exhaust)
  have "keeps ctx ctx1" using keeps_trans [OF keeps_extend] steadyD [OF steady_default r(1)] assms(2) by blast
  then have "keeps ctx ctx2" using keeps_trans steady_cases [OF assms(1) r(2)] by blast
  then have "keeps ctx (restore_scope (ec_scope ?ctx) ctx2)" using keeps_trans keeps_restore by blast
  then show "keeps ctx (snd (emit_switch body x fs fk ctx))"
    using r by (simp add: emit_switch_def Let_def)
qed

text \<open>A loop takes two ids, its body any number of them, and then the two get their functions.\<close>

lemma grown_loop:
  assumes "grown k (snd (fs_reserve_id (snd (fs_reserve_id s)))) s'"
  shows "grown (Suc k) s (fs_insert (next_id s + 1) g (fs_insert (next_id s) f s'))"
proof -
  let ?r = "fs_insert (next_id s + 1) g (fs_insert (next_id s) f s')"
  have "if next_id s \<le> i \<and> i < next_id s + 2 * Suc k then fs_has i ?r else fs_get i ?r = fs_get i s" for i
    using assms unfolding grown_def fs_has_def fs_get_def fs_insert_def fs_reserve_id_def by (elim conjE allE [of _ i]) (auto split: if_splits)
  moreover have "fn_ids ?r = fn_ids s" "next_id ?r = next_id s + 2 * Suc k"
    using assms by (simp_all add: grown_def fs_insert_def fs_reserve_id_def)
  ultimately show ?thesis unfolding grown_def by blast
qed

lemma keeps_loop:
  assumes "steady fl" "fl (push_while info ctx5) = (loop_ir, ctx6)" "frame_of ctx5 = frame_of ctx"
    and "ec_functions ctx5 = snd (fs_reserve_id (snd (fs_reserve_id (ec_functions ctx))))"
    and "ec_while_counter ctx5 = ec_while_counter ctx + 1"
  shows "keeps ctx ((restore_scope S (pop_while ctx6))\<lparr>ec_functions :=
    fs_insert (Suc (next_id (ec_functions ctx))) g (fs_insert (next_id (ec_functions ctx)) f (ec_functions (restore_scope S (pop_while ctx6))))\<rparr>)"
proof -
  obtain k where k: "frame_of ctx6 = frame_of (push_while info ctx5)" "ec_while_counter ctx6 = ec_while_counter (push_while info ctx5) + k"
      "grown k (ec_functions (push_while info ctx5)) (ec_functions ctx6)"
    using steadyD [OF assms(1,2)] unfolding keeps_def by blast
  have "grown (Suc k) (ec_functions ctx) (fs_insert (next_id (ec_functions ctx) + 1) g (fs_insert (next_id (ec_functions ctx)) f (ec_functions ctx6)))"
    using k(3) assms(4) by (intro grown_loop) (simp add: push_while_def)
  moreover have "frame_of (pop_while ctx6) = pop_while (frame_of ctx6)" "frame_of (push_while info ctx5) = push_while info (frame_of ctx5)"
    "pop_while (push_while info (frame_of ctx)) = frame_of ctx"
    by (simp_all add: frame_of_def pop_while_def push_while_def)
  then have "frame_of (pop_while ctx6) = frame_of ctx" using k(1) assms(3) by simp
  ultimately show ?thesis using k(2) assms(5)
    by (simp add: keeps_def restore_scope_def frame_of_def pop_while_def push_while_def)
qed

lemma steady_while:
  assumes "steady fl" "\<And>f. fk = Some f \<Longrightarrow> steady f"
  shows "steady (emit_while body l k fl fk)"
  unfolding steady_def
proof
  fix ctx :: "'a EmitContext"
  let ?ctx = "extend_scope body ctx"
  obtain conv ctx2 where r: "default_continuation fk ?ctx = (conv, ctx2)" by (metis prod.exhaust)
  let ?ctx3 = "restore_scope (ec_scope ?ctx) ctx2"
  have "keeps ctx ctx2" using keeps_trans [OF keeps_extend] steadyD [OF steady_default r] assms(2) by blast
  then have before: "keeps ctx ?ctx3" using keeps_trans keeps_restore by blast
  have "keeps ?ctx3 (snd (emit_while body l k fl fk ctx))"
    using r by (auto simp: emit_while_def Let_def fs_reserve_id_def next_while_name_def frame_of_def split: prod.split intro!: keeps_loop [OF assms(1)])
  then show "keeps ctx (snd (emit_while body l k fl fk ctx))" using keeps_trans before by blast
qed

lemma steady_emit: "steady (emit st)"
proof (induction st)
  case (StLeaf body t)
  then show ?case using steady_leaf by simp
next
  case (StIf body c t e k)
  then show ?case unfolding emit.simps by (intro steady_if) auto
next
  case (StWhile body l k)
  then show ?case unfolding emit.simps by (intro steady_while) auto
next
  case (StSwitch body x cs k)
  then show ?case unfolding emit.simps by (intro steady_switch) auto
qed


end
