(* ===== verification/EmitValue.thy ===== *)
theory EmitValue
  imports EmitRun
begin

text \<open>
  The trees that emission makes of a structure without loops and switches: the body has the value
  that the structure returns, the other tree says whether it aborts.

  The structure is one that recovery makes of such code: paths end in a return or an abort, and
  the arms before a continuation only fall through (the continuation post-dominates the branch).
  The bodies are chains of lets, as the translator of instructions makes them.
\<close>

section \<open>Structures whose paths return or abort\<close>

fun falls :: "Structure \<Rightarrow> bool" where
  "falls (StLeaf b t) = (t = None)"
| "falls (StIf b c t e k) = (falls t \<and> falls e \<and> (case k of None \<Rightarrow> True | Some s \<Rightarrow> falls s))"
| "falls _ = False"

fun complete :: "Structure \<Rightarrow> bool" where
  "complete (StLeaf b t) = (case t of Some TmReturn \<Rightarrow> True | Some (TmAbort _) \<Rightarrow> True | _ \<Rightarrow> False)"
| "complete (StIf b c t e k) = (case k of None \<Rightarrow> complete t \<and> complete e | Some s \<Rightarrow> falls t \<and> falls e \<and> complete s)"
| "complete _ = False"

text \<open>Chains of lets that bind no names inside their values; a statement ends in the unit.\<close>

fun straight :: "IRNode \<Rightarrow> bool" where
  "straight (IRLet p v b) = (bindings v = {} \<and> straight b)"
| "straight (IRIf _ _ _) = False"
| "straight (IRMatch _ _) = False"
| "straight n = (bindings n = {})"

fun statements :: "IRNode \<Rightarrow> bool" where
  "statements (IRLet p v b) = (bindings v = {} \<and> statements b)"
| "statements n = (n = unit_node)"

text \<open>The names that a structure binds, those that it has bound when it falls through, and the
  condition that every name is read where it is bound and lifted where it has to be.\<close>

fun bound :: "Structure \<Rightarrow> TempId set" where
  "bound (StLeaf b t) = bindings b"
| "bound (StIf b c t e k) = bindings b \<union> bound t \<union> bound e \<union> (case k of None \<Rightarrow> {} | Some s \<Rightarrow> bound s)"
| "bound _ = {}"

definition lifted :: "IRNode \<Rightarrow> Structure \<Rightarrow> Structure \<Rightarrow> TempId set \<Rightarrow> TempId set" where
  "lifted c t e S = (bound t \<inter> bound e \<union> (bound t \<union> bound e) \<inter> S) - free_vars c"

fun defined_after :: "Structure \<Rightarrow> TempId set \<Rightarrow> TempId set" where
  "defined_after (StLeaf b t) S = S \<union> bindings b"
| "defined_after (StIf b c t e k) S =
     (let S1 = S \<union> bindings b in case k of
        None \<Rightarrow> defined_after t S1 \<inter> defined_after e S1
      | Some s \<Rightarrow> defined_after s (S1 \<union> lifted c t e S1))"
| "defined_after _ S = S"

fun emittable :: "Structure \<Rightarrow> TempId set \<Rightarrow> bool" where
  "emittable (StLeaf b t) S = ((if t = Some TmReturn then straight b else statements b) \<and> lex_free b \<subseteq> S)"
| "emittable (StIf b c t e k) S =
     (let S1 = S \<union> bindings b in
      statements b \<and> lex_free b \<subseteq> S \<and> bindings c = {} \<and> lex_free c \<subseteq> S1 \<and> emittable t S1 \<and> emittable e S1
      \<and> (case k of None \<Rightarrow> True | Some s \<Rightarrow>
           lifted c t e S1 \<subseteq> defined_after t S1 \<inter> defined_after e S1
         \<and> S1 \<inter> (bound t \<union> bound e) \<inter> free_vars c = {} \<and> emittable s (S1 \<union> lifted c t e S1)))"
| "emittable _ S = False"

lemma falls_open: "falls st \<Longrightarrow> \<not> terminates_on_every_path p st"
  by (induction st rule: falls.induct) (auto split: option.splits)

lemma complete_closed: "complete st \<Longrightarrow> always_returns st"
  unfolding always_returns_def by (induction st rule: complete.induct) (auto split: option.splits Termination.splits)

lemma statements_straight: "statements b \<Longrightarrow> straight b"
  by (induction b rule: statements.induct) (auto simp: unit_node_def bindings_def)

section \<open>Bodies\<close>

lemma append_bindings: "straight b \<Longrightarrow> bindings (append_at_tail b x) = bindings b \<union> bindings x"
proof (induction b x rule: append_at_tail.induct)
  case (1 p v b x)
  then show ?case by (auto simp: bindings_simps bindings_def [of "IRTuple []"])
qed (simp_all add: bindings_simps)

lemma assign_bindings_straight: "straight b \<Longrightarrow> bindings (assign b x) = bindings b \<union> bindings x"
  using append_bindings by (auto simp: assign_def bindings_def [of "IRTuple []"])

lemma append_phi_bindings: "bindings (append_phi_return ps n) = bindings n"
proof -
  have phi: "bindings (phi_tuple ps) = {}" for ps
  proof -
    have "bindings (IRVar x) = {}" "bindings (IRTuple (map IRVar ps)) = {}" for x
      by (simp_all add: bindings_other)
    then show ?thesis by (auto simp: phi_tuple_def split: list.split)
  qed
  show ?thesis
  proof (induction ps n rule: append_phi_return.induct)
    case (3 ps s cases)
    then show ?case by (auto simp: bindings_simps) 
  qed (simp_all add: bindings_simps phi)
qed

lemma detect_bindings:
  "bindings (detect_if_phis c t e k S) = bindings c \<union> bindings t \<union> bindings e \<union> bindings k"
proof -
  have "set (compute_if_phi_vars c t e S) \<subseteq> bindings t \<union> bindings e" unfolding compute_if_phi_vars(1) by blast
  then show ?thesis by (auto simp: detect_if_phis_def Let_def bindings_simps append_phi_bindings)
qed

text \<open>The environment of the tree agrees with the one of the structure on the names in scope, which
  are all bound.\<close>

definition same :: "TempId set \<Rightarrow> env \<Rightarrow> env \<Rightarrow> bool" where
  "same S e f \<longleftrightarrow> agree_on S e f \<and> (\<forall>x\<in>S. x = ''_'' \<or> e x \<noteq> None)"

lemma same_eval: "same S e f \<Longrightarrow> lex_free n \<subseteq> insert ''_'' S \<Longrightarrow> eval I e n = eval I f n"
  by (rule eval_agree) (auto simp: same_def agree_on_def)

lemma bind_all_same: "bind_all p vs e = Some e' \<Longrightarrow> same S e f \<Longrightarrow> \<exists>f'. bind_all p vs f = Some f' \<and> same (S \<union> set p) e' f'"
proof (induction p vs e arbitrary: f S rule: bind_all.induct)
  case (2 x xs v vs e)
  have "same (insert x S) (bind_var x v e) (bind_var x v f)"
    using 2(3) by (auto simp: same_def agree_on_def bind_var_def)
  from 2(1) [OF _ this] 2(2) show ?case by simp
qed auto

lemma bind_pattern_same:
  assumes "bind_pattern p w e = Some e'" "same S e f"
  shows "\<exists>f'. bind_pattern p w f = Some f' \<and> same (S \<union> set p) e' f'"
  using assms
proof (cases "(p, w, e)" rule: bind_pattern.cases)
  case (3 x y zs vs env)
  then show ?thesis using bind_all_same [of p vs e e' S f] assms by simp
qed (auto simp: same_def agree_on_def bind_var_def split: if_splits)

lemma same_mono: "same S e f \<Longrightarrow> T \<subseteq> insert ''_'' S \<Longrightarrow> same T e f"
  by (auto simp: same_def agree_on_def)

lemma straight_cases:
  "straight b \<Longrightarrow> (\<exists>p v n. b = IRLet p v n \<and> bindings v = {} \<and> straight n) \<or>
     bindings b = {} \<and> (\<forall>I e. flow_node I b e = map_option (Pair e) (eval I e b) \<and> tail_flow I b e = map_option (Pair e) (eval I e b))"
  by (cases b; hypsubst; simp del: eval.simps)

lemma flow_same:
  "straight b \<Longrightarrow> lex_free b \<subseteq> insert ''_'' S \<Longrightarrow> same S e f \<Longrightarrow> flow_node I b e = Some (e', w) \<Longrightarrow>
   \<exists>f'. flow_node I b f = Some (f', w) \<and> tail_flow I b f = Some (f', w) \<and> same (S \<union> bindings b) e' f'"
proof (induction b arbitrary: S e f rule: IR_induct)
  case (node n)
  note 1 = node.prems
  show ?case
  proof (cases "\<exists>p v b. n = IRLet p v b \<and> bindings v = {} \<and> straight b")
  case True
  then obtain p v b where n: "n = IRLet p v b" "bindings v = {}" "straight b" by blast
  obtain u e1 where u: "eval I e v = Some u" "bind_pattern p u e = Some e1" "flow_node I b e1 = Some (e', w)"
    using 1(4) n by (auto split: option.splits)
  have v: "eval I f v = Some u" using same_eval [OF 1(3), of v I] 1(2) u(1) n by auto
  obtain f1 where f1: "bind_pattern p u f = Some f1" "same (S \<union> set p) e1 f1" using bind_pattern_same [OF u(2) 1(3)] by blast
  have "lex_free b \<subseteq> insert ''_'' (S \<union> set p)" using 1(2) n by auto
  from node.IH [OF _ n(3) this f1(2) u(3)] n(1) obtain f' where
    f': "flow_node I b f1 = Some (f', w)" "tail_flow I b f1 = Some (f', w)" "same (S \<union> set p \<union> bindings b) e' f'" by auto
  have "S \<union> bindings n \<subseteq> insert ''_'' (S \<union> set p \<union> bindings b)" using n by (auto simp: bindings_simps)
  then have "same (S \<union> bindings n) e' f'" by (rule same_mono [OF f'(3)])
  then show ?thesis using f' f1 v n by simp
next
  case False
  then have n: "bindings n = {}" "flow_node I n e = map_option (Pair e) (eval I e n)" "tail_flow I n e = map_option (Pair e) (eval I e n)" for e
    using straight_cases [OF 1(1)] by auto
  then show ?thesis using same_eval [OF 1(3,2), of I] 1(3,4) by auto
qed
qed

lemma assign_flow:
  assumes "straight b" "flow_node I b f = Some (f', w)" "x = unit_node \<Longrightarrow> statements b"
  shows "tail_flow I (assign b x) f = tail_flow I x f'"
proof -
  have append: "straight b \<Longrightarrow> flow_node I b f = Some (f', w) \<Longrightarrow> tail_flow I (append_at_tail b x) f = tail_flow I x f'" for b f
  proof (induction b x arbitrary: f rule: append_at_tail.induct)
    case (1 p v b x)
    then show ?case by (auto split: option.splits simp: unit_node_def)
  qed auto
  have unit: "statements b \<Longrightarrow> flow_node I b f = Some (f', w) \<Longrightarrow> tail_flow I b f = Some (f', VTuple [])" for b f
  proof (induction b arbitrary: f rule: statements.induct)
    case (1 p v b)
    then show ?case by (auto split: option.splits)
  qed (auto simp: unit_node_def)
  show ?thesis using append [OF assms(1,2)] unit [OF _ assms(2)] assms(2,3)
    by (auto simp: assign_def unit_node_def)
qed

text \<open>A statement before the rest.\<close>

lemma statements_run:
  assumes "statements b" "lex_free b \<subseteq> S" "same S e f" "nm_body (ir_machine I) b (e, VTuple []) = Some (e', w)"
  obtains f' where "w = VTuple []" "same (S \<union> bindings b) e' f'" "\<And>x. tail_flow I (assign b x) f = tail_flow I x f'"
proof -
  have flow: "flow_node I b e = Some (e', w)" using assms(4) by (auto simp: ir_machine_def unit_node_def split: if_splits)
  have unit: "statements b \<Longrightarrow> flow_node I b e = Some (e', w) \<Longrightarrow> w = VTuple []" for b e
  proof (induction b arbitrary: e rule: statements.induct)
    case (1 p v b)
    then show ?case by (auto split: option.splits)
  qed (auto simp: unit_node_def)
  obtain f' where f': "flow_node I b f = Some (f', w)" "same (S \<union> bindings b) e' f'"
    using flow_same [OF statements_straight [OF assms(1)] _ assms(3) flow] assms(2) by blast
  show thesis
    by (rule that [OF unit [OF assms(1) flow] f'(2)]) (rule assign_flow [OF statements_straight [OF assms(1)] f'(1)], rule assms(1))
qed

section \<open>The trees of branches\<close>

text \<open>A branch whose arms fall through: the arms and the continuation are emitted in contexts of the
  same mode.\<close>

lemma moved [simp]:
  "ec_scope (restore_scope S ctx) = S" "ec_mode (restore_scope S ctx) = ec_mode ctx"
  "ec_scope (extend_scope b ctx) = ec_scope ctx \<union> bindings b" "ec_mode (extend_scope b ctx) = ec_mode ctx"
  by (simp_all add: restore_scope_def extend_scope_def)

lemma emit_mode: "emit st ctx = (x, ctx') \<Longrightarrow> ec_mode ctx' = ec_mode ctx"
  using steadyD [OF steady_emit, of st ctx x ctx'] unfolding keeps_def frame_of_def by (cases ctx; cases ctx') simp

lemma emit_merge:
  fixes ctx :: "'k EmitContext"
  assumes "falls t" "falls e"
  obtains ctxt ctxe ctxk :: "'k EmitContext" where "ec_mode ctxt = ec_mode ctx" "ec_mode ctxe = ec_mode ctx" "ec_mode ctxk = ec_mode ctx"
    "ec_scope ctxt = ec_scope ctx \<union> bindings b" "ec_scope ctxe = ec_scope ctx \<union> bindings b"
    "ec_scope ctxk = ec_scope ctx \<union> bindings b \<union> set (compute_if_phi_vars c (fst (emit t ctxt)) (fst (emit e ctxe)) (ec_scope ctx \<union> bindings b))"
    "fst (emit (StIf b c t e k) ctx) = assign b (case k of None \<Rightarrow> IRIf c (fst (emit t ctxt)) (fst (emit e ctxe))
       | Some s \<Rightarrow> detect_if_phis c (fst (emit t ctxt)) (fst (emit e ctxe)) (fst (emit s ctxk)) (ec_scope ctx \<union> bindings b))"
proof -
  let ?ctx = "extend_scope b ctx"
  let ?S = "ec_scope ctx \<union> bindings b"
  obtain x ctx1 y ctx2 where r: "emit t (restore_scope ?S ?ctx) = (x, ctx1)" "emit e (restore_scope ?S ctx1) = (y, ctx2)"
    by (metis prod.exhaust)
  note arms = falls_open [OF assms(1)] falls_open [OF assms(2)]
  have shape: "fst (emit (StIf b c t e k) ctx) = assign b (case k of None \<Rightarrow> IRIf c x y
       | Some s \<Rightarrow> detect_if_phis c x y (fst (emit s (restore_scope (?S \<union> set (compute_if_phi_vars c x y ?S)) ctx2))) ?S)"
    using r arms by (auto simp: emit_if_def Let_def try_abort_prune_if_def surviving_def always_aborts_def always_returns_def
      emit_if_merge_def finish_if_def extend_scope_def split: option.split prod.split)
  show thesis
    by (rule that [of "restore_scope ?S ?ctx" "restore_scope ?S ctx1" "restore_scope (?S \<union> set (compute_if_phi_vars c x y ?S)) ctx2"])
      (use r shape emit_mode [OF r(1)] emit_mode [OF r(2)] in \<open>simp_all split: option.split\<close>)
qed

lemma emit_split:
  fixes ctx :: "'k EmitContext"
  assumes "complete t" "complete e"
  obtains ctxt ctxe :: "'k EmitContext" where "ec_mode ctxt = ec_mode ctx" "ec_mode ctxe = ec_mode ctx"
    "ec_scope ctxt = ec_scope ctx \<union> bindings b" "ec_scope ctxe = ec_scope ctx \<union> bindings b"
    "fst (emit (StIf b c t e None) ctx) = assign b (IRIf c (fst (emit t ctxt)) (fst (emit e ctxe)))
     \<or> ec_mode ctx = EmBody \<and> always_aborts e \<and> fst (emit (StIf b c t e None) ctx) = assign b (fst (emit t ctxt))
     \<or> ec_mode ctx = EmBody \<and> always_aborts t \<and> fst (emit (StIf b c t e None) ctx) = assign b (fst (emit e ctxe))"
proof -
  let ?ctx = "extend_scope b ctx"
  let ?S = "ec_scope ctx \<union> bindings b"
  note closed = complete_closed [OF assms(1)] complete_closed [OF assms(2)]
  have S: "?ctx = restore_scope ?S ?ctx" by (simp add: restore_scope_def extend_scope_def)
  show thesis
  proof (cases "surviving ?ctx t e")
    case None
    obtain x ctx1 y ctx2 where r: "emit t (restore_scope ?S ?ctx) = (x, ctx1)" "emit e (restore_scope ?S ctx1) = (y, ctx2)"
      by (metis prod.exhaust)
    have "fst (emit (StIf b c t e None) ctx) = assign b (IRIf c x y)"
      using r None closed by (simp add: emit_if_def Let_def try_abort_prune_if_def emit_if_returns_def finish_if_def extend_scope_def)
    then show thesis
      by (intro that [of "restore_scope ?S ?ctx" "restore_scope ?S ctx1"])
        (use r emit_mode [OF r(1)] in simp_all)
  next
    case (Some which)
    have "ec_mode ctx = EmBody \<and> always_aborts (if which then e else t)"
      using Some by (auto simp: surviving_def extend_scope_def split: if_splits bool.splits)
    moreover have "fst (emit (StIf b c t e None) ctx) = assign b (fst (emit (if which then t else e) ?ctx))"
      using Some by (simp add: emit_if_def Let_def try_abort_prune_if_def unit_node_def split: prod.split)
    ultimately show thesis
      by (intro that [of ?ctx ?ctx]) (auto simp: extend_scope_def split: if_splits)
  qed
qed

section \<open>The values\<close>

lemma emit_bindings:
  fixes ctx :: "'k EmitContext"
  shows
  "falls st \<Longrightarrow> emittable st (ec_scope ctx) \<Longrightarrow> bindings (fst (emit st ctx)) = bound st"
proof (induction st arbitrary: ctx)
  case (StLeaf b t)
  then have b: "straight b" "t = None" using statements_straight by auto
  have "bindings no_abort = {}" by (simp add: no_abort_def bindings_other)
  then show ?case using b assign_bindings_straight [OF b(1)] by (cases "ec_mode ctx") (simp_all add: emit_leaf_def)
next
  case (StIf b c t e k)
  let ?S = "ec_scope ctx \<union> bindings b"
  have f: "falls t" "falls e" "statements b" "bindings c = {}" "emittable t ?S" "emittable e ?S"
    using StIf.prems by (auto simp: Let_def)
  obtain ctxt ctxe ctxk :: "'k EmitContext" where m: "ec_mode ctxt = ec_mode ctx" "ec_mode ctxe = ec_mode ctx" "ec_mode ctxk = ec_mode ctx"
    "ec_scope ctxt = ?S" "ec_scope ctxe = ?S"
    "ec_scope ctxk = ?S \<union> set (compute_if_phi_vars c (fst (emit t ctxt)) (fst (emit e ctxe)) ?S)"
    "fst (emit (StIf b c t e k) ctx) = assign b (case k of None \<Rightarrow> IRIf c (fst (emit t ctxt)) (fst (emit e ctxe))
       | Some s \<Rightarrow> detect_if_phis c (fst (emit t ctxt)) (fst (emit e ctxe)) (fst (emit s ctxk)) ?S)"
    by (rule emit_merge [OF f(1,2), of ctx b c k])
  note arms = StIf.IH(1) [of ctxt] StIf.IH(2) [of ctxe]
  have te: "bindings (fst (emit t ctxt)) = bound t" "bindings (fst (emit e ctxe)) = bound e" using arms f m by simp_all
  have "ec_scope ctxk = ?S \<union> lifted c t e ?S" using m(6) te by (simp add: compute_if_phi_vars(1) lifted_def)
  then have k: "bindings (fst (emit s ctxk)) = bound s" if s: "k = Some s" for s
    using StIf.IH(3) [of s ctxk] s StIf.prems by (simp add: Let_def)
  show ?case unfolding m(7) assign_bindings_straight [OF statements_straight [OF f(3)]]
    using te k f(4) by (auto simp: detect_bindings bindings_simps split: option.split)
qed simp_all

text \<open>A structure that falls through reaches the tail of its tree.\<close>

definition ends_open :: "'s ending \<Rightarrow> bool" where
  "ends_open r \<longleftrightarrow> r = EFails \<or> (\<exists>s. r = EFalls s)"

lemma ends_open_simps: "ends_open EFails" "ends_open (EFalls s)"
  by (simp_all add: ends_open_def)

lemma open_body: "(\<And>s. ends_open (k s)) \<Longrightarrow> ends_open (with_body N b s k)"
  by (simp add: with_body_def ends_open_simps split: option.split)

lemma open_rest: "ends_open r \<Longrightarrow> (\<And>f s. k = Some f \<Longrightarrow> ends_open (f s)) \<Longrightarrow> ends_open (rest_ending N k r)"
  by (auto simp: rest_ending_def on_fall_def ends_open_simps ends_open_def [of r] split: option.split)

lemma open_branch: "(\<And>s. ends_open (f s)) \<Longrightarrow> (\<And>s. ends_open (g s)) \<Longrightarrow> ends_open (branch_ending N c f g s)"
  by (simp add: branch_ending_def ends_open_simps split: option.split)

lemma falls_ending: "falls st \<Longrightarrow> ends_open (exec_structure N n st s)"
proof (induction st arbitrary: s)
  case (StIf b c t e k)
  then show ?case by (auto intro!: open_body open_rest open_branch split: option.splits)
qed (auto simp: ends_open_simps intro!: open_body)

lemma branch_run:
  assumes "branch_ending (ir_machine I) c f g (e, v) = r" "r \<noteq> EFails"
  obtains b where "eval I e c = Some (VBool b)" "(if b then f else g) (e, VTuple []) = r"
  using assms by (auto simp: branch_ending_def ir_machine_def split: option.splits val.splits if_splits)

lemma defined_after_mono: "S \<subseteq> defined_after st S"
proof (induction st arbitrary: S)
  case (StIf b c t e k)
  then show ?case by (fastforce simp: Let_def split: option.split)
qed auto

text \<open>The lifted branch runs the continuation in the environment that the structure has there.\<close>

lemma detect_flow:
  assumes "eval I f c = Some (VBool b)" "tail_flow I (if b then t else e) f = Some (f', w)"
    and "\<forall>x\<in>set (compute_if_phi_vars c t e S). f' x \<noteq> None"
  shows "\<exists>h. tail_flow I (detect_if_phis c t e k S) f = tail_flow I k h
    \<and> (\<forall>x. h x = (if x \<in> set (compute_if_phi_vars c t e S) then f' x else f x))"
proof (cases "compute_if_phi_vars c t e S = []")
  case True
  have "eval I f (if b then t else e) \<noteq> None" using assms(2) tail_eval by simp
  then have "eval I f (IRIf c t e) \<noteq> None" using assms(1) by (cases b) simp_all
  then show ?thesis using True by (auto simp: detect_if_phis_def)
next
  case False
  let ?ps = "compute_if_phi_vars c t e S"
  obtain u h where h: "eval I f' (phi_tuple ?ps) = Some u" "bind_pattern ?ps u f = Some h"
    "\<forall>x. h x = (if x \<in> set ?ps then f' x else f x)"
    using bind_phi_tuple [OF False compute_if_phi_vars(2,3) assms(3)] by blast
  have "eval I f (IRIf c (append_phi_return ?ps t) (append_phi_return ?ps e)) = Some u"
    using assms(1,2) h(1) by (cases b) (simp_all add: append_phi_return_eval)
  then show ?thesis using False h(2,3) by (auto simp: detect_if_phis_def Let_def)
qed

lemma merge_same:
  assumes c: "eval I f c = Some (VBool b)" and arm: "tail_flow I (if b then x else y) f = Some (f', w)"
    and here: "same S d f" and there: "same (defined_after (if b then t else e) S) d' f'"
    and xy: "bindings x = bound t" "bindings y = bound e"
    and lift: "lifted c t e S \<subseteq> defined_after t S \<inter> defined_after e S" "S \<inter> (bound t \<union> bound e) \<inter> free_vars c = {}"
  shows "\<exists>h. tail_flow I (detect_if_phis c x y k S) f = tail_flow I k h \<and> same (S \<union> lifted c t e S) d' h"
proof -
  have ps: "set (compute_if_phi_vars c x y S) = lifted c t e S" "''_'' \<notin> lifted c t e S"
    using compute_if_phi_vars(1,3) [of c x y S] by (simp_all add: lifted_def xy)
  have after: "lifted c t e S \<subseteq> defined_after (if b then t else e) S" "S \<subseteq> defined_after (if b then t else e) S"
    using lift(1) defined_after_mono by (cases b; simp)+
  have there': "d' z = f' z \<and> (z = ''_'' \<or> d' z \<noteq> None)" if "z = ''_'' \<or> z \<in> defined_after (if b then t else e) S" for z
    using there that unfolding same_def agree_on_def by blast
  then have "\<forall>z\<in>set (compute_if_phi_vars c x y S). f' z \<noteq> None" using ps after(1) by (metis subsetD)
  from detect_flow [OF c arm this, of k] obtain h where h: "tail_flow I (detect_if_phis c x y k S) f = tail_flow I k h"
    "\<forall>z. h z = (if z \<in> lifted c t e S then f' z else f z)" unfolding ps(1) by blast
  have old: "d' z = f z" if z: "z = ''_'' \<or> z \<in> S" "z \<notin> lifted c t e S" for z
  proof -
    have "z \<notin> bindings (if b then x else y)"
      using z lift(2) bindings_names xy by (cases b) (auto simp: lifted_def)
    then have "f' z = f z" by (rule tail_flow_other [OF arm])
    then show ?thesis using there' [of z] z(1) after(2) by auto
  qed
  have "d' z = h z \<and> (z = ''_'' \<or> d' z \<noteq> None)" if "z = ''_'' \<or> z \<in> S \<union> lifted c t e S" for z
    using that there' [of z] old [of z] h(2) after by (cases "z \<in> lifted c t e S") auto
  then have "same (S \<union> lifted c t e S) d' h" unfolding same_def agree_on_def by blast
  then show ?thesis using h(1) by blast
qed

lemma emit_flow:
  fixes ctx :: "'k EmitContext"
  shows
  "falls st \<Longrightarrow> emittable st (ec_scope ctx) \<Longrightarrow> same (ec_scope ctx) d f \<Longrightarrow>
   exec_structure (ir_machine I) n st (d, VTuple []) = EFalls (d', w) \<Longrightarrow>
   \<exists>f' w'. tail_flow I (fst (emit st ctx)) f = Some (f', w') \<and> same (defined_after st (ec_scope ctx)) d' f'"
proof (induction st arbitrary: ctx d f d' w)
  case (StLeaf b t)
  have b: "statements b" "lex_free b \<subseteq> ec_scope ctx" "t = None" using StLeaf by simp_all
  have "nm_body (ir_machine I) b (d, VTuple []) = Some (d', w)" using StLeaf.prems(4) b(3) by (auto simp: with_body_def split: option.splits)
  from statements_run [OF b(1,2) StLeaf.prems(3) this] obtain f' where
    f': "same (ec_scope ctx \<union> bindings b) d' f'" "\<And>x. tail_flow I (assign b x) f = tail_flow I x f'" by metis
  have "tail_flow I b f = Some (f', VTuple [])" using f'(2) [of "IRTuple []"] by simp
  then show ?case using f' b(3) by (cases "ec_mode ctx") (auto simp: emit_leaf_def no_abort_def)
next
  case (StIf b c t e k)
  let ?S = "ec_scope ctx \<union> bindings b"
  have q: "falls t" "falls e" "statements b" "lex_free b \<subseteq> ec_scope ctx" "lex_free c \<subseteq> ?S" "emittable t ?S" "emittable e ?S"
    using StIf.prems(1,2) by (auto simp: Let_def)
  obtain ctxt ctxe ctxk :: "'k EmitContext" where m: "ec_mode ctxt = ec_mode ctx" "ec_mode ctxe = ec_mode ctx" "ec_mode ctxk = ec_mode ctx"
    "ec_scope ctxt = ?S" "ec_scope ctxe = ?S"
    "ec_scope ctxk = ?S \<union> set (compute_if_phi_vars c (fst (emit t ctxt)) (fst (emit e ctxe)) ?S)"
    "fst (emit (StIf b c t e k) ctx) = assign b (case k of None \<Rightarrow> IRIf c (fst (emit t ctxt)) (fst (emit e ctxe))
       | Some s \<Rightarrow> detect_if_phis c (fst (emit t ctxt)) (fst (emit e ctxe)) (fst (emit s ctxk)) ?S)"
    by (rule emit_merge [OF q(1,2), of ctx b c k])
  let ?T = "fst (emit t ctxt)" and ?E = "fst (emit e ctxe)"
  obtain d1 v where d1: "nm_body (ir_machine I) b (d, VTuple []) = Some (d1, v)"
      "rest_ending (ir_machine I) (map_option (exec_structure (ir_machine I) n) k)
         (branch_ending (ir_machine I) c (exec_structure (ir_machine I) n t) (exec_structure (ir_machine I) n e) (d1, v)) = EFalls (d', w)"
    using StIf.prems(4) by (auto simp: with_body_def split: option.splits)
  obtain f1 where f1: "same ?S d1 f1" "\<And>x. tail_flow I (assign b x) f = tail_flow I x f1"
    using statements_run [OF q(3,4) StIf.prems(3) d1(1)] by metis
  obtain d2 v2 where r: "branch_ending (ir_machine I) c (exec_structure (ir_machine I) n t) (exec_structure (ir_machine I) n e) (d1, v) = EFalls (d2, v2)"
    using d1(2) by (auto simp: rest_ending_def on_fall_def split: ending.splits)
  obtain arm where arm: "eval I d1 c = Some (VBool arm)"
      "(if arm then exec_structure (ir_machine I) n t else exec_structure (ir_machine I) n e) (d1, VTuple []) = EFalls (d2, v2)"
    using branch_run [OF r] by auto
  have "lex_free c \<subseteq> insert ''_'' ?S" using q(5) by auto
  then have c: "eval I f1 c = Some (VBool arm)" using same_eval [OF f1(1), of c I] arm(1) by simp
  have "\<exists>f2 w2. tail_flow I (if arm then ?T else ?E) f1 = Some (f2, w2) \<and> same (defined_after (if arm then t else e) ?S) d2 f2"
    using StIf.IH(1) [of ctxt d1 f1 d2 v2] StIf.IH(2) [of ctxe d1 f1 d2 v2] q f1(1) arm(2) m(4,5) by (cases arm) simp_all
  then obtain f2 w2 where f2: "tail_flow I (if arm then ?T else ?E) f1 = Some (f2, w2)" "same (defined_after (if arm then t else e) ?S) d2 f2" by blast
  show ?case
  proof (cases k)
    case None
    have "d2 = d'" using d1(2) r None by (simp add: rest_ending_def on_fall_def ir_machine_def)
    moreover have "same (defined_after t ?S \<inter> defined_after e ?S) d2 f2" by (rule same_mono [OF f2(2)]) auto
    ultimately show ?thesis using f2(1) c m(7) None f1(2) by (cases arm) (simp_all add: Let_def)
  next
    case (Some s)
    have k: "exec_structure (ir_machine I) n s (d2, VTuple []) = EFalls (d', w)"
      using d1(2) r Some by (simp add: rest_ending_def on_fall_def ir_machine_def)
    have lift: "lifted c t e ?S \<subseteq> defined_after t ?S \<inter> defined_after e ?S" "?S \<inter> (bound t \<union> bound e) \<inter> free_vars c = {}"
        "emittable s (?S \<union> lifted c t e ?S)" "falls s" using StIf.prems(1,2) Some by (auto simp: Let_def)
    have xy: "bindings ?T = bound t" "bindings ?E = bound e" using q m(4,5) by (simp_all add: emit_bindings)
    obtain h where h: "tail_flow I (detect_if_phis c ?T ?E (fst (emit s ctxk)) ?S) f1 = tail_flow I (fst (emit s ctxk)) h"
        "same (?S \<union> lifted c t e ?S) d2 h"
      using merge_same [OF c f2(1) f1(1) f2(2) xy lift(1,2)] by blast
    have scope: "ec_scope ctxk = ?S \<union> lifted c t e ?S" using m(6) xy by (simp add: compute_if_phi_vars(1) lifted_def)
    show ?thesis
      using StIf.IH(3) [of s ctxk d2 h d' w] h lift k scope m(7) Some f1(2) by (simp add: Let_def)
  qed
qed simp_all

text \<open>What a tree has to evaluate to when the structure ends: the body has the returned value, the
  other tree tells the returns from the aborts.\<close>

fun says :: "EmitMode \<Rightarrow> (env \<times> val) ending \<Rightarrow> val option \<Rightarrow> bool" where
  "says EmBody (EReturns s) r = (r = Some (snd s))"
| "says EmAborts (EReturns s) r = (r = Some (VBool False))"
| "says EmAborts (EAborts c s) r = (r = Some (VBool True))"
| "says _ _ _ = True"

lemma says_open: "ends_open r \<Longrightarrow> says m r x"
  by (cases m) (auto simp: ends_open_def)

text \<open>A structure that always aborts does not return.\<close>

lemma aborts_ending: "complete st \<Longrightarrow> always_aborts st \<Longrightarrow> exec_structure N n st s \<noteq> EReturns s'"
proof (induction st arbitrary: s)
  case (StLeaf b t)
  then show ?case by (auto simp: always_aborts_def with_body_def mark_ending_def split: option.splits Termination.splits)
next
  case (StIf b c t e k)
  have branch: "branch_ending N c (exec_structure N n t) (exec_structure N n e) s \<noteq> EReturns s'" for s
  proof (cases k)
    case None
    then show ?thesis using StIf by (auto simp: branch_ending_def always_aborts_def split: option.split)
  next
    case (Some x)
    then have "falls t" "falls e" using StIf.prems by auto
    then have "ends_open (branch_ending N c (exec_structure N n t) (exec_structure N n e) s)"
      by (intro open_branch falls_ending)
    then show ?thesis by (auto simp: ends_open_def)
  qed
  have k: "exec_structure N n x s \<noteq> EReturns s'" if x: "k = Some x" for x s
    using StIf x falls_open [of t] by (auto simp: always_aborts_def)
  show ?case using branch k by (auto simp: with_body_def rest_ending_def on_fall_def split: option.split ending.split)
qed auto

lemma leaf_says:
  assumes "complete (StLeaf b t)" "emittable (StLeaf b t) (ec_scope ctx)" "same (ec_scope ctx) d f"
  shows "says (ec_mode ctx) (exec_structure (ir_machine I) n (StLeaf b t) (d, VTuple [])) (eval I f (fst (emit (StLeaf b t) ctx)))"
proof (cases "nm_body (ir_machine I) b (d, VTuple [])")
  case None
  then show ?thesis by (simp add: with_body_def says_open ends_open_simps)
next
  case (Some r)
  obtain d' w where r: "r = (d', w)" by (cases r)
  have b: "straight b" "lex_free b \<subseteq> insert ''_'' (ec_scope ctx)" using assms(2) statements_straight by (auto split: if_splits)
  have flow: "flow_node I b d = Some (d', w)" using Some r by (auto simp: ir_machine_def unit_node_def split: if_splits)
  obtain f' where f': "flow_node I b f = Some (f', w)" "tail_flow I b f = Some (f', w)" using flow_same [OF b assms(3) flow] by blast
  have same_val: "eval I f b = Some w" using f'(2) tail_eval by simp
  have "tail_flow I (assign b x) f = tail_flow I x f'" if "x \<noteq> unit_node" for x
    by (rule assign_flow [OF b(1) f'(1)]) (use that in simp)
  then have flag: "eval I f (assign b (IRConst x)) = Some (const_val x)" for x
    unfolding tail_eval [of I f "assign b (IRConst x)"] by (simp add: unit_node_def)
  show ?thesis using assms(1) Some r same_val flag
    by (cases "ec_mode ctx")
      (auto simp: with_body_def mark_ending_def emit_leaf_def no_abort_def does_abort_def split: option.splits Termination.splits)
qed

lemma split_says:
  fixes ctx :: "'k EmitContext"
  assumes IH: "\<And>ctx :: 'k EmitContext. \<And>d f. emittable t (ec_scope ctx) \<Longrightarrow> same (ec_scope ctx) d f \<Longrightarrow>
      says (ec_mode ctx) (exec_structure (ir_machine I) n t (d, VTuple [])) (eval I f (fst (emit t ctx)))"
     "\<And>ctx :: 'k EmitContext. \<And>d f. emittable e (ec_scope ctx) \<Longrightarrow> same (ec_scope ctx) d f \<Longrightarrow>
      says (ec_mode ctx) (exec_structure (ir_machine I) n e (d, VTuple [])) (eval I f (fst (emit e ctx)))"
    and te: "complete t" "complete e" and q: "emittable (StIf b c t e None) (ec_scope ctx)" and here: "same (ec_scope ctx) d f"
  shows "says (ec_mode ctx) (exec_structure (ir_machine I) n (StIf b c t e None) (d, VTuple [])) (eval I f (fst (emit (StIf b c t e None) ctx)))"
proof -
  let ?S = "ec_scope ctx \<union> bindings b"
  let ?X = "exec_structure (ir_machine I) n"
  have q: "statements b" "lex_free b \<subseteq> ec_scope ctx" "lex_free c \<subseteq> insert ''_'' ?S" "emittable t ?S" "emittable e ?S"
    using q by (auto simp: Let_def)
  obtain ctxt ctxe :: "'k EmitContext" where m: "ec_mode ctxt = ec_mode ctx" "ec_mode ctxe = ec_mode ctx"
    "ec_scope ctxt = ?S" "ec_scope ctxe = ?S"
    "fst (emit (StIf b c t e None) ctx) = assign b (IRIf c (fst (emit t ctxt)) (fst (emit e ctxe)))
     \<or> ec_mode ctx = EmBody \<and> always_aborts e \<and> fst (emit (StIf b c t e None) ctx) = assign b (fst (emit t ctxt))
     \<or> ec_mode ctx = EmBody \<and> always_aborts t \<and> fst (emit (StIf b c t e None) ctx) = assign b (fst (emit e ctxe))"
    by (rule emit_split [OF te, of ctx b c])
  show ?thesis
  proof (cases "ends_open (?X (StIf b c t e None) (d, VTuple []))")
    case True
    then show ?thesis by (rule says_open)
  next
    case False
    then obtain d1 v where d1: "nm_body (ir_machine I) b (d, VTuple []) = Some (d1, v)"
        "?X (StIf b c t e None) (d, VTuple []) = branch_ending (ir_machine I) c (?X t) (?X e) (d1, v)"
        "branch_ending (ir_machine I) c (?X t) (?X e) (d1, v) \<noteq> EFails"
      by (auto simp: with_body_def rest_ending_def on_fall_def ends_open_simps split: option.splits ending.splits)
    obtain f1 where f1: "same ?S d1 f1" "\<And>x. tail_flow I (assign b x) f = tail_flow I x f1"
      using statements_run [OF q(1,2) here d1(1)] by metis
    obtain arm where arm: "eval I d1 c = Some (VBool arm)" "(if arm then ?X t else ?X e) (d1, VTuple []) = ?X (StIf b c t e None) (d, VTuple [])"
      using branch_run [OF refl d1(3)] d1(2) by metis
    have c: "eval I f1 c = Some (VBool arm)" using same_eval [OF f1(1) q(3), of I] arm(1) by simp
    have both: "says (ec_mode ctx) (?X t (d1, VTuple [])) (eval I f1 (fst (emit t ctxt)))"
      "says (ec_mode ctx) (?X e (d1, VTuple [])) (eval I f1 (fst (emit e ctxe)))"
      using IH(1) [of ctxt d1 f1] IH(2) [of ctxe d1 f1] m q f1(1) by simp_all
    have same_val: "eval I f (assign b x) = eval I f1 x" for x unfolding tail_eval using f1(2) by simp
    have other: "says EmBody r x" if "\<And>s. r \<noteq> EReturns s" for r x using that by (cases r) auto
    have no_abort_arm: "?X t s = EReturns s' \<Longrightarrow> \<not> always_aborts t" "?X e s = EReturns s' \<Longrightarrow> \<not> always_aborts e" for s s'
      using aborts_ending [OF te(1), of "ir_machine I" n s s'] aborts_ending [OF te(2), of "ir_machine I" n s s'] by auto
    show ?thesis
      using m(5) both c arm(2) no_abort_arm by (cases arm) (auto simp del: emit.simps exec_structure.simps simp: same_val intro!: other)
  qed
qed

lemma emit_says:
  fixes ctx :: "'k EmitContext"
  shows
  "complete st \<Longrightarrow> emittable st (ec_scope ctx) \<Longrightarrow> same (ec_scope ctx) d f \<Longrightarrow>
   says (ec_mode ctx) (exec_structure (ir_machine I) n st (d, VTuple [])) (eval I f (fst (emit st ctx)))"
proof (induction st arbitrary: ctx d f)
  case (StLeaf b t)
  then show ?case by (rule leaf_says)
next
  case (StIf b c t e k)
  show ?case
  proof (cases k)
    case None
    then have te: "complete t" "complete e" using StIf.prems(1) by simp_all
    show ?thesis unfolding None
      by (rule split_says [OF _ _ te]) (use StIf te None in auto)
  next
    case (Some s)
    let ?S = "ec_scope ctx \<union> bindings b"
    let ?X = "exec_structure (ir_machine I) n"
    have q: "falls t" "falls e" "complete s" "statements b" "lex_free b \<subseteq> ec_scope ctx" "lex_free c \<subseteq> insert ''_'' ?S" "emittable t ?S" "emittable e ?S"
      and lift: "lifted c t e ?S \<subseteq> defined_after t ?S \<inter> defined_after e ?S" "?S \<inter> (bound t \<union> bound e) \<inter> free_vars c = {}"
        "emittable s (?S \<union> lifted c t e ?S)"
      using StIf.prems(1,2) Some by (auto simp: Let_def)
    obtain ctxt ctxe ctxk :: "'k EmitContext" where m: "ec_mode ctxt = ec_mode ctx" "ec_mode ctxe = ec_mode ctx" "ec_mode ctxk = ec_mode ctx"
      "ec_scope ctxt = ?S" "ec_scope ctxe = ?S"
      "ec_scope ctxk = ?S \<union> set (compute_if_phi_vars c (fst (emit t ctxt)) (fst (emit e ctxe)) ?S)"
      "fst (emit (StIf b c t e k) ctx) = assign b (case k of None \<Rightarrow> IRIf c (fst (emit t ctxt)) (fst (emit e ctxe))
         | Some s \<Rightarrow> detect_if_phis c (fst (emit t ctxt)) (fst (emit e ctxe)) (fst (emit s ctxk)) ?S)"
      by (rule emit_merge [OF q(1,2), of ctx b c k])
    let ?T = "fst (emit t ctxt)" and ?E = "fst (emit e ctxe)"
    show ?thesis
    proof (cases "ends_open (?X (StIf b c t e k) (d, VTuple []))")
      case True
      then show ?thesis by (rule says_open)
    next
      case False
      then obtain d1 v where d1: "nm_body (ir_machine I) b (d, VTuple []) = Some (d1, v)"
          "?X (StIf b c t e k) (d, VTuple []) = rest_ending (ir_machine I) (Some (?X s)) (branch_ending (ir_machine I) c (?X t) (?X e) (d1, v))"
        using Some by (auto simp: with_body_def ends_open_simps split: option.splits)
      have "ends_open (branch_ending (ir_machine I) c (?X t) (?X e) (d1, v))" using q(1,2) by (intro open_branch falls_ending)
      then obtain d2 v2 where r: "branch_ending (ir_machine I) c (?X t) (?X e) (d1, v) = EFalls (d2, v2)"
        using False d1(2) by (fastforce simp: ends_open_def rest_ending_def on_fall_def)
      obtain f1 where f1: "same ?S d1 f1" "\<And>x. tail_flow I (assign b x) f = tail_flow I x f1"
        using statements_run [OF q(4,5) StIf.prems(3) d1(1)] by metis
      obtain arm where arm: "eval I d1 c = Some (VBool arm)" "(if arm then ?X t else ?X e) (d1, VTuple []) = EFalls (d2, v2)"
        using branch_run [OF r] by auto
      have c: "eval I f1 c = Some (VBool arm)" using same_eval [OF f1(1) q(6), of I] arm(1) by simp
      have "\<exists>f2 w2. tail_flow I (if arm then ?T else ?E) f1 = Some (f2, w2) \<and> same (defined_after (if arm then t else e) ?S) d2 f2"
        using emit_flow [of t ctxt d1 f1 I n d2 v2] emit_flow [of e ctxe d1 f1 I n d2 v2] q f1(1) arm(2) m(4,5) by (cases arm) simp_all
      then obtain f2 w2 where f2: "tail_flow I (if arm then ?T else ?E) f1 = Some (f2, w2)" "same (defined_after (if arm then t else e) ?S) d2 f2" by blast
      have xy: "bindings ?T = bound t" "bindings ?E = bound e" using q m(4,5) by (simp_all add: emit_bindings)
      obtain h where h: "tail_flow I (detect_if_phis c ?T ?E (fst (emit s ctxk)) ?S) f1 = tail_flow I (fst (emit s ctxk)) h"
          "same (?S \<union> lifted c t e ?S) d2 h"
        using merge_same [OF c f2(1) f1(1) f2(2) xy lift(1,2)] by blast
      have scope: "ec_scope ctxk = ?S \<union> lifted c t e ?S" using m(6) xy by (simp add: compute_if_phi_vars(1) lifted_def)
      have "says (ec_mode ctxk) (?X s (d2, VTuple [])) (eval I h (fst (emit s ctxk)))"
        using StIf.IH(3) [of s ctxk d2 h] h(2) lift(3) q(3) Some scope by simp
      moreover have "?X (StIf b c t e k) (d, VTuple []) = ?X s (d2, VTuple [])"
        unfolding d1(2) r by (simp add: rest_ending_def on_fall_def ir_machine_def)
      moreover have "eval I f (fst (emit (StIf b c t e k) ctx)) = eval I h (fst (emit s ctxk))"
        unfolding m(7) tail_eval using f1(2) h(1) Some by simp
      ultimately show ?thesis using m(3) by simp
    qed
  qed
qed simp_all

text \<open>A complete structure returns, aborts or gets stuck.\<close>

fun closed_end :: "'s ending \<Rightarrow> bool" where
  "closed_end (EReturns s) = True"
| "closed_end (EAborts c s) = True"
| "closed_end r = (r = EFails)"

lemma complete_ending: "complete st \<Longrightarrow> closed_end (exec_structure N n st s)"
proof (induction st arbitrary: s)
  case (StLeaf b t)
  then show ?case by (auto simp: with_body_def mark_ending_def split: option.splits Termination.splits)
next
  case (StIf b c t e k)
  have rest: "closed_end (rest_ending N (map_option (exec_structure N n) k) (branch_ending N c (exec_structure N n t) (exec_structure N n e) s))" for s
  proof (cases k)
    case None
    then have "closed_end (branch_ending N c (exec_structure N n t) (exec_structure N n e) s)"
      using StIf by (auto simp: branch_ending_def split: option.split)
    then show ?thesis by (cases "branch_ending N c (exec_structure N n t) (exec_structure N n e) s") (auto simp: rest_ending_def on_fall_def)
  next
    case (Some x)
    then have "ends_open (branch_ending N c (exec_structure N n t) (exec_structure N n e) s)"
      using StIf.prems by (intro open_branch falls_ending) auto
    then show ?thesis using StIf Some by (auto simp: ends_open_def rest_ending_def on_fall_def)
  qed
  then show ?case by (auto simp: with_body_def split: option.split)
qed auto


definition small_structure :: Structure where
  "small_structure = StIf unit_node (IRVar ''c'') (StLeaf (IRLet [''x''] (IRConst (CBool True)) unit_node) None) (StLeaf unit_node None)
     (Some (StLeaf (IRVar ''x'') (Some TmReturn)))"

definition small_context :: "nat EmitContext" where
  "small_context = emit_context_new fs_default {} Map.empty 0 ''f''
     \<lparr>sg_type_params = [], sg_parameters = [\<lparr>pa_name = ''c'', pa_type = TyBool, pa_ssa_value = ''c''\<rparr>,
        \<lparr>pa_name = ''x'', pa_type = TyBool, pa_ssa_value = ''x''\<rparr>], sg_return_type = TyBool\<rparr> Map.empty EmBody False"


section \<open>The scope of the code after a switch\<close>

text \<open>Every case binds \<open>y\<close>, and the code after the switch may assign it again.\<close>

definition late_structure :: Structure where
  "late_structure = StSwitch unit_node (IRVar ''m'')
     [StLeaf (IRLet [''y''] (IRConst (CBool False)) unit_node) None, StLeaf (IRLet [''y''] (IRConst (CBool False)) unit_node) None]
     (Some (StIf unit_node (IRVar ''c'') (StLeaf (IRLet [''y''] (IRConst (CBool True)) unit_node) None) (StLeaf unit_node None)
       (Some (StLeaf (IRVar ''y'') (Some TmReturn)))))"

definition late_context :: "nat EmitContext" where
  "late_context = emit_context_new fs_default {} Map.empty 0 ''f''
     \<lparr>sg_type_params = [], sg_parameters = [\<lparr>pa_name = ''m'', pa_type = TyStruct 0 [], pa_ssa_value = ''m''\<rparr>,
        \<lparr>pa_name = ''c'', pa_type = TyBool, pa_ssa_value = ''c''\<rparr>], sg_return_type = TyBool\<rparr> Map.empty EmBody False"


section \<open>A name that one path of an arm does not bind\<close>

text \<open>Both arms bind \<open>y\<close> somewhere, the first one only on one of its paths; nothing reads it later.\<close>

definition dead_structure :: Structure where
  "dead_structure = StIf unit_node (IRVar ''c'')
     (StIf unit_node (IRVar ''d'') (StLeaf (IRLet [''y''] (IRConst (CBool True)) unit_node) None) (StLeaf unit_node None) None)
     (StLeaf (IRLet [''y''] (IRConst (CBool False)) unit_node) None)
     (Some (StLeaf (IRVar ''c'') (Some TmReturn)))"

definition dead_context :: "nat EmitContext" where
  "dead_context = emit_context_new fs_default {} Map.empty 0 ''f''
     \<lparr>sg_type_params = [], sg_parameters = [\<lparr>pa_name = ''c'', pa_type = TyBool, pa_ssa_value = ''c''\<rparr>,
        \<lparr>pa_name = ''d'', pa_type = TyBool, pa_ssa_value = ''d''\<rparr>], sg_return_type = TyBool\<rparr> Map.empty EmBody False"

text \<open>
  A name that both arms bind is lifted although a path of one arm does not bind it and the
  code after the branch does not read it: the structure returns true, but the body that is emitted
  reads a name that is not bound, and has no value.
\<close>

theorem phi_reads_unbound:
  "exec_structure (ir_machine empty_interp) 0 dead_structure ([''c'' \<mapsto> VBool True, ''d'' \<mapsto> VBool False], VTuple [])
     = EReturns ([''c'' \<mapsto> VBool True, ''d'' \<mapsto> VBool False], VBool True)
   \<and> eval empty_interp [''c'' \<mapsto> VBool True, ''d'' \<mapsto> VBool False] (fst (emit dead_structure dead_context)) = None"
proof
  show "exec_structure (ir_machine empty_interp) 0 dead_structure ([''c'' \<mapsto> VBool True, ''d'' \<mapsto> VBool False], VTuple [])
     = EReturns ([''c'' \<mapsto> VBool True, ''d'' \<mapsto> VBool False], VBool True)"
    by (simp add: dead_structure_def with_body_def ir_machine_def unit_node_def rest_ending_def on_fall_def branch_ending_def mark_ending_def)
next
  let ?y = "\<lambda>x. IRLet [''y''] (IRConst (CBool x)) (IRTuple [])"
  have b: "bindings (?y x) = {''y''}" "bindings (IRTuple []) = {}" "bindings (IRVar v) = {}" for v x
    by (auto simp: bindings_def)
  have c: "free_vars (IRVar v) = {v}" for v by (simp add: free_vars_def read_name_def)
  have scope: "ec_scope dead_context = {''c'', ''d''}" "ec_mode dead_context = EmBody" "\<not> ec_preserve_aborts dead_context"
    by (auto simp: dead_context_def emit_context_new_def)
  have nested: "bindings (IRIf (IRVar ''d'') (?y True) (IRTuple [])) = {''y''}" by (simp only: bindings_simps(2) b) simp
  have "compute_if_phi_vars (IRVar ''c'') (IRIf (IRVar ''d'') (?y True) (IRTuple [])) (?y False) {''c'', ''d''} = [''y'']"
    by (simp add: compute_if_phi_vars_def nested b c)
  then have "fst (emit dead_structure dead_context) = IRLet [''y''] (IRIf (IRVar ''c'')
      (append_phi_return [''y''] (IRIf (IRVar ''d'') (?y True) (IRTuple []))) (append_phi_return [''y''] (?y False))) (IRVar ''c'')"
    by (simp add: dead_structure_def emit_if_def emit_if_merge_def emit_leaf_def Let_def finish_if_def
        try_abort_prune_if_def surviving_def always_aborts_def always_returns_def extend_scope_def restore_scope_def unit_node_def
        b scope detect_if_phis_def)
  then show "eval empty_interp [''c'' \<mapsto> VBool True, ''d'' \<mapsto> VBool False] (fst (emit dead_structure dead_context)) = None"
    by (simp add: phi_tuple_def)
qed

end
